(* ===== verification/Prelude.thy ===== *)
theory Prelude
  imports Main "HOL-Library.Word"
begin

unbundle bit_operations_syntax

text \<open>
  Shared vocabulary of the development: names for the machine integers of the C sources, the
  collections of lemmas the component theories fill, and generic facts about counting loops
  (\<open>fold\<close> over an interval), arrays (lists updated by index) and machine words.

  Conventions.  The VVBright kernel and the GRUB core are modelled for the 32-bit target that
  \<open>kernel/boot.s\<close> selects (pointers, \<open>size_t\<close> and \<open>unsigned long\<close> have 32 bits).  A C
  \<open>char\<close> is a HOL \<open>char\<close>; a NUL-terminated string is the list of the bytes before its
  terminator.  A counting loop \<open>for (i = 0; i < n; i++) body\<close> is \<open>fold body [0..<n]\<close>.
\<close>

type_synonym u8 = "8 word"
type_synonym u16 = "16 word"
type_synonym u32 = "32 word"
type_synonym u64 = "64 word"

named_theorems inv_intros \<open>preservation of component invariants\<close>
named_theorems mem_simps \<open>reading an array or a memory after a write\<close>


section \<open>C characters\<close>

text \<open>The bytes of a character, read as an unsigned value and, as plain \<open>char\<close> on x86, signed.\<close>

definition uchar :: "char \<Rightarrow> nat" where
  "uchar c = of_char c"

definition schar :: "char \<Rightarrow> int" where
  "schar c = sint (of_char c :: u8)"

abbreviation NUL :: char where "NUL \<equiv> CHR 0x00"

text \<open>Reading a C string at an index: the terminator stands right after its last byte.\<close>

definition cstr_at :: "string \<Rightarrow> nat \<Rightarrow> char" where
  "cstr_at s i = (if i < length s then s ! i else NUL)"

definition is_cstr :: "string \<Rightarrow> bool" where
  "is_cstr s = (NUL \<notin> set s)"

lemma uchar_less [simp]: "uchar c < 256"
  by (simp add: uchar_def)

lemma uchar_inject [simp]: "uchar a = uchar b \<longleftrightarrow> a = b"
  by (simp add: uchar_def)

lemma uchar_eq_0 [simp]: "uchar c = 0 \<longleftrightarrow> c = NUL"
  using uchar_inject[of c NUL] by (simp add: uchar_def)


section \<open>Counting loops\<close>

lemma fold_upt_Suc [simp]: "fold f [0..<Suc n] s = f n (fold f [0..<n] s)"
  by simp

lemma fold_invariant:
  assumes "P s" and "\<And>i s. i \<in> set xs \<Longrightarrow> P s \<Longrightarrow> P (f i s)"
  shows "P (fold f xs s)"
  using assms by (induction xs arbitrary: s) auto

lemma fold_upt_invariant:
  assumes "Q 0 s" and "\<And>i s. i < n \<Longrightarrow> Q i s \<Longrightarrow> Q (Suc i) (f i s)"
  shows "Q n (fold f [0..<n] s)"
  using assms
proof (induction n)
  case 0
  then show ?case by simp
next
  case (Suc n)
  have "Q n (fold f [0..<n] s)"
    using Suc.prems by (intro Suc.IH) auto
  then show ?case
    using Suc.prems(2)[of n] by simp
qed


section \<open>Arrays as lists\<close>

lemma length_fold_update [simp]:
  "length (fold (\<lambda>i xs. xs[g i := h i xs]) is xs) = length xs"
  by (induction "is" arbitrary: xs) auto

text \<open>A loop that overwrites a whole contiguous range with values that do not depend on the array.\<close>

lemma fold_fill:
  assumes "b + n \<le> length xs"
  shows "fold (\<lambda>i xs. xs[b + i := h i]) [0..<n] xs
           = take b xs @ map h [0..<n] @ drop (b + n) xs"
  using assms
proof (induction n)
  case 0
  then show ?case by simp
next
  case (Suc n)
  let ?t = "take b xs @ map h [0..<n] @ drop (b + n) xs"
  have hd: "drop (b + n) xs = xs ! (b + n) # drop (Suc (b + n)) xs"
    using Suc.prems by (simp add: Cons_nth_drop_Suc)
  have "?t[b + n := h n] = take b xs @ map h [0..<n] @ h n # drop (Suc (b + n)) xs"
    using Suc.prems by (simp add: list_update_append hd)
  then show ?case
    using Suc by simp
qed


section \<open>Machine words\<close>

lemma word_of_nat_less_iff:
  assumes "m < 2 ^ LENGTH('a)" and "n < 2 ^ LENGTH('a)"
  shows "(of_nat m :: 'a::len word) < of_nat n \<longleftrightarrow> m < n"
  using assms by (simp add: word_less_nat_alt unat_of_nat take_bit_nat_eq_self)

lemma unat_of_nat_id [simp]:
  "n < 2 ^ LENGTH('a) \<Longrightarrow> unat (of_nat n :: 'a::len word) = n"
  by (simp add: unat_of_nat take_bit_nat_eq_self)

lemma uint_of_int_id [simp]:
  "0 \<le> z \<Longrightarrow> z < 2 ^ LENGTH('a) \<Longrightarrow> uint (of_int z :: 'a::len word) = z"
  by (simp add: uint_word_of_int_eq take_bit_int_eq_self)

lemma unat_and_not_mask: "unat (x AND NOT (mask n) :: 'a::len word) = unat x div 2 ^ n * 2 ^ n"
proof -
  have "x AND NOT (mask n) = push_bit n (drop_bit n x)"
    by (rule bit_word_eqI) (auto simp: bit_simps)
  moreover have "unat (push_bit n (drop_bit n x))
      = take_bit LENGTH('a) (push_bit n (drop_bit n (unat x)))"
    by (simp only: unsigned_push_bit_eq unat_drop_bit_eq)
  moreover have "unat x div 2 ^ n * 2 ^ n < 2 ^ LENGTH('a)"
    by (rule le_less_trans[OF _ unsigned_less[of x]]) simp
  ultimately show ?thesis
    by (simp add: push_bit_eq_mult drop_bit_eq_div take_bit_nat_eq_self)
qed
lemma unat_less [simp]: "unat (x :: 'a::len word) < 2 ^ LENGTH('a)"
  by (rule unsigned_less)

lemma unat_drop_bit: "unat (drop_bit n (x :: 'a::len word)) = unat x div 2 ^ n"
  by (simp only: unat_drop_bit_eq) (simp only: drop_bit_eq_div)

lemma unat_not: "unat (NOT x :: u32) = 2 ^ 32 - 1 - unat x"
proof -
  have "NOT x = - 1 - x" by (simp add: not_eq_complement)
  moreover have "unat (- 1 - x) = unat (- 1 :: u32) - unat x" by (intro unat_sub) simp
  ultimately show ?thesis by (simp add: unsigned_minus_1_eq_mask mask_eq_exp_minus_1)
qed

lemma unat_ucast_mod: "unat (ucast (x :: 'a::len word) :: 'b::len word) = unat x mod 2 ^ LENGTH('b)"
  by (simp add: unsigned_ucast_eq take_bit_eq_mod)

end
