(* ===== verification/Framebuffer.thy ===== *)
theory Framebuffer
  imports Prelude
begin

text \<open>
  The linear framebuffer and the desktop the kernel paints on it:
  \<open>src/kernel/video/framebuffer.c\<close>, \<open>src/kernel/video/draw.c\<close> and \<open>src/kernel/kernel.c\<close>.

  The pixels are a memory \<open>u32 \<Rightarrow> u32\<close> indexed like the C array \<open>fb\<close>: the index is computed
  in 32-bit unsigned arithmetic, and \<open>put_pixel\<close> does no clipping.  The coordinates of
  \<open>draw_rect\<close> are signed \<open>int\<close>s.
\<close>

section \<open>Pixels and rectangles\<close>

record framebuffer =
  fb :: "u32 \<Rightarrow> u32"
  fb_width :: u32
  fb_height :: u32

text \<open>The initial values of the three globals; \<open>m\<close> is what the video memory holds.\<close>

definition framebuffer_boot :: "(u32 \<Rightarrow> u32) \<Rightarrow> framebuffer" where
  "framebuffer_boot m = \<lparr>fb = m, fb_width = 800, fb_height = 600\<rparr>"

definition put_pixel :: "u32 \<Rightarrow> u32 \<Rightarrow> u32 \<Rightarrow> framebuffer \<Rightarrow> framebuffer" where
  "put_pixel x y color s = s\<lparr>fb := (fb s)(y * fb_width s + x := color)\<rparr>"

definition draw_rect :: "int \<Rightarrow> int \<Rightarrow> int \<Rightarrow> int \<Rightarrow> u32 \<Rightarrow> framebuffer \<Rightarrow> framebuffer" where
  "draw_rect x y w h color s =
     fold (\<lambda>yy s. fold (\<lambda>xx s. put_pixel (of_int xx) (of_int yy) color s) [x..x + w - 1] s)
       [y..y + h - 1] s"


section \<open>The desktop\<close>

definition DARK_BG :: u32 where "DARK_BG = 0x202020"
definition PANEL_BG :: u32 where "PANEL_BG = 0x2A2A2A"
definition ACCENT :: u32 where "ACCENT = 0xFF79EE"

text \<open>
  \<open>kernel_main\<close> up to its final loop, which only halts the processor again and again.  The
  \<open>uint32_t\<close> arguments are converted to \<open>int\<close>.
\<close>

definition kernel_main :: "framebuffer \<Rightarrow> framebuffer" where
  "kernel_main s0 =
     (let s1 = draw_rect 0 0 (sint (fb_width s0)) (sint (fb_height s0)) DARK_BG s0;
          s2 = draw_rect 0 (sint (fb_height s1 - 40)) (sint (fb_width s1)) 40 PANEL_BG s1
      in draw_rect 10 (sint (fb_height s2 - 35)) 80 30 ACCENT s2)"

text \<open>\<open>kernel.c\<close> also has a text output routine on the VGA page with its own cursor \<open>pos\<close>.\<close>

fun print :: "string \<Rightarrow> int \<times> (int \<Rightarrow> u16) \<Rightarrow> int \<times> (int \<Rightarrow> u16)" where
  "print [] st = st"
| "print (c # s) (pos, vga) =
     print s (pos + 1, vga(pos := scast (of_char c :: u8) OR 0x0F00))"


section \<open>What the loops paint\<close>

lemma fold_put_pixel:
  "fold (\<lambda>(yy, xx) s. put_pixel (of_int xx) (of_int yy) color s) ps s
     = s\<lparr>fb := \<lambda>i. if i \<in> (\<lambda>(yy, xx). of_int yy * fb_width s + of_int xx) ` set ps
                   then color else fb s i\<rparr>"
  by (induction ps arbitrary: s) (auto simp: put_pixel_def fun_eq_iff)

lemma fold_product:
  "fold (\<lambda>y s. fold (\<lambda>x s. f y x s) xs s) ys s = fold (\<lambda>(y, x) s. f y x s) (List.product ys xs) s"
proof (induction ys arbitrary: s)
  case Nil
  then show ?case by simp
next
  case (Cons y ys)
  have "fold (\<lambda>(y, x) s. f y x s) (map (Pair y) xs) s = fold (\<lambda>x s. f y x s) xs s" for s
    by (simp add: fold_map comp_def)
  with Cons show ?case by simp
qed

lemma draw_rect_eq:
  "draw_rect x y w h color s
     = s\<lparr>fb := \<lambda>i. if \<exists>yy xx. y \<le> yy \<and> yy < y + h \<and> x \<le> xx \<and> xx < x + w
                         \<and> i = of_int yy * fb_width s + of_int xx
                   then color else fb s i\<rparr>"
proof -
  have "(i \<in> (\<lambda>(yy, xx). of_int yy * fb_width s + of_int xx)
               ` set (List.product [y..y + h - 1] [x..x + w - 1]))
     = (\<exists>yy xx. y \<le> yy \<and> yy < y + h \<and> x \<le> xx \<and> xx < x + w
                \<and> i = of_int yy * fb_width s + of_int xx)" for i
    by force
  then show ?thesis
    unfolding draw_rect_def fold_product fold_put_pixel by simp
qed

lemma draw_rect_fb:
  "fb (draw_rect x y w h color s) i
     = (if \<exists>yy xx. y \<le> yy \<and> yy < y + h \<and> x \<le> xx \<and> xx < x + w
               \<and> i = of_int yy * fb_width s + of_int xx then color else fb s i)"
  by (simp add: draw_rect_eq)

lemma draw_rect_size [simp]:
  "fb_width (draw_rect x y w h c s) = fb_width s"
  "fb_height (draw_rect x y w h c s) = fb_height s"
  by (simp_all add: draw_rect_eq)

text \<open>Distinct coordinates inside the picture have distinct indices.\<close>

lemma pixel_index_inj:
  assumes W: "uint W * H \<le> 2 ^ 32"
    and a: "0 \<le> x" "x < uint W" "0 \<le> y" "y < H"
    and b: "0 \<le> x'" "x' < uint W" "0 \<le> y'" "y' < H"
    and eq: "(of_int y * W + of_int x :: u32) = of_int y' * W + of_int x'"
  shows "x = x' \<and> y = y'"
proof -
  have bound: "0 \<le> v * uint W + u \<and> v * uint W + u < 2 ^ 32"
    if "0 \<le> u" "u < uint W" "0 \<le> v" "v < H" for u v
  proof -
    have "v * uint W + u < (v + 1) * uint W" using that by (simp add: algebra_simps)
    also have "\<dots> \<le> H * uint W" using that by (intro mult_right_mono) auto
    finally show ?thesis using that W by (simp add: mult.commute)
  qed
  have u: "uint (of_int z :: u32) = z" if "0 \<le> z \<and> z < 2 ^ 32" for z
    using that by simp
  have "uint (of_int (y * uint W + x) :: u32) = uint (of_int (y' * uint W + x') :: u32)"
    using eq by simp
  then have "y * uint W + x = y' * uint W + x'"
    unfolding u[OF bound[OF a]] u[OF bound[OF b]] .
  moreover have "(y * uint W + x) div uint W = y" and "(y' * uint W + x') div uint W = y'"
    using a b by simp_all
  ultimately show ?thesis by simp
qed

lemma draw_rect_pixel:
  assumes "uint (fb_width s) * H \<le> 2 ^ 32"
    and "0 \<le> x" "0 \<le> y" "x + w \<le> uint (fb_width s)" "y + h \<le> H"
    and "0 \<le> px" "px < uint (fb_width s)" "0 \<le> py" "py < H"
  shows "fb (draw_rect x y w h c s) (of_int py * fb_width s + of_int px)
           = (if x \<le> px \<and> px < x + w \<and> y \<le> py \<and> py < y + h then c
              else fb s (of_int py * fb_width s + of_int px))"
proof -
  have uniq: "px = xx \<and> py = yy"
    if "y \<le> yy" "yy < y + h" "x \<le> xx" "xx < x + w"
      "of_int py * fb_width s + of_int px = of_int yy * fb_width s + of_int xx" for xx yy
    using assms that by (intro pixel_index_inj[where H = H and W = "fb_width s"]) auto
  have "(\<exists>yy xx. y \<le> yy \<and> yy < y + h \<and> x \<le> xx \<and> xx < x + w
       \<and> of_int py * fb_width s + of_int px = of_int yy * fb_width s + of_int xx)
     \<longleftrightarrow> (x \<le> px \<and> px < x + w \<and> y \<le> py \<and> py < y + h)" (is "?L \<longleftrightarrow> ?R")
  proof (intro iffI)
    assume ?L
    then obtain yy xx where *: "y \<le> yy" "yy < y + h" "x \<le> xx" "xx < x + w"
        "of_int py * fb_width s + of_int px = of_int yy * fb_width s + of_int xx" by blast
    with uniq[OF *] show ?R by simp
  next
    assume ?R
    then show ?L by blast
  qed
  then show ?thesis
    by (simp only: draw_rect_fb)
qed

text \<open>The same on the 800x600 screen of the boot, and for the memory outside the screen.\<close>

lemma draw_rect_800:
  assumes "fb_width s = 800"
    and "0 \<le> x" "0 \<le> y" "x + w \<le> 800" "y + h \<le> 600"
    and "0 \<le> px" "px < 800" "0 \<le> py" "py < 600"
  shows "fb (draw_rect x y w h c s) (of_int py * 800 + of_int px)
           = (if x \<le> px \<and> px < x + w \<and> y \<le> py \<and> py < y + h then c
              else fb s (of_int py * 800 + of_int px))"
  using draw_rect_pixel[of s 600 x y w h px py c] assms by simp

lemma draw_rect_outside:
  assumes "fb_width s = 800" and "0 \<le> x" "0 \<le> y" "x + w \<le> 800" "y + h \<le> 600"
    and "800 * 600 \<le> uint i"
  shows "fb (draw_rect x y w h c s) i = fb s i"
proof -
  have "i \<noteq> of_int yy * 800 + of_int xx"
    if "y \<le> yy" "yy < y + h" "x \<le> xx" "xx < x + w" for yy xx
  proof
    assume "i = of_int yy * 800 + of_int xx"
    then have "uint i = uint (of_int (yy * 800 + xx) :: u32)" by simp
    also have "\<dots> = yy * 800 + xx"
      using that assms(2-5) by (intro uint_of_int_id) auto
    finally show False using assms that by simp
  qed
  then have "\<not> (\<exists>yy xx. y \<le> yy \<and> yy < y + h \<and> x \<le> xx \<and> xx < x + w
       \<and> i = of_int yy * 800 + of_int xx)"
    by blast
  then show ?thesis
    by (simp only: draw_rect_fb assms(1) if_False)
qed

lemma kernel_main_boot:
  "kernel_main (framebuffer_boot m)
     = draw_rect 10 565 80 30 ACCENT (draw_rect 0 560 800 40 PANEL_BG
         (draw_rect 0 0 800 600 DARK_BG (framebuffer_boot m)))"
  by (simp add: kernel_main_def Let_def) (simp add: framebuffer_boot_def)

lemma framebuffer_boot_width [simp]: "fb_width (framebuffer_boot m) = 800"
  by (simp add: framebuffer_boot_def)

text \<open>
  C30. The desktop picture: when the kernel starts with its 800x600 framebuffer, it leaves the
  accent-coloured start button, the panel across the bottom 40 lines and the dark background
  everywhere else, whatever the video memory held before.
\<close>

theorem kernel_main_picture:
  assumes "0 \<le> px" and "px < 800" and "0 \<le> py" and "py < 600"
  shows "fb (kernel_main (framebuffer_boot m)) (of_int py * 800 + of_int px)
           = (if 10 \<le> px \<and> px < 90 \<and> 565 \<le> py \<and> py < 595 then ACCENT
              else if 560 \<le> py then PANEL_BG else DARK_BG)"
  using assms by (simp add: kernel_main_boot draw_rect_800)

theorem kernel_main_picture_witness:
  "fb (kernel_main (framebuffer_boot (\<lambda>_. 0))) (of_int 570 * 800 + of_int 20) = ACCENT"
  using kernel_main_picture[of 20 570 "\<lambda>_. 0"] by simp

text \<open>
  Painting stays inside the framebuffer: no memory word past the 800 * 600 pixels changes.
\<close>

theorem kernel_main_stays_inside:
  assumes "800 * 600 \<le> uint i"
  shows "fb (kernel_main (framebuffer_boot m)) i = m i"
  using assms by (simp add: kernel_main_boot draw_rect_outside) (simp add: framebuffer_boot_def)

theorem kernel_main_stays_inside_witness:
  "fb (kernel_main (framebuffer_boot (\<lambda>_. 5))) 480000 = 5"
  using kernel_main_stays_inside[of 480000 "\<lambda>_. 5"] by simp

end
