(* ===== verification/Terminal.thy ===== *)
theory Terminal
  imports Prelude
begin

text \<open>
  The VGA text terminal of the kernel: \<open>src/kernel/terminal.c\<close> and the colour and cell
  declarations of \<open>src/kernel/kernel.h\<close>.

  The text page at \<open>VGA_MEMORY\<close> is a list of \<open>VGA_WIDTH * VGA_HEIGHT\<close> cells.  A store outside
  it hits memory the terminal does not own; the operations return \<open>None\<close> there, so that the
  safety lemmas say that such a store never happens.
\<close>

section \<open>Colours and cells\<close>

abbreviation VGA_WIDTH :: nat where "VGA_WIDTH \<equiv> 80"
abbreviation VGA_HEIGHT :: nat where "VGA_HEIGHT \<equiv> 25"

datatype vga_color =
    VGA_COLOR_BLACK | VGA_COLOR_BLUE | VGA_COLOR_GREEN | VGA_COLOR_CYAN
  | VGA_COLOR_RED | VGA_COLOR_MAGENTA | VGA_COLOR_BROWN | VGA_COLOR_LIGHT_GREY
  | VGA_COLOR_DARK_GREY | VGA_COLOR_LIGHT_BLUE | VGA_COLOR_LIGHT_GREEN | VGA_COLOR_LIGHT_CYAN
  | VGA_COLOR_LIGHT_RED | VGA_COLOR_LIGHT_MAGENTA | VGA_COLOR_LIGHT_BROWN | VGA_COLOR_WHITE

text \<open>The numbers the enumeration gives its constants.\<close>

fun vga_color_code :: "vga_color \<Rightarrow> u32" where
  "vga_color_code VGA_COLOR_BLACK = 0"
| "vga_color_code VGA_COLOR_BLUE = 1"
| "vga_color_code VGA_COLOR_GREEN = 2"
| "vga_color_code VGA_COLOR_CYAN = 3"
| "vga_color_code VGA_COLOR_RED = 4"
| "vga_color_code VGA_COLOR_MAGENTA = 5"
| "vga_color_code VGA_COLOR_BROWN = 6"
| "vga_color_code VGA_COLOR_LIGHT_GREY = 7"
| "vga_color_code VGA_COLOR_DARK_GREY = 8"
| "vga_color_code VGA_COLOR_LIGHT_BLUE = 9"
| "vga_color_code VGA_COLOR_LIGHT_GREEN = 10"
| "vga_color_code VGA_COLOR_LIGHT_CYAN = 11"
| "vga_color_code VGA_COLOR_LIGHT_RED = 12"
| "vga_color_code VGA_COLOR_LIGHT_MAGENTA = 13"
| "vga_color_code VGA_COLOR_LIGHT_BROWN = 14"
| "vga_color_code VGA_COLOR_WHITE = 15"

text \<open>
  \<open>(uint16_t) c\<close> sign-extends: plain \<open>char\<close> is signed on x86.  An enumeration variable may hold
  any 32-bit value, and the terminal stores \<open>or\<close>-combinations of constants in one.
\<close>

definition vga_entry :: "char \<Rightarrow> u32 \<Rightarrow> u16" where
  "vga_entry c color = scast (of_char c :: u8) OR push_bit 8 (ucast color)"


section \<open>State and operations\<close>

record terminal =
  terminal_row :: u32
  terminal_column :: u32
  terminal_color :: u32
  terminal_buffer :: "u16 list"

text \<open>The two nested loops of \<open>terminal_initialize\<close>; every index they compute is below 2000.\<close>

definition terminal_clear_cells :: "terminal \<Rightarrow> terminal" where
  "terminal_clear_cells t =
     fold (\<lambda>y t. fold (\<lambda>x t.
         let index = y * VGA_WIDTH + x
         in t\<lparr>terminal_buffer := (terminal_buffer t)
                 [index := vga_entry (CHR '' '') (terminal_color t)]\<rparr>)
       [0..<VGA_WIDTH] t) [0..<VGA_HEIGHT] t"

definition terminal_initialize :: "terminal \<Rightarrow> terminal" where
  "terminal_initialize t =
     terminal_clear_cells
       (t\<lparr>terminal_row := 0,
          terminal_column := 0,
          terminal_color := vga_color_code VGA_COLOR_LIGHT_GREY
                              OR push_bit 4 (vga_color_code VGA_COLOR_BLACK)\<rparr>)"

definition terminal_setcolor :: "u32 \<Rightarrow> terminal \<Rightarrow> terminal" where
  "terminal_setcolor color t = t\<lparr>terminal_color := color\<rparr>"

definition terminal_putentryat :: "char \<Rightarrow> u32 \<Rightarrow> u32 \<Rightarrow> u32 \<Rightarrow> terminal \<Rightarrow> terminal option" where
  "terminal_putentryat c color x y t =
     (let index = y * of_nat VGA_WIDTH + x
      in if unat index < length (terminal_buffer t)
         then Some (t\<lparr>terminal_buffer := (terminal_buffer t)[unat index := vga_entry c color]\<rparr>)
         else None)"

text \<open>The scrolling branch of \<open>terminal_putchar\<close>: move the lines up, blank the last one.\<close>

definition scroll_lines :: "u16 list \<Rightarrow> u16 list" where
  "scroll_lines b =
     fold (\<lambda>y b. fold (\<lambda>x b.
         let src = (y + 1) * VGA_WIDTH + x; dst = y * VGA_WIDTH + x
         in b[dst := b ! src]) [0..<VGA_WIDTH] b) [0..<VGA_HEIGHT - 1] b"

definition clear_last_line :: "u32 \<Rightarrow> u16 list \<Rightarrow> u16 list" where
  "clear_last_line color b =
     fold (\<lambda>x b. let index = (VGA_HEIGHT - 1) * VGA_WIDTH + x
                 in b[index := vga_entry (CHR '' '') color]) [0..<VGA_WIDTH] b"

definition terminal_scroll :: "terminal \<Rightarrow> terminal" where
  "terminal_scroll t =
     t\<lparr>terminal_buffer := clear_last_line (terminal_color t) (scroll_lines (terminal_buffer t)),
       terminal_row := of_nat (VGA_HEIGHT - 1)\<rparr>"

definition terminal_putchar :: "char \<Rightarrow> terminal \<Rightarrow> terminal option" where
  "terminal_putchar c t =
     (if c = CHR 0x0A
      then Some (t\<lparr>terminal_column := 0, terminal_row := terminal_row t + 1\<rparr>)
      else
        let t1 = (if terminal_row t \<ge> of_nat VGA_HEIGHT then terminal_scroll t else t)
        in case terminal_putentryat c (terminal_color t1) (terminal_column t1) (terminal_row t1) t1 of
             None \<Rightarrow> None
           | Some t2 \<Rightarrow>
               let t3 = t2\<lparr>terminal_column := terminal_column t2 + 1\<rparr>
               in if terminal_column t3 = of_nat VGA_WIDTH
                  then Some (t3\<lparr>terminal_column := 0, terminal_row := terminal_row t3 + 1\<rparr>)
                  else Some t3)"

fun terminal_write :: "string \<Rightarrow> terminal \<Rightarrow> terminal option" where
  "terminal_write [] t = Some t"
| "terminal_write (c # cs) t =
     (case terminal_putchar c t of None \<Rightarrow> None | Some t' \<Rightarrow> terminal_write cs t')"

definition terminal_writestring :: "string \<Rightarrow> terminal \<Rightarrow> terminal option" where
  "terminal_writestring s t = terminal_write s t"


section \<open>The page after the loops\<close>

text \<open>The scrolling loops, cell by cell: the processed prefix holds what stood one line below.\<close>

definition scrolled_upto :: "nat \<Rightarrow> u16 list \<Rightarrow> u16 list \<Rightarrow> bool" where
  "scrolled_upto n b b' \<longleftrightarrow> length b' = length b \<and>
     (\<forall>k < length b. b' ! k = (if k < n then b ! (k + VGA_WIDTH) else b ! k))"

lemma scrolled_upto_step:
  assumes "scrolled_upto n b b'" and "n + VGA_WIDTH < length b"
  shows "scrolled_upto (Suc n) b (b'[n := b' ! (n + VGA_WIDTH)])"
  using assms by (auto simp: scrolled_upto_def nth_list_update less_Suc_eq)

lemma scroll_line_upto:
  assumes "scrolled_upto (y * VGA_WIDTH) b b'" and "(y + 2) * VGA_WIDTH \<le> length b"
  shows "scrolled_upto (y * VGA_WIDTH + VGA_WIDTH) b
           (fold (\<lambda>x b. let src = (y + 1) * VGA_WIDTH + x; dst = y * VGA_WIDTH + x
                        in b[dst := b ! src]) [0..<VGA_WIDTH] b')"
proof (rule fold_upt_invariant[where Q = "\<lambda>x. scrolled_upto (y * VGA_WIDTH + x) b"])
  show "scrolled_upto (y * VGA_WIDTH + 0) b b'"
    using assms(1) by simp
next
  fix x b''
  assume "x < VGA_WIDTH" and inv: "scrolled_upto (y * VGA_WIDTH + x) b b''"
  then have "y * VGA_WIDTH + x + VGA_WIDTH < length b"
    using assms(2) by simp
  from scrolled_upto_step[OF inv this]
  show "scrolled_upto (y * VGA_WIDTH + Suc x) b
          (let src = (y + 1) * VGA_WIDTH + x; dst = y * VGA_WIDTH + x in b''[dst := b'' ! src])"
    by (simp add: Let_def algebra_simps)
qed

lemma scroll_lines_upto:
  assumes "length b = VGA_WIDTH * VGA_HEIGHT"
  shows "scrolled_upto ((VGA_HEIGHT - 1) * VGA_WIDTH) b (scroll_lines b)"
  unfolding scroll_lines_def
proof (rule fold_upt_invariant[where Q = "\<lambda>y. scrolled_upto (y * VGA_WIDTH) b"])
  show "scrolled_upto (0 * VGA_WIDTH) b b"
    by (simp add: scrolled_upto_def)
next
  fix y b'
  assume y: "y < VGA_HEIGHT - 1" and inv: "scrolled_upto (y * VGA_WIDTH) b b'"
  have "(y + 2) * VGA_WIDTH \<le> length b"
    using y assms by simp
  from scroll_line_upto[OF inv this]
  show "scrolled_upto (Suc y * VGA_WIDTH) b
          (fold (\<lambda>x b. let src = (y + 1) * VGA_WIDTH + x; dst = y * VGA_WIDTH + x
                       in b[dst := b ! src]) [0..<VGA_WIDTH] b')"
    by (simp add: add.commute)
qed

lemma clear_last_line_eq:
  assumes "length b = VGA_WIDTH * VGA_HEIGHT"
  shows "clear_last_line color b
           = take 1920 b @ replicate VGA_WIDTH (vga_entry (CHR '' '') color)"
proof -
  have "map (\<lambda>x. vga_entry (CHR '' '') color) [0..<VGA_WIDTH]
          = replicate VGA_WIDTH (vga_entry (CHR '' '') color)"
    by (simp only: map_replicate_const length_upt) simp
  then show ?thesis
    using assms fold_fill[of 1920 VGA_WIDTH b "\<lambda>x. vga_entry (CHR '' '') color"]
    unfolding clear_last_line_def Let_def by simp
qed

lemma scroll_page_eq:
  assumes "length b = VGA_WIDTH * VGA_HEIGHT"
  shows "clear_last_line color (scroll_lines b)
           = drop VGA_WIDTH b @ replicate VGA_WIDTH (vga_entry (CHR '' '') color)"
proof -
  have up: "scrolled_upto 1920 b (scroll_lines b)"
    using scroll_lines_upto[OF assms] by simp
  have "take 1920 (scroll_lines b) = drop VGA_WIDTH b"
    using up assms by (intro nth_equalityI) (auto simp: scrolled_upto_def add.commute)
  then show ?thesis
    using up assms by (simp add: clear_last_line_eq scrolled_upto_def)
qed

lemma clear_row_eq:
  assumes "(y + 1) * VGA_WIDTH \<le> length (terminal_buffer t)"
  shows "fold (\<lambda>x t. let index = y * VGA_WIDTH + x
           in t\<lparr>terminal_buffer := (terminal_buffer t)
                  [index := vga_entry (CHR '' '') (terminal_color t)]\<rparr>) xs t
         = t\<lparr>terminal_buffer := fold (\<lambda>x b. b[y * VGA_WIDTH + x :=
                  vga_entry (CHR '' '') (terminal_color t)]) xs (terminal_buffer t)\<rparr>"
  using assms
proof (induction xs arbitrary: t)
  case Nil
  then show ?case by simp
next
  case (Cons x xs)
  then show ?case by (simp add: Let_def)
qed

text \<open>Clearing the screen leaves a page of blanks and touches nothing else.\<close>

lemma terminal_clear_cells_eq:
  assumes "length (terminal_buffer t) = VGA_WIDTH * VGA_HEIGHT"
  shows "terminal_clear_cells t
           = t\<lparr>terminal_buffer := replicate (VGA_WIDTH * VGA_HEIGHT)
                                     (vga_entry (CHR '' '') (terminal_color t))\<rparr>"
proof -
  let ?e = "vga_entry (CHR '' '') (terminal_color t)"
  let ?Q = "\<lambda>y t'. t' = t\<lparr>terminal_buffer := replicate (y * VGA_WIDTH) ?e
                              @ drop (y * VGA_WIDTH) (terminal_buffer t)\<rparr>"
  have "?Q VGA_HEIGHT (terminal_clear_cells t)"
    unfolding terminal_clear_cells_def
  proof (rule fold_upt_invariant[where Q = ?Q])
    show "?Q 0 t" by simp
  next
    fix y t'
    assume y: "y < VGA_HEIGHT" and Q: "?Q y t'"
    let ?b = "replicate (y * VGA_WIDTH) ?e @ drop (y * VGA_WIDTH) (terminal_buffer t)"
    have "fold (\<lambda>x b. b[y * VGA_WIDTH + x := ?e]) [0..<VGA_WIDTH] ?b
            = replicate (Suc y * VGA_WIDTH) ?e @ drop (Suc y * VGA_WIDTH) (terminal_buffer t)"
      using y assms fold_fill[of "y * VGA_WIDTH" VGA_WIDTH ?b "\<lambda>_. ?e"]
      by (simp add: map_replicate_const replicate_add[symmetric] add.commute del: upt_Suc)
    then show "?Q (Suc y) (fold (\<lambda>x t. let index = y * VGA_WIDTH + x
           in t\<lparr>terminal_buffer := (terminal_buffer t)
                  [index := vga_entry (CHR '' '') (terminal_color t)]\<rparr>) [0..<VGA_WIDTH] t')"
      using y assms Q by (subst clear_row_eq) (simp_all del: upt_Suc)
  qed
  then show ?thesis
    using assms by simp
qed

section \<open>Well-formed terminals\<close>

definition term_inv :: "terminal \<Rightarrow> bool" where
  "term_inv t \<longleftrightarrow> length (terminal_buffer t) = VGA_WIDTH * VGA_HEIGHT
                \<and> terminal_column t < of_nat VGA_WIDTH"

lemma terminal_initialize_inv [inv_intros]:
  assumes "length (terminal_buffer t) = VGA_WIDTH * VGA_HEIGHT"
  shows "term_inv (terminal_initialize t)"
  using assms by (simp add: terminal_initialize_def terminal_clear_cells_eq term_inv_def)

lemma terminal_setcolor_inv [inv_intros]: "term_inv t \<Longrightarrow> term_inv (terminal_setcolor c t)"
  by (simp add: term_inv_def terminal_setcolor_def)

lemma terminal_scroll_eq:
  assumes "term_inv t"
  shows "terminal_scroll t = t\<lparr>terminal_row := 24, terminal_buffer := drop VGA_WIDTH (terminal_buffer t)
           @ replicate VGA_WIDTH (vga_entry (CHR '' '') (terminal_color t))\<rparr>"
  using assms by (simp add: terminal_scroll_def scroll_page_eq term_inv_def)

lemma terminal_scroll_inv [inv_intros]: "term_inv t \<Longrightarrow> term_inv (terminal_scroll t)"
  by (simp add: terminal_scroll_eq) (simp add: term_inv_def)

text \<open>The cell index never leaves the page while row and column are in range.\<close>

lemma cell_index:
  assumes "terminal_row t < 25" and "terminal_column t < 80"
  shows "unat (terminal_row t * 80 + terminal_column t)
           = unat (terminal_row t) * 80 + unat (terminal_column t)"
proof -
  have "unat (terminal_row t) < 25" and "unat (terminal_column t) < 80"
    using assms by (simp_all add: word_less_nat_alt)
  then show ?thesis
    by (simp add: unat_word_ariths)
qed

lemma next_column:
  assumes "(x :: u32) < 80" and "x + 1 \<noteq> 80"
  shows "x + 1 < 80"
  using assms by unat_arith


section \<open>Abstract screen\<close>

text \<open>
  What the terminal promises: a cursor and \<open>VGA_HEIGHT\<close> lines of \<open>VGA_WIDTH\<close> cells.  A line
  break only moves the cursor; a character written with the cursor below the last line first
  drops the top line and appends a blank one; the cursor wraps at the right margin.
\<close>

record screen =
  cur_row :: nat
  cur_col :: nat
  cur_color :: u32
  screen_lines :: "u16 list list"

definition screen_scroll :: "screen \<Rightarrow> screen" where
  "screen_scroll s = s\<lparr>cur_row := VGA_HEIGHT - 1,
     screen_lines := tl (screen_lines s) @ [replicate VGA_WIDTH (vga_entry (CHR '' '') (cur_color s))]\<rparr>"

definition screen_advance :: "screen \<Rightarrow> screen" where
  "screen_advance s = (if cur_col s + 1 = VGA_WIDTH
     then s\<lparr>cur_col := 0, cur_row := cur_row s + 1\<rparr> else s\<lparr>cur_col := cur_col s + 1\<rparr>)"

definition screen_store :: "char \<Rightarrow> screen \<Rightarrow> screen" where
  "screen_store c s = s\<lparr>screen_lines := (screen_lines s)
     [cur_row s := (screen_lines s ! cur_row s)[cur_col s := vga_entry c (cur_color s)]]\<rparr>"

definition screen_put :: "char \<Rightarrow> screen \<Rightarrow> screen" where
  "screen_put c s =
     (if c = CHR 0x0A then s\<lparr>cur_col := 0, cur_row := (cur_row s + 1) mod 2 ^ 32\<rparr>
      else screen_advance (screen_store c
             (if VGA_HEIGHT \<le> cur_row s then screen_scroll s else s)))"

text \<open>The page cut into lines.\<close>

definition page_lines :: "u16 list \<Rightarrow> u16 list list" where
  "page_lines b = map (\<lambda>y. take VGA_WIDTH (drop (y * VGA_WIDTH) b)) [0..<VGA_HEIGHT]"

definition screen_of :: "terminal \<Rightarrow> screen" where
  "screen_of t = \<lparr>cur_row = unat (terminal_row t), cur_col = unat (terminal_column t),
     cur_color = terminal_color t, screen_lines = page_lines (terminal_buffer t)\<rparr>"

lemma length_page_lines [simp]: "length (page_lines b) = VGA_HEIGHT"
  unfolding page_lines_def length_map length_upt by simp

lemma nth_page_lines:
  assumes "y < VGA_HEIGHT"
  shows "page_lines b ! y = take VGA_WIDTH (drop (y * VGA_WIDTH) b)"
proof -
  have "y < length [0..<VGA_HEIGHT]" using assms by (simp only: length_upt)
  then show ?thesis
    unfolding page_lines_def using nth_upt[of 0 y VGA_HEIGHT] assms
    by (simp only: nth_map add_0)
qed

lemma page_lines_scroll:
  assumes "length b = VGA_WIDTH * VGA_HEIGHT" and "length l = VGA_WIDTH"
  shows "page_lines (drop VGA_WIDTH b @ l) = tl (page_lines b) @ [l]"
proof (rule nth_equalityI)
  show "length (page_lines (drop VGA_WIDTH b @ l)) = length (tl (page_lines b) @ [l])"
    by simp
next
  fix y
  assume "y < length (page_lines (drop VGA_WIDTH b @ l))"
  then have y: "y < VGA_HEIGHT" by simp
  show "page_lines (drop VGA_WIDTH b @ l) ! y = (tl (page_lines b) @ [l]) ! y"
  proof (cases "y = VGA_HEIGHT - 1")
    case True
    then show ?thesis
      using assms by (simp add: nth_page_lines nth_append)
  next
    case False
    then have lt: "Suc y < VGA_HEIGHT" and "y * VGA_WIDTH + VGA_WIDTH \<le> length (drop VGA_WIDTH b)"
      using y assms by auto
    then have "take VGA_WIDTH (drop (y * VGA_WIDTH) (drop VGA_WIDTH b @ l))
                 = take VGA_WIDTH (drop (Suc y * VGA_WIDTH) b)"
      by (simp add: add.commute)
    then show ?thesis
      using lt y by (simp add: nth_append nth_tl nth_page_lines)
  qed
qed

lemma page_lines_update:
  assumes "length b = VGA_WIDTH * VGA_HEIGHT" and "y < VGA_HEIGHT" and "x < VGA_WIDTH"
  shows "page_lines (b[y * VGA_WIDTH + x := v])
           = (page_lines b)[y := (page_lines b ! y)[x := v]]"
proof (rule nth_equalityI)
  show "length (page_lines (b[y * VGA_WIDTH + x := v]))
          = length ((page_lines b)[y := (page_lines b ! y)[x := v]])"
    by simp
next
  fix k
  assume "k < length (page_lines (b[y * VGA_WIDTH + x := v]))"
  then have k: "k < VGA_HEIGHT" by simp
  have "take VGA_WIDTH (drop (k * VGA_WIDTH) (b[y * VGA_WIDTH + x := v]))
          = (if k = y then (take VGA_WIDTH (drop (y * VGA_WIDTH) b))[x := v]
             else take VGA_WIDTH (drop (k * VGA_WIDTH) b))"
    using assms k
    by (intro nth_equalityI) (auto simp: nth_list_update)
  then show "page_lines (b[y * VGA_WIDTH + x := v]) ! k
               = (page_lines b)[y := (page_lines b ! y)[x := v]] ! k"
    using k assms by (auto simp: nth_page_lines nth_list_update)
qed

section \<open>Refinement\<close>

text \<open>
  The contract of a character sink, as the rest of the kernel uses it: one operation that
  never fails on a well-formed sink, keeps it well-formed and implements an abstract one, and
  the string output built from it.
\<close>

locale console =
  fixes ok :: "'t \<Rightarrow> bool"
    and putc :: "char \<Rightarrow> 't \<Rightarrow> 't option"
    and puts :: "string \<Rightarrow> 't \<Rightarrow> 't option"
    and view :: "'t \<Rightarrow> 's"
    and spec :: "char \<Rightarrow> 's \<Rightarrow> 's"
  assumes putc_refines: "ok t \<Longrightarrow> \<exists>t'. putc c t = Some t' \<and> ok t' \<and> view t' = spec c (view t)"
    and puts_Nil: "puts [] t = Some t"
    and puts_Cons: "puts (c # cs) t = (case putc c t of None \<Rightarrow> None | Some t' \<Rightarrow> puts cs t')"
begin

lemma puts_refines:
  "ok t \<Longrightarrow> \<exists>t'. puts s t = Some t' \<and> ok t' \<and> view t' = fold spec s (view t)"
proof (induction s arbitrary: t)
  case Nil
  then show ?case by (simp add: puts_Nil)
next
  case (Cons c cs)
  obtain t1 where "putc c t = Some t1" and "ok t1" and "view t1 = spec c (view t)"
    using putc_refines[OF Cons.prems] by blast
  with Cons.IH[OF \<open>ok t1\<close>] show ?case
    by (auto simp: puts_Cons)
qed

lemma puts_total: "ok t \<Longrightarrow> \<exists>t'. puts s t = Some t' \<and> ok t'"
  using puts_refines by blast

lemma puts_keeps: "ok t \<Longrightarrow> puts s t = Some t' \<Longrightarrow> ok t'"
  using puts_refines[of t s] by auto

lemma puts_append: "puts (a @ b) t = (case puts a t of None \<Rightarrow> None | Some t' \<Rightarrow> puts b t')"
  by (induction a arbitrary: t) (auto simp: puts_Nil puts_Cons split: option.splits)

end

lemma terminal_store_step:
  assumes "term_inv t" and "terminal_row t < 25"
  shows "\<exists>t'. terminal_putentryat c (terminal_color t) (terminal_column t) (terminal_row t) t = Some t'
            \<and> length (terminal_buffer t') = VGA_WIDTH * VGA_HEIGHT
            \<and> terminal_column t' = terminal_column t \<and> terminal_row t' = terminal_row t
            \<and> terminal_color t' = terminal_color t
            \<and> screen_of t' = screen_store c (screen_of t)"
proof -
  have c: "terminal_column t < 80" and len: "length (terminal_buffer t) = VGA_WIDTH * VGA_HEIGHT"
    using assms(1) by (simp_all add: term_inv_def)
  have y: "unat (terminal_row t) < 25" and x: "unat (terminal_column t) < 80"
    using c assms(2) by (simp_all add: word_less_nat_alt)
  show ?thesis
    using cell_index[OF assms(2) c] x y len
      page_lines_update[OF len y x, of "vga_entry c (terminal_color t)"]
    by (simp add: terminal_putentryat_def screen_of_def screen_store_def)
qed

lemma terminal_advance_step:
  assumes "terminal_column t < 80" and "terminal_row t < 25"
    and "length (terminal_buffer t) = VGA_WIDTH * VGA_HEIGHT"
  defines "t3 \<equiv> t\<lparr>terminal_column := terminal_column t + 1\<rparr>"
  defines "t4 \<equiv> (if terminal_column t3 = 80
                    then t3\<lparr>terminal_column := 0, terminal_row := terminal_row t3 + 1\<rparr> else t3)"
  shows "term_inv t4 \<and> screen_of t4 = screen_advance (screen_of t)"
proof -
  have x: "unat (terminal_column t) < 80" and y: "unat (terminal_row t) < 25"
    using assms(1,2) by (simp_all add: word_less_nat_alt)
  have eq: "terminal_column t + 1 = 80 \<longleftrightarrow> unat (terminal_column t) + 1 = 80"
    using x by (simp add: word_unat_eq_iff unat_word_ariths)
  have "unat (terminal_row t + 1) = unat (terminal_row t) + 1"
    and "unat (terminal_column t + 1) = unat (terminal_column t) + 1"
    using x y by (simp_all add: unat_word_ariths)
  then show ?thesis
    using assms eq next_column[of "terminal_column t"]
    by (auto simp: term_inv_def screen_of_def screen_advance_def)
qed

lemma terminal_scroll_step:
  assumes "term_inv t"
  defines "t1 \<equiv> (if terminal_row t \<ge> 25 then terminal_scroll t else t)"
  shows "term_inv t1 \<and> terminal_row t1 < 25
       \<and> screen_of t1 = (if VGA_HEIGHT \<le> cur_row (screen_of t) then screen_scroll (screen_of t)
                         else screen_of t)"
proof -
  have "25 \<le> terminal_row t \<longleftrightarrow> VGA_HEIGHT \<le> unat (terminal_row t)"
    by (simp add: word_le_nat_alt)
  moreover have "screen_of (terminal_scroll t) = screen_scroll (screen_of t)"
    using assms(1) page_lines_scroll[of "terminal_buffer t"]
    by (simp add: terminal_scroll_eq screen_of_def screen_scroll_def term_inv_def)
  ultimately show ?thesis
    using assms terminal_scroll_inv[OF assms(1)]
    by (auto simp: screen_of_def terminal_scroll_eq)
qed

lemma terminal_putchar_refines:
  assumes "term_inv t"
  shows "\<exists>t'. terminal_putchar c t = Some t' \<and> term_inv t'
            \<and> screen_of t' = screen_put c (screen_of t)"
proof (cases "c = CHR 0x0A")
  case True
  then show ?thesis
    using assms by (simp add: terminal_putchar_def term_inv_def screen_of_def screen_put_def
        unat_word_ariths)
next
  case False
  define t1 where "t1 = (if terminal_row t \<ge> of_nat VGA_HEIGHT then terminal_scroll t else t)"
  have t1: "term_inv t1" "terminal_row t1 < 25"
    "screen_of t1 = (if VGA_HEIGHT \<le> cur_row (screen_of t) then screen_scroll (screen_of t)
                     else screen_of t)"
    using terminal_scroll_step[OF assms] by (simp_all add: t1_def)
  obtain t2 where t2:
      "terminal_putentryat c (terminal_color t1) (terminal_column t1) (terminal_row t1) t1 = Some t2"
      "length (terminal_buffer t2) = VGA_WIDTH * VGA_HEIGHT"
      "terminal_column t2 = terminal_column t1" "terminal_row t2 = terminal_row t1"
      "screen_of t2 = screen_store c (screen_of t1)"
    using terminal_store_step[OF t1(1,2)] by blast
  have "terminal_column t2 < 80" and "terminal_row t2 < 25"
    using t1 t2 by (simp_all add: term_inv_def)
  note step = terminal_advance_step[OF this t2(2)]
  define t3 where "t3 = t2\<lparr>terminal_column := terminal_column t2 + 1\<rparr>"
  define t4 where "t4 = (if terminal_column t3 = of_nat VGA_WIDTH
     then t3\<lparr>terminal_column := 0, terminal_row := terminal_row t3 + 1\<rparr> else t3)"
  have "terminal_putchar c t = Some t4"
    unfolding terminal_putchar_def Let_def t1_def[symmetric] t2(1) option.case
      t3_def[symmetric] t4_def using False by simp
  moreover have "term_inv t4" and "screen_of t4 = screen_put c (screen_of t)"
    using step False t1(3) t2(5) unfolding t4_def t3_def screen_put_def by simp_all
  ultimately show ?thesis by blast
qed

interpretation vga: console term_inv terminal_putchar terminal_writestring screen_of screen_put
  by unfold_locales (auto simp: terminal_writestring_def terminal_putchar_refines split: option.splits)

text \<open>
  C1. Output safety and functional correctness of the terminal: writing any string on a
  well-formed terminal never stores outside the text page, leaves the terminal well-formed,
  and shows exactly what the abstract screen shows after the same characters.
\<close>

theorem terminal_writestring_refines:
  assumes "term_inv t"
  shows "\<exists>t'. terminal_writestring s t = Some t' \<and> term_inv t'
            \<and> screen_of t' = fold screen_put s (screen_of t)"
  using assms by (rule vga.puts_refines)

definition blank_terminal :: terminal where
  "blank_terminal = \<lparr>terminal_row = 0, terminal_column = 0, terminal_color = 7,
                     terminal_buffer = replicate (VGA_WIDTH * VGA_HEIGHT) 0\<rparr>"

lemma blank_terminal_inv [simp]: "term_inv blank_terminal"
  by (simp add: term_inv_def blank_terminal_def)

theorem terminal_writestring_refines_witness:
  "term_inv blank_terminal \<and>
   (\<exists>t'. terminal_writestring ''Paging enabled'' blank_terminal = Some t' \<and> term_inv t'
       \<and> screen_of t' = fold screen_put ''Paging enabled'' (screen_of blank_terminal))"
  using terminal_writestring_refines[OF blank_terminal_inv] blank_terminal_inv by blast

end
