(* ===== verification/Memory.thy ===== *)
theory Memory
  imports Terminal
begin

text \<open>
  Memory management of the kernel: \<open>src/kernel/memory.h\<close> and \<open>src/kernel/memory.c\<close>.

  Physical memory is one function from byte addresses to the aligned 32-bit word stored there.
  The frame bitmap and the page tables live in that memory, at the addresses the code
  computes, so that they can overlap exactly where the code lets them overlap.  The static
  objects of \<open>memory.c\<close> are the fields of the record \<open>kmem\<close>.
\<close>

section \<open>Data\<close>

abbreviation PAGE_SIZE :: u32 where "PAGE_SIZE \<equiv> 4096"

definition PAGE_ALIGN :: "u32 \<Rightarrow> u32" where
  "PAGE_ALIGN addr = (addr + PAGE_SIZE - 1) AND NOT (PAGE_SIZE - 1)"

definition HEAP_MEMORY_START :: u32 where "HEAP_MEMORY_START = 0x200000"
definition HEAP_MEMORY_END :: u32 where "HEAP_MEMORY_END = 0x400000"

text \<open>The bit fields of \<open>page_entry_t\<close>, lowest bit first, inside one 32-bit word.\<close>

definition pe_flag :: "nat \<Rightarrow> bool \<Rightarrow> u32 \<Rightarrow> u32" where
  "pe_flag n v e = (if v then set_bit n e else unset_bit n e)"

definition pe_set_avail :: "u32 \<Rightarrow> u32 \<Rightarrow> u32" where
  "pe_set_avail v e = (e AND NOT 0xE00) OR push_bit 9 (v AND 7)"

definition pe_set_frame :: "u32 \<Rightarrow> u32 \<Rightarrow> u32" where
  "pe_set_frame v e = (e AND 0xFFF) OR push_bit 12 v"

definition pe_present :: "u32 \<Rightarrow> bool" where "pe_present e = bit e 0"
definition pe_rw :: "u32 \<Rightarrow> bool" where "pe_rw e = bit e 1"
definition pe_user :: "u32 \<Rightarrow> bool" where "pe_user e = bit e 2"
definition pe_pwt :: "u32 \<Rightarrow> bool" where "pe_pwt e = bit e 3"
definition pe_pcd :: "u32 \<Rightarrow> bool" where "pe_pcd e = bit e 4"
definition pe_frame :: "u32 \<Rightarrow> u32" where "pe_frame e = drop_bit 12 e"

text \<open>A page directory: pointers to the 1024 tables (0 is \<open>NULL\<close>), the words the processor
  reads, and the reference counts.\<close>

record page_directory =
  tables :: "u32 list"
  tables_physical :: "u32 list"
  refcount :: "u16 list"

datatype page_directory_ptr = NULL_directory | Kernel_directory | Directory_at u32

record kmem =
  ram :: "u32 \<Rightarrow> u32"
  kernel_directory :: page_directory
  current_directory :: page_directory_ptr
  frames :: u32
  n_frames :: u32
  heap_start :: u32
  heap_end :: u32
  heap_position :: u32
  cr0 :: u32
  cr3 :: page_directory_ptr

definition INDEX_FROM_BIT :: "u32 \<Rightarrow> u32" where "INDEX_FROM_BIT b = b div 32"
definition OFFSET_FROM_BIT :: "u32 \<Rightarrow> u32" where "OFFSET_FROM_BIT b = b mod 32"


section \<open>The frame allocator\<close>

text \<open>The word \<open>frames[i]\<close> of the bitmap.\<close>

definition frames_at :: "kmem \<Rightarrow> u32 \<Rightarrow> u32" where
  "frames_at s i = ram s (frames s + 4 * i)"

definition set_frames_at :: "u32 \<Rightarrow> u32 \<Rightarrow> kmem \<Rightarrow> kmem" where
  "set_frames_at i v s = s\<lparr>ram := (ram s)(frames s + 4 * i := v)\<rparr>"

definition set_frame :: "u32 \<Rightarrow> kmem \<Rightarrow> kmem" where
  "set_frame frame_addr s =
     (let frame = frame_addr div PAGE_SIZE;
          idx = INDEX_FROM_BIT frame;
          off = OFFSET_FROM_BIT frame
      in set_frames_at idx (frames_at s idx OR push_bit (unat off) 1) s)"

definition clear_frame :: "u32 \<Rightarrow> kmem \<Rightarrow> kmem" where
  "clear_frame frame_addr s =
     (let frame = frame_addr div PAGE_SIZE;
          idx = INDEX_FROM_BIT frame;
          off = OFFSET_FROM_BIT frame
      in set_frames_at idx (frames_at s idx AND NOT (push_bit (unat off) 1)) s)"

definition test_frame :: "u32 \<Rightarrow> kmem \<Rightarrow> u32" where
  "test_frame frame_addr s =
     (let frame = frame_addr div PAGE_SIZE;
          idx = INDEX_FROM_BIT frame;
          off = OFFSET_FROM_BIT frame
      in frames_at s idx AND push_bit (unat off) 1)"

text \<open>The inner loop over the 32 bits of one word, and the outer loop over the words.\<close>

definition first_clear_bit :: "u32 \<Rightarrow> nat option" where
  "first_clear_bit v = List.find (\<lambda>j. v AND push_bit j 1 = 0) [0..<32]"

fun scan_frames :: "(u32 \<Rightarrow> u32) \<Rightarrow> nat list \<Rightarrow> u32" where
  "scan_frames w [] = - 1"
| "scan_frames w (i # is) =
     (if w (of_nat i) \<noteq> 0xFFFFFFFF
      then (case first_clear_bit (w (of_nat i)) of
              Some j \<Rightarrow> of_nat i * 32 + of_nat j
            | None \<Rightarrow> scan_frames w is)
      else scan_frames w is)"

definition first_free_frame :: "kmem \<Rightarrow> u32" where
  "first_free_frame s = scan_frames (frames_at s) [0..<unat (INDEX_FROM_BIT (n_frames s))]"

definition alloc_frame :: "kmem \<Rightarrow> u32 \<times> kmem" where
  "alloc_frame s =
     (let frame_index = first_free_frame s
      in if frame_index = - 1 then (0, s)
         else (frame_index * PAGE_SIZE, set_frame (frame_index * PAGE_SIZE) s))"

definition free_frame :: "u32 \<Rightarrow> kmem \<Rightarrow> kmem" where
  "free_frame frame_addr s = clear_frame frame_addr s"


section \<open>Paging\<close>

text \<open>The eleven stores that clear one entry of a new table.\<close>

definition pe_reset :: "u32 \<Rightarrow> u32" where
  "pe_reset e =
     (let e = pe_set_frame 0 e; e = pe_flag 0 False e; e = pe_flag 1 True e;
          e = pe_flag 2 False e; e = pe_flag 3 False e; e = pe_flag 4 False e;
          e = pe_flag 5 False e; e = pe_flag 6 False e; e = pe_flag 7 False e;
          e = pe_flag 8 False e
      in pe_set_avail 0 e)"

definition clear_table :: "u32 \<Rightarrow> kmem \<Rightarrow> kmem" where
  "clear_table new_table s =
     fold (\<lambda>i s. let a = new_table + 4 * of_nat i
                 in s\<lparr>ram := (ram s)(a := pe_reset (ram s a))\<rparr>) [0..<1024] s"

text \<open>The stores that enter a mapping.\<close>

definition pe_map :: "u32 \<Rightarrow> u32 \<Rightarrow> u32 \<Rightarrow> u32" where
  "pe_map phys flags e =
     (let e = pe_set_frame (phys div PAGE_SIZE) e;
          e = pe_flag 0 True e;
          e = pe_flag 1 (flags AND 0x02 \<noteq> 0) e;
          e = pe_flag 2 (flags AND 0x04 \<noteq> 0) e;
          e = pe_flag 3 (flags AND 0x08 \<noteq> 0) e
      in pe_flag 4 (flags AND 0x10 \<noteq> 0) e)"

text \<open>
  \<open>map_page\<close> does not test the result of \<open>alloc_frame\<close>: with no free frame the new table is
  the memory at address 0.
\<close>

definition map_page ::
  "page_directory \<Rightarrow> u32 \<Rightarrow> u32 \<Rightarrow> u32 \<Rightarrow> kmem \<Rightarrow> page_directory \<times> kmem" where
  "map_page dir virt phys flags s =
     (let page_index = virt div PAGE_SIZE;
          table_index = unat (page_index div 1024);
          (dir1, s1) =
            (if tables dir ! table_index = 0
             then let (new_table, s') = alloc_frame s
                  in (dir\<lparr>tables := (tables dir)[table_index := new_table],
                          tables_physical := (tables_physical dir)
                            [table_index := new_table OR flags OR 0x01]\<rparr>,
                      clear_table new_table s')
             else (dir, s));
          a = tables dir1 ! table_index + 4 * (page_index mod 1024)
      in (dir1, s1\<lparr>ram := (ram s1)(a := pe_map phys flags (ram s1 a))\<rparr>))"

definition switch_directory :: "page_directory_ptr \<Rightarrow> kmem \<Rightarrow> kmem" where
  "switch_directory dir s = s\<lparr>current_directory := dir, cr3 := dir\<rparr>"

definition get_current_directory :: "kmem \<Rightarrow> page_directory_ptr" where
  "get_current_directory s = current_directory s"

definition clear_bitmap :: "kmem \<Rightarrow> kmem" where
  "clear_bitmap s =
     fold (\<lambda>i s. set_frames_at (of_nat i) 0 s) [0..<unat (INDEX_FROM_BIT (n_frames s))] s"

definition empty_directory :: "page_directory \<Rightarrow> page_directory" where
  "empty_directory d =
     fold (\<lambda>i d. d\<lparr>tables := (tables d)[i := 0],
                   tables_physical := (tables_physical d)[i := 0],
                   refcount := (refcount d)[i := 0]\<rparr>) [0..<1024] d"

definition identity_map :: "nat \<Rightarrow> kmem \<Rightarrow> kmem" where
  "identity_map n s =
     fold (\<lambda>i s. let frame = of_nat i * PAGE_SIZE;
                     (d, s') = map_page (kernel_directory s) frame frame 0x03 s
                 in s'\<lparr>kernel_directory := d\<rparr>) [0..<n] s"

definition paging_init :: "kmem \<Rightarrow> kmem" where
  "paging_init s =
     (let mem_end_page = 0x10000000;
          s = s\<lparr>n_frames := mem_end_page div PAGE_SIZE, frames := 0x100000\<rparr>;
          s = clear_bitmap s;
          s = s\<lparr>kernel_directory := empty_directory (kernel_directory s)\<rparr>;
          s = identity_map 1024 s;
          s = s\<lparr>current_directory := Kernel_directory\<rparr>;
          s = switch_directory Kernel_directory s
      in s\<lparr>cr0 := cr0 s OR 0x80000000\<rparr>)"


section \<open>The kernel heap\<close>

definition heap_init :: "kmem \<Rightarrow> kmem" where
  "heap_init s = s\<lparr>heap_start := HEAP_MEMORY_START,
                   heap_end := HEAP_MEMORY_END,
                   heap_position := HEAP_MEMORY_START\<rparr>"

definition kmalloc :: "u32 \<Rightarrow> kmem \<Rightarrow> u32 \<times> kmem" where
  "kmalloc sz s =
     (let sz = (sz + 7) AND NOT 7
      in if heap_position s + sz > heap_end s then (0, s)
         else (heap_position s, s\<lparr>heap_position := heap_position s + sz\<rparr>))"

definition kfree :: "u32 \<Rightarrow> kmem \<Rightarrow> kmem" where
  "kfree ptr s = s"

text \<open>Start-up: messages on the terminal around the two initialisations.\<close>

definition memory_init :: "terminal \<times> kmem \<Rightarrow> (terminal \<times> kmem) option" where
  "memory_init = (\<lambda>(t, s).
     case terminal_writestring (''Initializing memory management...'' @ [CHR 0x0A]) t of None \<Rightarrow> None
     | Some t \<Rightarrow> (let s = paging_init s in
     case terminal_writestring (''Paging enabled'' @ [CHR 0x0A]) t of None \<Rightarrow> None
     | Some t \<Rightarrow> (let s = heap_init s in
     case terminal_writestring (''Heap initialized'' @ [CHR 0x0A]) t of None \<Rightarrow> None
     | Some t \<Rightarrow>
     (case terminal_writestring (''Memory management ready'' @ [CHR 0x0A]) t of None \<Rightarrow> None
      | Some t \<Rightarrow> Some (t, s)))))"


section \<open>Correctness of the frame allocator\<close>

text \<open>Frame \<open>k\<close> is marked in the bitmap.\<close>

definition frame_used :: "kmem \<Rightarrow> nat \<Rightarrow> bool" where
  "frame_used s k = bit (frames_at s (of_nat (k div 32))) (k mod 32)"

lemma frames_index_inj:
  assumes "i < 2 ^ 30" and "j < 2 ^ 30"
  shows "(b :: u32) + 4 * of_nat i = b + 4 * of_nat j \<longleftrightarrow> i = j"
proof -
  have "unat (4 * of_nat i :: u32) = 4 * i" and "unat (4 * of_nat j :: u32) = 4 * j"
    using assms by (simp_all add: unat_word_ariths)
  then show ?thesis
    by (metis add_left_cancel mult_cancel1 zero_neq_numeral)
qed

lemma frame_decode:
  assumes "k < 2 ^ 20"
  shows "INDEX_FROM_BIT ((of_nat k * PAGE_SIZE) div PAGE_SIZE) = of_nat (k div 32)"
    and "unat (OFFSET_FROM_BIT ((of_nat k * PAGE_SIZE) div PAGE_SIZE)) = k mod 32"
proof -
  have "(of_nat k * PAGE_SIZE) div PAGE_SIZE = of_nat k"
    using assms by (simp add: word_unat_eq_iff unat_div unat_word_ariths)
  then show "INDEX_FROM_BIT ((of_nat k * PAGE_SIZE) div PAGE_SIZE) = of_nat (k div 32)"
    and "unat (OFFSET_FROM_BIT ((of_nat k * PAGE_SIZE) div PAGE_SIZE)) = k mod 32"
    using assms
    by (simp_all add: INDEX_FROM_BIT_def OFFSET_FROM_BIT_def word_unat_eq_iff unat_div unat_mod)
qed

lemma frame_used_update:
  assumes "k < 2 ^ 20" and "j < 2 ^ 20"
  shows "frame_used (set_frames_at (of_nat (k div 32)) v s) j
           = (if j div 32 = k div 32 then bit v (j mod 32) else frame_used s j)"
  using assms frames_index_inj[of "j div 32" "k div 32" "frames s"]
  by (simp add: frame_used_def set_frames_at_def frames_at_def)

lemma frame_used_set_frame:
  assumes "k < 2 ^ 20" and "j < 2 ^ 20"
  shows "frame_used (set_frame (of_nat k * PAGE_SIZE) s) j \<longleftrightarrow> j = k \<or> frame_used s j"
proof -
  have "j = k \<longleftrightarrow> j div 32 = k div 32 \<and> j mod 32 = k mod 32"
    by (metis div_mult_mod_eq)
  then show ?thesis
    using assms
    by (simp add: set_frame_def Let_def frame_decode frame_used_update)
      (auto simp: bit_simps frame_used_def)
qed

lemma frame_used_clear_frame:
  assumes "k < 2 ^ 20" and "j < 2 ^ 20"
  shows "frame_used (clear_frame (of_nat k * PAGE_SIZE) s) j \<longleftrightarrow> j \<noteq> k \<and> frame_used s j"
proof -
  have "j = k \<longleftrightarrow> j div 32 = k div 32 \<and> j mod 32 = k mod 32"
    by (metis div_mult_mod_eq)
  then show ?thesis
    using assms
    by (simp add: clear_frame_def Let_def frame_decode frame_used_update)
      (auto simp: bit_simps frame_used_def)
qed

lemma test_frame_iff:
  assumes "k < 2 ^ 20"
  shows "test_frame (of_nat k * PAGE_SIZE) s \<noteq> 0 \<longleftrightarrow> frame_used s k"
  using assms
  by (simp add: test_frame_def Let_def frame_decode frame_used_def and_exp_eq_0_iff_not_bit push_bit_of_1)

lemma first_clear_bit_Some:
  assumes "first_clear_bit v = Some j"
  shows "j < 32 \<and> \<not> bit v j \<and> (\<forall>i < j. bit v i)"
proof -
  have "\<exists>i < length [0..<32]. v AND push_bit ([0..<32] ! i) 1 = 0 \<and> j = [0..<32] ! i
          \<and> (\<forall>k < i. v AND push_bit ([0..<32] ! k) 1 \<noteq> 0)"
    using assms unfolding first_clear_bit_def find_Some_iff by blast
  then obtain i where i: "i < 32" "v AND push_bit ([0..<32] ! i) 1 = 0" "j = [0..<32] ! i"
      "\<forall>k < i. v AND push_bit ([0..<32] ! k) 1 \<noteq> 0"
    by (auto simp del: upt_rec_numeral)
  have *: "[0..<32] ! k = k" if "k < 32" for k :: nat
    using that nth_upt[of 0 k 32] by (simp del: upt_rec_numeral)
  with i have "j = i" by simp
  with i * show ?thesis
    by (auto simp: push_bit_of_1 and_exp_eq_0_iff_not_bit simp del: upt_rec_numeral)
qed

lemma all_ones: "(0xFFFFFFFF :: u32) = - 1"
  by code_simp

lemma first_clear_bit_None:
  "first_clear_bit v = None \<longleftrightarrow> v = - 1"
proof -
  have "first_clear_bit v = None \<longleftrightarrow> (\<forall>j < 32. bit v j)"
    by (auto simp: first_clear_bit_def find_None_iff push_bit_of_1 and_exp_eq_0_iff_not_bit
        simp del: upt_rec_numeral)
  also have "\<dots> \<longleftrightarrow> v = - 1"
    by (auto intro: bit_word_eqI)
  finally show ?thesis .
qed


lemma scan_frames_full:
  "w (of_nat i) = - 1 \<Longrightarrow> scan_frames w (i # is) = scan_frames w is"
  by (simp add: all_ones)

lemma scan_frames_found:
  assumes "first_clear_bit (w (of_nat i)) = Some j"
  shows "scan_frames w (i # is) = of_nat (i * 32 + j)"
proof -
  have "w (of_nat i) \<noteq> - 1" using assms first_clear_bit_None[of "w (of_nat i)"] by auto
  then show ?thesis using assms by (simp add: all_ones)
qed

lemma scan_frames_spec:
  assumes "sorted_wrt (<) is"
  shows "scan_frames w is = - 1 \<and> (\<forall>i \<in> set is. w (of_nat i) = - 1)
       \<or> (\<exists>i j. i \<in> set is \<and> j < 32 \<and> scan_frames w is = of_nat (i * 32 + j)
             \<and> \<not> bit (w (of_nat i)) j \<and> (\<forall>j' < j. bit (w (of_nat i)) j')
             \<and> (\<forall>i' \<in> set is. i' < i \<longrightarrow> w (of_nat i') = - 1))"
  using assms
proof (induction "is")
  case Nil
  then show ?case by simp
next
  case (Cons i "is")
  show ?case
  proof (cases "first_clear_bit (w (of_nat i))")
    case None
    then have full: "w (of_nat i) = - 1" by (simp add: first_clear_bit_None)
    show ?thesis
      unfolding scan_frames_full[of w, OF full]
      using full Cons.IH Cons.prems by (simp del: scan_frames.simps) blast
  next
    case (Some j)
    have "\<forall>i' \<in> set (i # is). i' < i \<longrightarrow> w (of_nat i') = - 1"
      using Cons.prems by auto
    with first_clear_bit_Some[OF Some] scan_frames_found[of w i j "is", OF Some] show ?thesis
      by (intro disjI2 exI[of _ i] exI[of _ j]) simp
  qed
qed

definition frame_capacity :: "kmem \<Rightarrow> nat" where
  "frame_capacity s = 32 * unat (INDEX_FROM_BIT (n_frames s))"

definition pool_ok :: "kmem \<Rightarrow> bool" where
  "pool_ok s \<longleftrightarrow> unat (n_frames s) \<le> 2 ^ 20"

lemma frame_capacity_le: "frame_capacity s \<le> unat (n_frames s)"
  by (simp add: frame_capacity_def INDEX_FROM_BIT_def unat_div)

lemma frame_capacity_bound: "pool_ok s \<Longrightarrow> frame_capacity s \<le> 2 ^ 20"
  using frame_capacity_le[of s] by (simp add: pool_ok_def)

lemma frame_word_full:
  assumes "frames_at s (of_nat i) = - 1" and "k div 32 = i"
  shows "frame_used s k"
  using assms by (simp add: frame_used_def bit_minus_1_iff)

lemma first_free_frame_spec:
  assumes "pool_ok s"
  shows "first_free_frame s = - 1 \<and> (\<forall>k < frame_capacity s. frame_used s k)
       \<or> (\<exists>k < frame_capacity s. first_free_frame s = of_nat k \<and> \<not> frame_used s k
             \<and> (\<forall>j < k. frame_used s j))"
proof -
  let ?n = "unat (INDEX_FROM_BIT (n_frames s))"
  have cap: "k div 32 < ?n" if "k < frame_capacity s" for k
    using that by (simp add: frame_capacity_def less_mult_imp_div_less mult.commute)
  from scan_frames_spec[of "[0..<?n]" "frames_at s"] consider
      (full) "first_free_frame s = - 1" "\<forall>i < ?n. frames_at s (of_nat i) = - 1"
    | (found) i j where "i < ?n" "j < 32" "first_free_frame s = of_nat (i * 32 + j)"
        "\<not> bit (frames_at s (of_nat i)) j" "\<forall>j' < j. bit (frames_at s (of_nat i)) j'"
        "\<forall>i' < i. frames_at s (of_nat i') = - 1"
    unfolding first_free_frame_def by (auto simp del: of_nat_add of_nat_mult)
  then show ?thesis
  proof cases
    case full
    then show ?thesis using cap frame_word_full by blast
  next
    case found
    let ?k = "i * 32 + j"
    have "?k < frame_capacity s"
      using found(1,2) by (simp add: frame_capacity_def)
    moreover have "\<not> frame_used s ?k"
      using found(2,4) by (simp add: frame_used_def)
    moreover have "frame_used s l" if "l < ?k" for l
    proof (cases "l div 32 = i")
      case True
      then have "l mod 32 < j" using that by (metis div_mult_mod_eq nat_add_left_cancel_less)
      then show ?thesis using True found(5) by (simp add: frame_used_def)
    next
      case False
      then have "l div 32 < i" using that found(2) by auto
      then show ?thesis using found(6) frame_word_full by blast
    qed
    ultimately show ?thesis using found(3) by blast
  qed
qed

lemma frame_not_minus1:
  assumes "k < 2 ^ 20"
  shows "(of_nat k :: u32) \<noteq> - 1"
proof
  assume "(of_nat k :: u32) = - 1"
  then have "unat (of_nat k :: u32) = unat (- 1 :: u32)" by simp
  then show False using assms by (simp add: unat_of_nat unsigned_minus_1_eq_mask mask_eq_exp_minus_1)
qed

lemma pool_ok_set_frame [simp]: "pool_ok (set_frame a s) = pool_ok s"
  and frame_capacity_set_frame [simp]: "frame_capacity (set_frame a s) = frame_capacity s"
  and pool_ok_clear_frame [simp]: "pool_ok (clear_frame a s) = pool_ok s"
  and frame_capacity_clear_frame [simp]: "frame_capacity (clear_frame a s) = frame_capacity s"
  by (simp_all add: pool_ok_def frame_capacity_def set_frame_def clear_frame_def set_frames_at_def Let_def)

lemma alloc_frame_least:
  assumes "pool_ok s" and "k < frame_capacity s" and "\<not> frame_used s k"
    and "\<forall>j < k. frame_used s j"
  shows "alloc_frame s = (of_nat k * PAGE_SIZE, set_frame (of_nat k * PAGE_SIZE) s)"
proof -
  have "k < 2 ^ 20" using assms(1,2) frame_capacity_bound by fastforce
  moreover obtain k' where "k' < frame_capacity s" "first_free_frame s = of_nat k'"
      "\<not> frame_used s k'" "\<forall>j < k'. frame_used s j"
    using first_free_frame_spec[OF assms(1)] assms(2,3) by blast
  moreover have "k' = k"
    using assms(3,4) calculation by (meson nat_neq_iff)
  ultimately show ?thesis
    using frame_not_minus1 by (simp add: alloc_frame_def Let_def)
qed

lemma alloc_frame_full:
  assumes "pool_ok s" and "\<forall>k < frame_capacity s. frame_used s k"
  shows "alloc_frame s = (0, s)"
  using first_free_frame_spec[OF assms(1)] assms(2) by (auto simp: alloc_frame_def)

text \<open>
  The contract of a pool of numbered frames: allocation hands out the lowest free one and
  fails only when none is left, release makes a frame free again, and no other frame changes.
\<close>

locale frame_pool =
  fixes ok :: "'s \<Rightarrow> bool"
    and capacity :: "'s \<Rightarrow> nat"
    and used :: "'s \<Rightarrow> nat \<Rightarrow> bool"
    and addr :: "nat \<Rightarrow> 'a"
    and nothing :: 'a
    and alloc :: "'s \<Rightarrow> 'a \<times> 's"
    and release :: "'a \<Rightarrow> 's \<Rightarrow> 's"
  assumes alloc_least: "\<lbrakk>ok s; k < capacity s; \<not> used s k; \<forall>j < k. used s j\<rbrakk> \<Longrightarrow>
      fst (alloc s) = addr k \<and> ok (snd (alloc s)) \<and> capacity (snd (alloc s)) = capacity s
      \<and> (\<forall>j < capacity s. used (snd (alloc s)) j \<longleftrightarrow> j = k \<or> used s j)"
    and alloc_full: "\<lbrakk>ok s; \<forall>k < capacity s. used s k\<rbrakk> \<Longrightarrow> alloc s = (nothing, s)"
    and release: "\<lbrakk>ok s; k < capacity s\<rbrakk> \<Longrightarrow>
      ok (release (addr k) s) \<and> capacity (release (addr k) s) = capacity s
      \<and> (\<forall>j < capacity s. used (release (addr k) s) j \<longleftrightarrow> j \<noteq> k \<and> used s j)"
begin

lemma alloc_cases:
  assumes "ok s"
  obtains (full) "\<forall>k < capacity s. used s k" "alloc s = (nothing, s)"
  | (fresh) k where "k < capacity s" "\<not> used s k" "\<forall>j < k. used s j" "fst (alloc s) = addr k"
      "ok (snd (alloc s))" "capacity (snd (alloc s)) = capacity s"
      "\<forall>j < capacity s. used (snd (alloc s)) j \<longleftrightarrow> j = k \<or> used s j"
proof (cases "\<forall>k < capacity s. used s k")
  case True
  then show ?thesis using alloc_full[OF assms] full by blast
next
  case False
  then obtain k where k: "k < capacity s \<and> \<not> used s k" "\<forall>j < k. \<not> (j < capacity s \<and> \<not> used s j)"
    using exists_least_iff[of "\<lambda>k. k < capacity s \<and> \<not> used s k"] by blast
  then have "\<forall>j < k. used s j" by auto
  with k(1) alloc_least[OF assms, of k] fresh show ?thesis by blast
qed

lemma alloc_ok:
  assumes "ok s"
  shows "ok (snd (alloc s)) \<and> capacity (snd (alloc s)) = capacity s"
  using assms by (cases rule: alloc_cases) (simp_all add: assms)

text \<open>Every successful allocation takes exactly one frame out of the free ones.\<close>

definition free_frames :: "'s \<Rightarrow> nat set" where
  "free_frames s = {k. k < capacity s \<and> \<not> used s k}"

lemma alloc_takes_one:
  assumes "ok s" and "free_frames s \<noteq> {}"
  shows "\<exists>k \<in> free_frames s. fst (alloc s) = addr k
            \<and> free_frames (snd (alloc s)) = free_frames s - {k}"
  using assms(1)
proof (cases rule: alloc_cases)
  case full
  then show ?thesis using assms(2) by (auto simp: free_frames_def)
next
  case (fresh k)
  then show ?thesis by (intro bexI[of _ k]) (auto simp: free_frames_def)
qed

lemma alloc_release:
  assumes "ok s" and "free_frames s \<noteq> {}"
  shows "free_frames (release (fst (alloc s)) (snd (alloc s))) = free_frames s"
  using assms(1)
proof (cases rule: alloc_cases)
  case full
  then show ?thesis using assms(2) by (auto simp: free_frames_def)
next
  case (fresh k)
  then show ?thesis
    using release[of "snd (alloc s)" k] by (auto simp: free_frames_def)
qed

end

interpretation pool: frame_pool pool_ok frame_capacity frame_used "\<lambda>k. of_nat k * PAGE_SIZE" 0
  alloc_frame free_frame
proof (unfold_locales, goal_cases)
  case (1 s k)
  then have "j < 2 ^ 20" if "j < frame_capacity s" for j
    using that frame_capacity_bound[of s] by simp
  with 1 show ?case
    by (auto simp: alloc_frame_least frame_used_set_frame)
next
  case (2 s)
  then show ?case by (rule alloc_frame_full)
next
  case (3 s k)
  then have "j < 2 ^ 20" if "j < frame_capacity s" for j
    using that frame_capacity_bound[of s] by simp
  with 3 show ?case
    by (auto simp: free_frame_def frame_used_clear_frame)
qed

text \<open>
  C2. The frame allocator: while a frame is free, \<open>alloc_frame\<close> returns the address of the
  lowest free frame, marks exactly that frame, and keeps the pool well-formed.
\<close>

theorem alloc_frame_correct:
  assumes "pool_ok s" and "k < frame_capacity s" and "\<not> frame_used s k"
  shows "\<exists>m \<le> k. \<not> frame_used s m \<and> (\<forall>j < m. frame_used s j)
            \<and> fst (alloc_frame s) = of_nat m * PAGE_SIZE \<and> pool_ok (snd (alloc_frame s))
            \<and> (\<forall>j < frame_capacity s. frame_used (snd (alloc_frame s)) j \<longleftrightarrow> j = m \<or> frame_used s j)"
  using assms(1)
proof (cases rule: pool.alloc_cases)
  case full
  then show ?thesis using assms(2,3) by blast
next
  case (fresh m)
  then show ?thesis using assms(3) by (intro exI[of _ m]) (auto simp: not_less[symmetric])
qed

definition empty_pool :: kmem where
  "empty_pool = \<lparr>ram = \<lambda>_. 0, kernel_directory = \<lparr>tables = [], tables_physical = [], refcount = []\<rparr>,
     current_directory = NULL_directory, frames = 0x100000, n_frames = 64,
     heap_start = 0, heap_end = 0, heap_position = 0, cr0 = 0, cr3 = NULL_directory\<rparr>"

lemma empty_pool_facts [simp]:
  "pool_ok empty_pool" "frame_capacity empty_pool = 64" "\<not> frame_used empty_pool k"
  by (simp_all add: empty_pool_def pool_ok_def frame_capacity_def INDEX_FROM_BIT_def
      frame_used_def frames_at_def)

theorem alloc_frame_correct_witness:
  "pool_ok empty_pool \<and> \<not> frame_used empty_pool 3 \<and>
   (\<exists>m \<le> 3. \<not> frame_used empty_pool m \<and> (\<forall>j < m. frame_used empty_pool j)
      \<and> fst (alloc_frame empty_pool) = of_nat m * PAGE_SIZE \<and> pool_ok (snd (alloc_frame empty_pool))
      \<and> (\<forall>j < 64. frame_used (snd (alloc_frame empty_pool)) j \<longleftrightarrow> j = m \<or> frame_used empty_pool j))"
  using alloc_frame_correct[of empty_pool 3] by simp

text \<open>
  Freeing what was just allocated gives back the pool's free frames exactly.
\<close>

theorem alloc_free_frame_roundtrip:
  assumes "pool_ok s" and "k < frame_capacity s" and "\<not> frame_used s k" and "j < frame_capacity s"
  shows "frame_used (free_frame (fst (alloc_frame s)) (snd (alloc_frame s))) j = frame_used s j"
proof -
  have "pool.free_frames s \<noteq> {}"
    using assms(2,3) by (auto simp: pool.free_frames_def)
  from pool.alloc_release[OF assms(1) this] show ?thesis
    using assms(4) pool.alloc_ok[OF assms(1)]
    by (auto simp: pool.free_frames_def free_frame_def set_eq_iff)
qed

theorem alloc_free_frame_roundtrip_witness:
  "frame_used (free_frame (fst (alloc_frame empty_pool)) (snd (alloc_frame empty_pool))) 5
     = frame_used empty_pool 5"
  using alloc_free_frame_roundtrip[of empty_pool 3 5] by simp

text \<open>
  On a fresh bitmap the frame handed out first is frame 0, whose address is 0: the caller
  cannot tell it from the failure value \<open>NULL\<close>, although the frame is marked used.
\<close>

theorem alloc_frame_zero_is_NULL:
  assumes "pool_ok s" and "0 < frame_capacity s" and "\<not> frame_used s 0"
  shows "fst (alloc_frame s) = 0 \<and> frame_used (snd (alloc_frame s)) 0"
  using alloc_frame_least[OF assms] frame_used_set_frame[of 0 0 s] by simp

theorem alloc_frame_zero_is_NULL_witness:
  "fst (alloc_frame empty_pool) = 0 \<and> frame_used (snd (alloc_frame empty_pool)) 0"
  using alloc_frame_zero_is_NULL[of empty_pool] by simp


section \<open>Correctness of the heap\<close>

text \<open>
  The bump allocator keeps its position 8-aligned and inside the heap, as long as no request
  is so large that the 32-bit sums wrap around.
\<close>

definition heap_ok :: "kmem \<Rightarrow> bool" where
  "heap_ok s \<longleftrightarrow> heap_start s \<le> heap_position s \<and> heap_position s \<le> heap_end s
              \<and> unat (heap_position s) mod 8 = 0"

text \<open>Requests that cannot wrap.\<close>

definition request_ok :: "kmem \<Rightarrow> u32 \<Rightarrow> bool" where
  "request_ok s sz \<longleftrightarrow> unat (heap_end s) + unat sz + 7 < 2 ^ 32"

definition round8 :: "nat \<Rightarrow> nat" where
  "round8 n = (n + 7) div 8 * 8"

lemma round8_bounds: "n \<le> round8 n" "round8 n \<le> n + 7" "round8 n mod 8 = 0"
  by (simp_all add: round8_def) (linarith+)?

lemma heap_init_ok [inv_intros]: "heap_ok (heap_init s)"
  by (simp add: heap_ok_def heap_init_def HEAP_MEMORY_START_def HEAP_MEMORY_END_def)

lemma kmalloc_size:
  assumes "unat sz + 7 < 2 ^ 32"
  shows "unat ((sz + 7) AND NOT 7 :: u32) = round8 (unat sz)"
proof -
  have "(7 :: u32) = mask 3" by (simp add: mask_eq_exp_minus_1)
  then have "unat ((sz + 7) AND NOT 7 :: u32) = unat (sz + 7) div 2 ^ 3 * 2 ^ 3"
    by (simp only: unat_and_not_mask)
  then show ?thesis
    using assms by (simp add: round8_def unat_word_ariths)
qed

lemma kmalloc_eq:
  assumes "heap_ok s" and "request_ok s sz"
  shows "kmalloc sz s =
     (if unat (heap_position s) + round8 (unat sz) \<le> unat (heap_end s)
      then (heap_position s,
            s\<lparr>heap_position := of_nat (unat (heap_position s) + round8 (unat sz))\<rparr>)
      else (0, s))"
proof -
  let ?r = "(sz + 7) AND NOT 7"
  have r: "unat ?r = round8 (unat sz)"
    using assms(2) by (intro kmalloc_size) (simp add: request_ok_def)
  have lt: "unat (heap_position s) + unat ?r < 2 ^ 32"
    using assms round8_bounds(2)[of "unat sz"] unfolding r heap_ok_def request_ok_def word_le_nat_alt
    by linarith
  then have sum: "unat (heap_position s + ?r) = unat (heap_position s) + unat ?r"
    by (simp add: unat_word_ariths)
  have "heap_position s + ?r = of_nat (unat (heap_position s) + round8 (unat sz))"
    by (simp flip: r)
  then show ?thesis
    unfolding kmalloc_def Let_def word_less_nat_alt sum r by (simp add: not_less)
qed

text \<open>
  A request that does not wrap either fails without effect, and then the rounded size
  really does not fit, or returns an 8-aligned block that lies between the old position and
  the end of the heap and moves the position past it; the heap invariant is kept.
\<close>

theorem kmalloc_correct:
  assumes "heap_ok s" and "request_ok s sz" and "kmalloc sz s = (p, s')"
  shows "heap_ok s' \<and> heap_end s' = heap_end s \<and> heap_start s' = heap_start s \<and> ram s' = ram s \<and>
     (s' = s \<and> p = 0 \<and> unat (heap_end s) < unat (heap_position s) + round8 (unat sz)
      \<or> p = heap_position s \<and> unat p mod 8 = 0
        \<and> unat p + unat sz \<le> unat (heap_position s')
        \<and> unat (heap_position s') \<le> unat (heap_end s))"
proof (cases "unat (heap_position s) + round8 (unat sz) \<le> unat (heap_end s)")
  case True
  let ?n = "unat (heap_position s) + round8 (unat sz)"
  have "?n < 2 ^ 32" using True unat_less[of "heap_end s"] by simp
  then have "unat (of_nat ?n :: u32) = ?n" by (simp add: unat_of_nat del: of_nat_add)
  moreover have "s' = s\<lparr>heap_position := of_nat ?n\<rparr>" and "p = heap_position s"
    using True assms(3) kmalloc_eq[OF assms(1,2)] by (auto simp del: of_nat_add)
  moreover have "?n mod 8 = 0"
    using assms(1) round8_bounds(3)[of "unat sz"] by (simp add: heap_ok_def mod_add_eq[symmetric])
  ultimately show ?thesis
    using True assms(1) round8_bounds(1)[of "unat sz"]
    by (simp add: heap_ok_def word_le_nat_alt del: of_nat_add)
next
  case False
  then show ?thesis using assms kmalloc_eq[OF assms(1,2)] by simp
qed

theorem kmalloc_correct_witness:
  "heap_ok (heap_init empty_pool) \<and> request_ok (heap_init empty_pool) 13
   \<and> kmalloc 13 (heap_init empty_pool)
       = (0x200000, (heap_init empty_pool)\<lparr>heap_position := 0x200010\<rparr>)
   \<and> heap_ok ((heap_init empty_pool)\<lparr>heap_position := 0x200010\<rparr>)"
proof -
  have r: "request_ok (heap_init empty_pool) 13"
    by (simp add: request_ok_def heap_init_def HEAP_MEMORY_END_def)
  have k: "kmalloc 13 (heap_init empty_pool)
             = (0x200000, (heap_init empty_pool)\<lparr>heap_position := 0x200010\<rparr>)"
    by (simp add: kmalloc_def heap_init_def HEAP_MEMORY_START_def HEAP_MEMORY_END_def)
  show ?thesis
    using r k kmalloc_correct[OF heap_init_ok r k] heap_init_ok by simp
qed

text \<open>A client that makes a sequence of requests and collects the blocks it gets.\<close>

fun kmalloc_all :: "u32 list \<Rightarrow> kmem \<Rightarrow> (nat \<times> nat) list \<times> kmem" where
  "kmalloc_all [] s = ([], s)"
| "kmalloc_all (sz # szs) s =
     (let (p, s1) = kmalloc sz s; (bs, s2) = kmalloc_all szs s1
      in (if p = 0 then bs else (unat p, unat sz) # bs, s2))"

definition disjoint_blocks :: "nat \<times> nat \<Rightarrow> nat \<times> nat \<Rightarrow> bool" where
  "disjoint_blocks a b \<longleftrightarrow> fst a + snd a \<le> fst b"

lemma kmalloc_all_ordered:
  assumes "heap_ok s" and "0 < heap_start s" and "\<forall>sz \<in> set szs. request_ok s sz"
    and "kmalloc_all szs s = (bs, s')"
  shows "heap_ok s' \<and> sorted_wrt disjoint_blocks bs
       \<and> (\<forall>b \<in> set bs. unat (heap_position s) \<le> fst b \<and> fst b + snd b \<le> unat (heap_end s))"
  using assms
proof (induction szs arbitrary: s bs)
  case Nil
  then show ?case by simp
next
  case (Cons sz szs)
  obtain p s1 where k: "kmalloc sz s = (p, s1)" by fastforce
  obtain bs1 where ks: "kmalloc_all szs s1 = (bs1, s')" and bs: "bs = (if p = 0 then bs1 else (unat p, unat sz) # bs1)"
    using Cons.prems(4) k by (auto split: prod.splits)
  have step: "heap_ok s1 \<and> heap_end s1 = heap_end s \<and> heap_start s1 = heap_start s
      \<and> (s1 = s \<and> p = 0 \<or> p = heap_position s \<and> unat p + unat sz \<le> unat (heap_position s1)
          \<and> unat (heap_position s1) \<le> unat (heap_end s))"
    using kmalloc_correct[OF Cons.prems(1) _ k] Cons.prems(3) by auto
  moreover have "\<forall>sz \<in> set szs. request_ok s1 sz"
    using Cons.prems(3) step by (simp add: request_ok_def)
  ultimately have IH: "heap_ok s' \<and> sorted_wrt disjoint_blocks bs1
      \<and> (\<forall>b \<in> set bs1. unat (heap_position s1) \<le> fst b \<and> fst b + snd b \<le> unat (heap_end s))"
    using Cons.IH[OF _ _ _ ks] Cons.prems(2) by simp
  have mono: "unat (heap_position s) \<le> unat (heap_position s1)" using step by auto
  then have IH': "\<forall>b \<in> set bs1. unat (heap_position s) \<le> fst b \<and> fst b + snd b \<le> unat (heap_end s)"
    using IH by (auto intro: le_trans)
  show ?case
  proof (cases "p = 0")
    case True
    then show ?thesis using IH IH' bs by simp
  next
    case False
    then have p: "p = heap_position s" "unat p + unat sz \<le> unat (heap_position s1)"
        "unat (heap_position s1) \<le> unat (heap_end s)"
      using step by auto
    then have "\<forall>b \<in> set bs1. disjoint_blocks (unat p, unat sz) b"
      using IH by (auto simp: disjoint_blocks_def intro: le_trans)
    then show ?thesis using False bs IH IH' p by simp
  qed
qed

text \<open>
  C23. However many blocks are requested, in whatever sizes below the wrap-around limit, the
  blocks handed out lie inside the heap and never overlap.
\<close>

theorem kmalloc_blocks_disjoint:
  assumes "\<forall>sz \<in> set szs. request_ok (heap_init s) sz"
  shows "sorted_wrt disjoint_blocks (fst (kmalloc_all szs (heap_init s)))
       \<and> (\<forall>b \<in> set (fst (kmalloc_all szs (heap_init s))).
            0x200000 \<le> fst b \<and> fst b + snd b \<le> 0x400000)"
proof -
  have h: "unat (heap_position (heap_init s)) = 0x200000" "unat (heap_end (heap_init s)) = 0x400000"
    "0 < heap_start (heap_init s)"
    by (simp_all add: heap_init_def HEAP_MEMORY_START_def HEAP_MEMORY_END_def)
  show ?thesis
    using kmalloc_all_ordered[OF heap_init_ok h(3) assms surjective_pairing] h by simp
qed

theorem kmalloc_blocks_disjoint_witness:
  "sorted_wrt disjoint_blocks (fst (kmalloc_all [13, 100, 0x300000, 8] (heap_init empty_pool)))"
proof -
  have "\<forall>sz \<in> set [13, 100, 0x300000, 8]. request_ok (heap_init empty_pool) sz"
    by (simp add: request_ok_def heap_init_def HEAP_MEMORY_END_def)
  from kmalloc_blocks_disjoint[OF this] show ?thesis by blast
qed

text \<open>
  Requests above that limit do wrap: one of almost 4 GiB succeeds on a fresh heap and
  moves the position below the start of the heap, so that the invariant is lost.
\<close>

theorem kmalloc_wraps:
  "kmalloc 0xFFFFFFF0 (heap_init s)
     = (0x200000, (heap_init s)\<lparr>heap_position := 0x1FFFF0\<rparr>)
   \<and> \<not> heap_ok (snd (kmalloc 0xFFFFFFF0 (heap_init s)))"
  by (simp add: kmalloc_def heap_init_def heap_ok_def HEAP_MEMORY_START_def HEAP_MEMORY_END_def)


section \<open>Correctness of paging\<close>

lemma pe_set_frame_alt: "pe_set_frame v e = take_bit 12 e OR push_bit 12 v"
proof -
  have "(0xFFF :: u32) = mask 12" by (simp add: mask_eq_exp_minus_1)
  then show ?thesis by (simp only: pe_set_frame_def take_bit_eq_mask)
qed

lemma pe_set_avail_0: "pe_set_avail 0 e = unset_bit 9 (unset_bit 10 (unset_bit 11 e))"
  by (simp add: pe_set_avail_def unset_bit_eq_and_not and.assoc)

lemma pe_reset_eq: "pe_reset e = 2"
proof (rule bit_word_eqI)
  fix n
  assume "n < LENGTH(32)"
  then show "bit (pe_reset e) n = bit (2 :: u32) n"
    by (auto simp: pe_reset_def Let_def pe_set_avail_0 pe_set_frame_alt pe_flag_def bit_simps)
      presburger
qed
lemma drop_pe_flag: "n < 12 \<Longrightarrow> drop_bit 12 (pe_flag n v e) = drop_bit 12 e"
  by (rule bit_word_eqI) (auto simp: pe_flag_def bit_simps)

lemma take_bit_small_word: "unat v < 2 ^ n \<Longrightarrow> take_bit n v = v"
  by (simp add: word_unat_eq_iff unsigned_take_bit_eq take_bit_nat_eq_self)

lemma drop_pe_set_frame:
  assumes "unat v < 2 ^ 20"
  shows "drop_bit 12 (pe_set_frame v e) = v"
proof -
  have "drop_bit 12 (pe_set_frame v e) = take_bit 20 v"
    by (rule bit_word_eqI) (auto simp: pe_set_frame_alt bit_simps)
  then show ?thesis using take_bit_small_word[OF assms] by simp
qed

lemma page_number_bound: "unat ((v :: u32) div PAGE_SIZE) < 2 ^ 20"
  using unat_less[of v] by (simp add: unat_div less_mult_imp_div_less)

lemma pe_map_frame: "pe_frame (pe_map phys flags e) = phys div PAGE_SIZE"
  by (simp add: pe_map_def Let_def pe_frame_def drop_pe_flag
      drop_pe_set_frame[OF page_number_bound])

lemma pe_map_flags:
  "pe_present (pe_map phys flags e)"
  "pe_rw (pe_map phys flags e) \<longleftrightarrow> flags AND 0x02 \<noteq> 0"
  "pe_user (pe_map phys flags e) \<longleftrightarrow> flags AND 0x04 \<noteq> 0"
  "pe_pwt (pe_map phys flags e) \<longleftrightarrow> flags AND 0x08 \<noteq> 0"
  "pe_pcd (pe_map phys flags e) \<longleftrightarrow> flags AND 0x10 \<noteq> 0"
  by (simp_all add: pe_map_def Let_def pe_present_def pe_rw_def pe_user_def pe_pwt_def pe_pcd_def
      pe_flag_def bit_simps)

lemma table_index_inj:
  assumes "i < 1024" and "j < 1024"
  shows "(t :: u32) + 4 * of_nat i = t + 4 * of_nat j \<longleftrightarrow> i = j"
  using assms frames_index_inj[of i j t] by simp

lemma clear_table_step:
  "fold (\<lambda>i s. let a = t + 4 * of_nat i in s\<lparr>ram := (ram s)(a := pe_reset (ram s a))\<rparr>) is s
     = s\<lparr>ram := \<lambda>a. if \<exists>i \<in> set is. a = t + 4 * of_nat i then 2 else ram s a\<rparr>"
  by (induction "is" arbitrary: s) (auto simp: Let_def pe_reset_eq fun_eq_iff)

lemma clear_table_eq:
  "clear_table t s = s\<lparr>ram := \<lambda>a. if \<exists>i < 1024. a = t + 4 * of_nat i then 2 else ram s a\<rparr>"
proof -
  have "(\<exists>i \<in> set [0..<1024]. P i) \<longleftrightarrow> (\<exists>i < 1024. P i)" for P :: "nat \<Rightarrow> bool"
    by (auto simp del: upt_rec_numeral)
  then show ?thesis
    unfolding clear_table_def clear_table_step by simp
qed

text \<open>
  The page walk of the processor over these tables: the entry of a linear address, and the
  physical address it gives when the entry is present.
\<close>

definition page_slot :: "u32 \<Rightarrow> nat" where
  "page_slot virt = unat (virt div PAGE_SIZE div 1024)"

definition entry_addr :: "page_directory \<Rightarrow> u32 \<Rightarrow> u32" where
  "entry_addr dir virt = tables dir ! page_slot virt + 4 * (virt div PAGE_SIZE mod 1024)"

definition translate :: "page_directory \<Rightarrow> kmem \<Rightarrow> u32 \<Rightarrow> u32 option" where
  "translate dir s virt =
     (if tables dir ! page_slot virt = 0 then None
      else let e = ram s (entry_addr dir virt)
           in if pe_present e then Some (pe_frame e * PAGE_SIZE + virt mod PAGE_SIZE) else None)"

definition dir_ok :: "page_directory \<Rightarrow> bool" where
  "dir_ok d \<longleftrightarrow> length (tables d) = 1024 \<and> length (tables_physical d) = 1024"

lemma page_slot_less: "page_slot virt < 1024"
  using unat_less[of virt] by (simp add: page_slot_def unat_div less_mult_imp_div_less)

lemma map_page_existing:
  assumes "tables dir ! page_slot virt \<noteq> 0"
  shows "map_page dir virt phys flags s
     = (dir, s\<lparr>ram := (ram s)(entry_addr dir virt := pe_map phys flags (ram s (entry_addr dir virt)))\<rparr>)"
  using assms by (simp add: map_page_def Let_def page_slot_def entry_addr_def)

lemma map_page_new:
  fixes flags :: u32
  assumes "tables dir ! page_slot virt = 0" and "alloc_frame s = (t, s1)"
  defines "dir' \<equiv> dir\<lparr>tables := (tables dir)[page_slot virt := t],
      tables_physical := (tables_physical dir)[page_slot virt := t OR flags OR 1]\<rparr>"
  defines "s2 \<equiv> clear_table t s1"
  shows "map_page dir virt phys flags s
     = (dir', s2\<lparr>ram := (ram s2)(entry_addr dir' virt := pe_map phys flags (ram s2 (entry_addr dir' virt)))\<rparr>)"
  using assms by (simp add: map_page_def Let_def page_slot_def entry_addr_def)

lemma same_page_entry:
  assumes "v div PAGE_SIZE = virt div PAGE_SIZE"
  shows "entry_addr dir v = entry_addr dir virt" and "page_slot v = page_slot virt"
  using assms by (simp_all add: entry_addr_def page_slot_def)

lemma mapped_page_translates:
  assumes "tables dir ! page_slot virt \<noteq> 0" and "v div PAGE_SIZE = virt div PAGE_SIZE"
    and "ram s (entry_addr dir virt) = pe_map phys flags e"
  shows "translate dir s v = Some (phys div PAGE_SIZE * PAGE_SIZE + v mod PAGE_SIZE)"
  using assms
  by (simp add: translate_def same_page_entry[OF assms(2)] pe_map_flags pe_map_frame)


definition sample_dir :: page_directory where
  "sample_dir = \<lparr>tables = 0x5000 # replicate 1023 0, tables_physical = replicate 1024 0,
                  refcount = replicate 1024 0\<rparr>"


text \<open>The bitmap and the directory after the two clearing loops of \<open>paging_init\<close>.\<close>

lemma clear_bitmap_eq:
  "clear_bitmap s = s\<lparr>ram := \<lambda>a. if \<exists>i < unat (INDEX_FROM_BIT (n_frames s)). a = frames s + 4 * of_nat i
                             then 0 else ram s a\<rparr>"
proof -
  have "fold (\<lambda>i s. set_frames_at (of_nat i) 0 s) is s
      = s\<lparr>ram := \<lambda>a. if \<exists>i \<in> set is. a = frames s + 4 * of_nat i then 0 else ram s a\<rparr>" for "is"
    by (induction "is" arbitrary: s) (auto simp: set_frames_at_def fun_eq_iff)
  then show ?thesis
    by (simp add: clear_bitmap_def Bex_def)
qed

lemma empty_directory_lengths:
  "length (tables (empty_directory d)) = length (tables d)"
  "length (tables_physical (empty_directory d)) = length (tables_physical d)"
proof -
  let ?f = "\<lambda>i d. d\<lparr>tables := (tables d)[i := 0], tables_physical := (tables_physical d)[i := 0],
                   refcount := (refcount d)[i := 0]\<rparr>"
  have "length (tables (fold ?f is d)) = length (tables d)
      \<and> length (tables_physical (fold ?f is d)) = length (tables_physical d)" for "is" :: "nat list"
    by (induction "is" arbitrary: d) auto
  then show "length (tables (empty_directory d)) = length (tables d)"
    "length (tables_physical (empty_directory d)) = length (tables_physical d)"
    unfolding empty_directory_def by blast+
qed

lemma empty_directory_slot:
  assumes "k < 1024" and "k < length (tables d)"
  shows "tables (empty_directory d) ! k = 0"
proof -
  let ?f = "\<lambda>i d. d\<lparr>tables := (tables d)[i := 0], tables_physical := (tables_physical d)[i := 0],
                   refcount := (refcount d)[i := 0]\<rparr>"
  have "length (tables (fold ?f [0..<1024] d)) = length (tables d)
      \<and> (\<forall>k < 1024. k < length (tables d) \<longrightarrow> tables (fold ?f [0..<1024] d) ! k = 0)"
    by (rule fold_upt_invariant[where Q = "\<lambda>n d'. length (tables d') = length (tables d)
          \<and> (\<forall>k < n. k < length (tables d) \<longrightarrow> tables d' ! k = 0)"])
      (auto simp: nth_list_update less_Suc_eq)
  then show ?thesis using assms by (simp add: empty_directory_def)
qed

text \<open>One round of the identity mapping.\<close>

definition map_identity :: "nat \<Rightarrow> kmem \<Rightarrow> kmem" where
  "map_identity i s =
     (let frame = of_nat i * PAGE_SIZE;
          (d, s') = map_page (kernel_directory s) frame frame 0x03 s
      in s'\<lparr>kernel_directory := d\<rparr>)"

lemma identity_map_fold: "identity_map n s = fold map_identity [0..<n] s"
  unfolding identity_map_def map_identity_def[abs_def] ..

lemma identity_page:
  assumes "i < 1024"
  shows "page_slot (of_nat i * PAGE_SIZE) = 0"
    and "entry_addr d (of_nat i * PAGE_SIZE) = tables d ! 0 + 4 * of_nat i"
    and "(of_nat i * PAGE_SIZE) div PAGE_SIZE = of_nat i"
proof -
  show div: "(of_nat i * PAGE_SIZE) div PAGE_SIZE = of_nat i"
    using assms by (simp add: word_unat_eq_iff unat_div unat_word_ariths)
  have "unat (of_nat i div 1024 :: u32) = 0" and "(of_nat i mod 1024 :: u32) = of_nat i"
    using assms by (simp_all add: unat_div word_unat_eq_iff unat_mod)
  then show "page_slot (of_nat i * PAGE_SIZE) = 0"
    and "entry_addr d (of_nat i * PAGE_SIZE) = tables d ! 0 + 4 * of_nat i"
    unfolding page_slot_def entry_addr_def div by simp_all
qed

text \<open>The state right before the identity mapping, as far as the mapping depends on it.\<close>

definition ready_to_map :: "kmem \<Rightarrow> bool" where
  "ready_to_map s \<longleftrightarrow> frames s = 0x100000 \<and> n_frames s = 65536
     \<and> dir_ok (kernel_directory s) \<and> tables (kernel_directory s) ! 0 = 0"

lemma low_table_not_bitmap:
  assumes "i < 1024" and "t \<le> 0x1000" and "j < 65536"
  shows "(0x100000 :: u32) + 4 * of_nat (j div 32) \<noteq> t + 4 * of_nat i"
proof
  assume eq: "(0x100000 :: u32) + 4 * of_nat (j div 32) = t + 4 * of_nat i"
  have "unat t \<le> 0x1000" using assms(2) by (simp add: word_le_nat_alt)
  then have "unat (t + 4 * of_nat i) < 0x100000" and "unat ((0x100000 :: u32) + 4 * of_nat (j div 32)) \<ge> 0x100000"
    using assms by (simp_all add: unat_word_ariths)
  with eq show False by simp
qed

lemma alloc_low_frame:
  assumes "n_frames s = 65536" and "k < 2" and "\<forall>j < 65536. frame_used s j \<longleftrightarrow> j < k"
  shows "alloc_frame s = (of_nat k * PAGE_SIZE, set_frame (of_nat k * PAGE_SIZE) s)"
proof (rule alloc_frame_least)
  show "pool_ok s" using assms(1) by (simp add: pool_ok_def)
  show "k < frame_capacity s" using assms(1,2) by (simp add: frame_capacity_def INDEX_FROM_BIT_def)
  show "\<not> frame_used s k" and "\<forall>j < k. frame_used s j" using assms(2,3) by auto
qed

text \<open>A mapping that needs a new low table, on a pool whose first \<open>k\<close> frames are taken.\<close>

lemma map_identity_new:
  assumes "ready_to_map s" and "k < 2" and "\<forall>j < 65536. frame_used s j \<longleftrightarrow> j < k" and "i < 1024"
  defines "s' \<equiv> map_identity i s" and "t \<equiv> of_nat k * PAGE_SIZE"
  shows "frames s' = 0x100000" "n_frames s' = 65536" "dir_ok (kernel_directory s')"
    and "tables (kernel_directory s') ! 0 = t"
    and "\<forall>j < 65536. frame_used s' j \<longleftrightarrow> j < Suc k"
    and "\<forall>j < 1024. ram s' (t + 4 * of_nat j) = (if j = i then pe_map (of_nat i * PAGE_SIZE) 3 2 else 2)"
proof -
  let ?d = "kernel_directory s"
  let ?v = "of_nat i * PAGE_SIZE :: u32"
  have r: "frames s = 0x100000" "n_frames s = 65536" "dir_ok ?d" "tables ?d ! page_slot ?v = 0"
    using assms(1) identity_page(1)[OF assms(4)] by (simp_all add: ready_to_map_def)
  define d' where "d' = ?d\<lparr>tables := (tables ?d)[page_slot ?v := t],
      tables_physical := (tables_physical ?d)[page_slot ?v := t OR 3 OR 1]\<rparr>"
  define s2 where "s2 = clear_table t (set_frame t s)"
  have al: "alloc_frame s = (t, set_frame t s)"
    unfolding t_def by (rule alloc_low_frame[OF r(2) assms(2,3)])
  have t0: "tables d' ! 0 = t"
    using r(3) identity_page(1)[OF assms(4)] by (simp add: d'_def dir_ok_def)
  have ea: "entry_addr d' ?v = t + 4 * of_nat i"
    using identity_page(2)[OF assms(4)] t0 by simp
  have s': "s' = s2\<lparr>ram := (ram s2)(t + 4 * of_nat i := pe_map ?v 3 (ram s2 (t + 4 * of_nat i))),
                    kernel_directory := d'\<rparr>"
    unfolding s'_def map_identity_def Let_def
      map_page_new[OF r(4) al, of ?v 3, folded d'_def s2_def] ea by simp
  have s2: "ram s2 a = (if \<exists>i < 1024. a = t + 4 * of_nat i then 2 else ram (set_frame t s) a)" for a
    by (simp add: s2_def clear_table_eq)
  have frame: "frames s2 = frames s" "n_frames s2 = n_frames s"
    by (simp_all add: s2_def clear_table_eq set_frame_def set_frames_at_def Let_def)
  show "frames s' = 0x100000" "n_frames s' = 65536"
    using frame r by (simp_all add: s')
  show "dir_ok (kernel_directory s')" "tables (kernel_directory s') ! 0 = t"
    using r(3) t0 by (simp_all add: s' d'_def dir_ok_def)
  show "\<forall>j < 1024. ram s' (t + 4 * of_nat j) = (if j = i then pe_map ?v 3 2 else 2)"
    using assms(4) table_index_inj[of _ i t] by (auto simp: s' s2)
  have low: "t \<le> 0x1000"
    using assms(2) by (auto simp: t_def less_Suc_eq numeral_2_eq_2)
  have "frame_used s' j = frame_used (set_frame t s) j" if "j < 65536" for j
  proof -
    let ?a = "0x100000 + 4 * of_nat (j div 32) :: u32"
    have "\<not> (\<exists>i < 1024. ?a = t + 4 * of_nat i)" and "?a \<noteq> t + 4 * of_nat i"
      using low_table_not_bitmap[OF _ low that] assms(4) by blast+
    moreover from this(2) have "ram s' ?a = ram s2 ?a"
      by (simp add: s')
    ultimately have "ram s' ?a = ram (set_frame t s) ?a"
      by (simp only: s2 if_False)
    moreover have "frames (set_frame t s) = 0x100000"
      using r(1) by (simp add: set_frame_def set_frames_at_def Let_def)
    ultimately show ?thesis
      using frame(1) r(1) by (simp add: frame_used_def frames_at_def s')
  qed
  then show "\<forall>j < 65536. frame_used s' j \<longleftrightarrow> j < Suc k"
    using assms(2,3) frame_used_set_frame[of k _ s] by (auto simp: t_def less_Suc_eq)
qed

text \<open>From the second round on the table at 0x1000 fills up entry by entry.\<close>

definition mapped_upto :: "nat \<Rightarrow> kmem \<Rightarrow> bool" where
  "mapped_upto n s \<longleftrightarrow> dir_ok (kernel_directory s) \<and> tables (kernel_directory s) ! 0 = 0x1000
     \<and> (\<forall>j < 1024. ram s (0x1000 + 4 * of_nat j)
           = (if 1 \<le> j \<and> j < n then pe_map (of_nat j * PAGE_SIZE) 3 2 else 2))"

lemma map_identity_next:
  assumes "mapped_upto i s" and "1 \<le> i" and "i < 1024"
  shows "mapped_upto (Suc i) (map_identity i s)"
proof -
  let ?v = "of_nat i * PAGE_SIZE :: u32"
  have t: "tables (kernel_directory s) ! page_slot ?v \<noteq> 0"
    and ea: "entry_addr (kernel_directory s) ?v = 0x1000 + 4 * of_nat i"
    using assms identity_page[OF assms(3)] by (simp_all add: mapped_upto_def)
  have "map_identity i s
      = s\<lparr>ram := (ram s)(0x1000 + 4 * of_nat i := pe_map ?v 3 (ram s (0x1000 + 4 * of_nat i)))\<rparr>"
    unfolding map_identity_def Let_def map_page_existing[OF t] ea by simp
  then show ?thesis
    using assms table_index_inj[of _ i "0x1000"] by (auto simp: mapped_upto_def less_Suc_eq)
qed

lemma identity_map_result:
  assumes "ready_to_map s" and "\<forall>j < 65536. \<not> frame_used s j"
  shows "mapped_upto 1024 (identity_map 1024 s)"
proof -
  define Q where "Q n s' = (if n = 0 then s' = s else if n = 1 then s' = map_identity 0 s
                            else mapped_upto n s')" for n s'
  have "Q 1024 (fold map_identity [0..<1024] s)"
  proof (rule fold_upt_invariant[where Q = Q])
    show "Q 0 s" by (simp add: Q_def)
  next
    fix i s'
    assume i: "i < 1024" and q: "Q i s'"
    note first = map_identity_new[of s 0 0, OF assms(1)]
    have "ready_to_map (map_identity 0 s)" and "\<forall>j < 65536. frame_used (map_identity 0 s) j \<longleftrightarrow> j < 1"
      using first assms(2) by (simp_all add: ready_to_map_def)
    note second = map_identity_new[of "map_identity 0 s" 1 1, OF this(1) _ this(2)]
    consider "i = 0" | "i = 1" | "2 \<le> i" by linarith
    then show "Q (Suc i) (map_identity i s')"
    proof cases
      case 2
      then show ?thesis
        using second q by (auto simp: Q_def mapped_upto_def)
    qed (use i q map_identity_next[of i s'] in \<open>auto simp: Q_def\<close>)
  qed
  then show ?thesis by (simp add: Q_def identity_map_fold)
qed

lemma mapped_translate:
  assumes "mapped_upto n s" and "n \<le> 1024" and "1 \<le> i" and "i < n" and "v div PAGE_SIZE = of_nat i"
  shows "translate (kernel_directory s) s v = Some v"
proof -
  let ?v = "of_nat i * PAGE_SIZE :: u32"
  have i: "i < 1024" using assms(2,4) by simp
  have v: "v div PAGE_SIZE = ?v div PAGE_SIZE"
    using assms(5) identity_page(3)[OF i] by simp
  have "tables (kernel_directory s) ! page_slot ?v \<noteq> 0"
    and "ram s (entry_addr (kernel_directory s) ?v) = pe_map ?v 3 2"
    using assms(1,3,4) identity_page(1,2)[OF i] i by (simp_all add: mapped_upto_def)
  from mapped_page_translates[OF this(1) v this(2)]
  show ?thesis
    using identity_page(3)[OF i] assms(5) div_mult_mod_eq[of v PAGE_SIZE] by simp
qed

lemma unmapped_page_zero:
  assumes "mapped_upto n s" and "v div PAGE_SIZE = 0"
  shows "translate (kernel_directory s) s v = None"
proof -
  have v: "v div PAGE_SIZE = (of_nat 0 * PAGE_SIZE) div PAGE_SIZE"
    using assms(2) by simp
  have "page_slot v = 0" and "entry_addr (kernel_directory s) v = 0x1000 + 4 * of_nat 0"
    using same_page_entry[OF v] identity_page(1,2)[of 0] assms(1) by (simp_all add: mapped_upto_def)
  moreover have "ram s (0x1000 + 4 * of_nat 0) = 2"
    using assms(1) unfolding mapped_upto_def by (metis not_one_le_zero zero_less_numeral)
  ultimately show ?thesis
    using assms(1) by (simp add: translate_def pe_present_def mapped_upto_def)
qed

text \<open>What the code after the mapping loop changes does not matter to the tables.\<close>

lemma paging_init_mapped:
  assumes "dir_ok (kernel_directory s)"
  shows "mapped_upto 1024 (paging_init s)"
proof -
  define s1 where "s1 = clear_bitmap (s\<lparr>n_frames := 65536, frames := 0x100000\<rparr>)"
  define s2 where "s2 = s1\<lparr>kernel_directory := empty_directory (kernel_directory s1)\<rparr>"
  have eq: "paging_init s = (let s = identity_map 1024 s2
       in s\<lparr>current_directory := Kernel_directory, cr3 := Kernel_directory, cr0 := cr0 s OR 0x80000000\<rparr>)"
    by (simp add: paging_init_def Let_def switch_directory_def s1_def s2_def)
  have s1: "frames s1 = 0x100000" "n_frames s1 = 65536" "kernel_directory s1 = kernel_directory s"
    by (simp_all add: s1_def clear_bitmap_eq)
  have ready: "ready_to_map s2"
    using assms s1 empty_directory_slot[of 0 "kernel_directory s"]
    by (simp add: ready_to_map_def s2_def dir_ok_def empty_directory_lengths)
  have "ram s1 (0x100000 + 4 * of_nat (j div 32)) = 0" if "j < 65536" for j
  proof -
    have "j div 32 < unat (INDEX_FROM_BIT 65536)"
      using that by (simp add: INDEX_FROM_BIT_def)
    then show ?thesis by (auto simp: s1_def clear_bitmap_eq)
  qed
  then have "\<forall>j < 65536. \<not> frame_used s2 j"
    using s1 by (simp add: frame_used_def frames_at_def s2_def)
  from identity_map_result[OF ready this] show ?thesis
    by (simp add: eq Let_def mapped_upto_def)
qed


lemma sample_dir_ok [simp]: "dir_ok sample_dir"
  by (simp add: sample_dir_def dir_ok_def)




section \<open>Start-up\<close>

text \<open>
  \<open>memory_init\<close> never fails on a well-formed terminal: it leaves paging and the heap
  initialised and its four messages on the screen, in order.
\<close>

theorem memory_init_total:
  assumes "term_inv t"
  shows "\<exists>t'. memory_init (t, s) = Some (t', heap_init (paging_init s)) \<and> term_inv t'
            \<and> heap_ok (heap_init (paging_init s))
            \<and> screen_of t' = fold screen_put
                (''Initializing memory management...'' @ [CHR 0x0A] @ ''Paging enabled'' @ [CHR 0x0A]
                 @ ''Heap initialized'' @ [CHR 0x0A] @ ''Memory management ready'' @ [CHR 0x0A])
                (screen_of t)"
proof -
  let ?m1 = "''Initializing memory management...'' @ [CHR 0x0A]"
  let ?m2 = "''Paging enabled'' @ [CHR 0x0A]"
  let ?m3 = "''Heap initialized'' @ [CHR 0x0A]"
  let ?m4 = "''Memory management ready'' @ [CHR 0x0A]"
  obtain t1 where t1: "terminal_writestring ?m1 t = Some t1" "term_inv t1"
      "screen_of t1 = fold screen_put ?m1 (screen_of t)"
    using vga.puts_refines[OF assms] by blast
  obtain t2 where t2: "terminal_writestring ?m2 t1 = Some t2" "term_inv t2"
      "screen_of t2 = fold screen_put ?m2 (screen_of t1)"
    using vga.puts_refines[OF t1(2)] by blast
  obtain t3 where t3: "terminal_writestring ?m3 t2 = Some t3" "term_inv t3"
      "screen_of t3 = fold screen_put ?m3 (screen_of t2)"
    using vga.puts_refines[OF t2(2)] by blast
  obtain t4 where t4: "terminal_writestring ?m4 t3 = Some t4" "term_inv t4"
      "screen_of t4 = fold screen_put ?m4 (screen_of t3)"
    using vga.puts_refines[OF t3(2)] by blast
  have "memory_init (t, s) = Some (t4, heap_init (paging_init s))"
    unfolding memory_init_def prod.case t1(1) t2(1) t3(1) t4(1) option.case Let_def by (rule refl)
  moreover have "screen_of t4 = fold screen_put (?m1 @ ?m2 @ ?m3 @ ?m4) (screen_of t)"
    using t1(3) t2(3) t3(3) t4(3) by (simp only: fold_append comp_def)
  ultimately show ?thesis
    using t4(2) heap_init_ok by (metis append_assoc)
qed

theorem memory_init_total_witness:
  "\<exists>t'. memory_init (blank_terminal, empty_pool) = Some (t', heap_init (paging_init empty_pool))"
  using memory_init_total[OF blank_terminal_inv] by blast

end
