(* ===== verification/Interrupts.thy ===== *)
theory Interrupts
  imports Terminal
begin

text \<open>
  Interrupt handling of the kernel: \<open>src/kernel/interrupts.h\<close> and \<open>src/kernel/interrupts.c\<close>,
  together with the machine state that interrupt handlers share (terminal, keyboard state,
  interrupt tables, I/O ports).

  A function pointer is the 32-bit address of the function, 0 is \<open>NULL\<close>; the parameter \<open>code\<close> of
  \<open>interrupt_handler\<close> says what the function at an address does.  The addresses of the assembly
  stubs are the parameters \<open>isr\<close> and \<open>irq\<close>, as the linker fixes them.  Writes to I/O ports are
  recorded in order; \<open>port_in\<close> is what the devices present for reading.
\<close>

section \<open>Data\<close>

record idt_entry =
  offset_low :: u16
  selector :: u16
  zero_byte :: u8
  type_attr :: u8
  offset_high :: u16

record idt_ptr_t =
  idt_limit :: u16
  idt_base :: u32

record keyboard_state_t =
  shift_pressed :: u8
  ctrl_pressed :: u8
  alt_pressed :: u8
  caps_lock :: u8

record kstate =
  screen_term :: terminal
  idt :: "idt_entry list"
  idt_ptr :: idt_ptr_t
  idtr :: idt_ptr_t
  interrupt_handlers :: "u32 list"
  keyboard_state :: keyboard_state_t
  port_in :: "u16 \<Rightarrow> u8"
  port_out :: "(u16 \<times> u8) list"
  interrupts_on :: bool

text \<open>
  How a call of the dispatcher ends: it returns, it stays in the final \<open>hlt\<close> loop, or it reads
  outside one of the arrays (or prints outside the text page), where C gives no guarantee.
\<close>

datatype outcome = Returns kstate | Halted kstate | OutOfBounds

definition exception_messages :: "string list" where
  "exception_messages =
     [''Division by Zero'',
      ''Debug'',
      ''Non-Maskable Interrupt'',
      ''Breakpoint'',
      ''Overflow'',
      ''Bound Range Exceeded'',
      ''Invalid Opcode'',
      ''Device Not Available'',
      ''Double Fault'',
      ''Coprocessor Segment Overrun'',
      ''Invalid TSS'',
      ''Segment Not Present'',
      ''Stack-Segment Fault'',
      ''General Protection Fault'',
      ''Page Fault'',
      ''Reserved'',
      ''x87 FPU Error'',
      ''Alignment Check'',
      ''Machine Check'',
      ''SIMD Floating-Point Exception'']"

definition IRQ_KEYBOARD :: u8 where "IRQ_KEYBOARD = 1"


section \<open>Ports and messages\<close>

definition outb :: "u16 \<Rightarrow> u8 \<Rightarrow> kstate \<Rightarrow> kstate" where
  "outb port value s = s\<lparr>port_out := port_out s @ [(port, value)]\<rparr>"

definition inb :: "u16 \<Rightarrow> kstate \<Rightarrow> u8" where
  "inb port s = port_in s port"

definition enable_interrupts :: "kstate \<Rightarrow> kstate" where
  "enable_interrupts s = s\<lparr>interrupts_on := True\<rparr>"

definition disable_interrupts :: "kstate \<Rightarrow> kstate" where
  "disable_interrupts s = s\<lparr>interrupts_on := False\<rparr>"

text \<open>Terminal output as an operation on the whole state.\<close>

definition kputs :: "string \<Rightarrow> kstate \<Rightarrow> kstate option" where
  "kputs m s = map_option (\<lambda>t. s\<lparr>screen_term := t\<rparr>) (terminal_writestring m (screen_term s))"

definition kputchar :: "char \<Rightarrow> kstate \<Rightarrow> kstate option" where
  "kputchar c s = map_option (\<lambda>t. s\<lparr>screen_term := t\<rparr>) (terminal_putchar c (screen_term s))"


section \<open>Tables\<close>

definition idt_set_gate :: "u8 \<Rightarrow> u32 \<Rightarrow> u16 \<Rightarrow> u8 \<Rightarrow> kstate \<Rightarrow> kstate" where
  "idt_set_gate num base sel flags s =
     s\<lparr>idt := (idt s)[unat num :=
         \<lparr>offset_low = ucast (base AND 0xFFFF),
          selector = sel,
          zero_byte = 0,
          type_attr = flags,
          offset_high = ucast (drop_bit 16 base AND 0xFFFF)\<rparr>]\<rparr>"

definition register_interrupt_handler :: "u8 \<Rightarrow> u32 \<Rightarrow> kstate \<Rightarrow> kstate" where
  "register_interrupt_handler interrupt handler s =
     s\<lparr>interrupt_handlers := (interrupt_handlers s)[unat interrupt := handler]\<rparr>"

definition irq_install_handler :: "u8 \<Rightarrow> u32 \<Rightarrow> kstate \<Rightarrow> kstate" where
  "irq_install_handler irq handler s = register_interrupt_handler (irq + 32) handler s"

definition irq_remove_handler :: "u8 \<Rightarrow> kstate \<Rightarrow> kstate" where
  "irq_remove_handler irq s = register_interrupt_handler (irq + 32) 0 s"

definition pic_remap :: "kstate \<Rightarrow> kstate" where
  "pic_remap s =
     fold (\<lambda>(port, value) s. outb port value s)
       [(0x20, 0x11), (0xA0, 0x11), (0x21, 0x20), (0xA1, 0x28), (0x21, 0x04),
        (0xA1, 0x02), (0x21, 0x01), (0xA1, 0x01), (0x21, 0x00), (0xA1, 0x00)] s"

definition pic_send_eoi :: "u8 \<Rightarrow> kstate \<Rightarrow> kstate" where
  "pic_send_eoi irq s =
     (let s = (if irq \<ge> 8 then outb 0xA0 0x20 s else s) in outb 0x20 0x20 s)"


section \<open>Dispatch\<close>

definition interrupt_handler ::
  "(u32 \<Rightarrow> kstate \<Rightarrow> kstate option) \<Rightarrow> u32 \<Rightarrow> u32 \<Rightarrow> kstate \<Rightarrow> outcome" where
  "interrupt_handler code interrupt_number error_code s =
     (if unat interrupt_number \<ge> length (interrupt_handlers s) then OutOfBounds
      else if interrupt_handlers s ! unat interrupt_number \<noteq> 0
      then (case code (interrupt_handlers s ! unat interrupt_number) s of
              Some s' \<Rightarrow> Returns s' | None \<Rightarrow> OutOfBounds)
      else if interrupt_number < 32
      then (let s = s\<lparr>screen_term := terminal_setcolor (vga_color_code VGA_COLOR_LIGHT_RED)
                                         (screen_term s)\<rparr>
            in case kputs ''EXCEPTION: '' s of None \<Rightarrow> OutOfBounds
            | Some s \<Rightarrow>
                if unat interrupt_number \<ge> length exception_messages then OutOfBounds
                else (case kputs (exception_messages ! unat interrupt_number) s of None \<Rightarrow> OutOfBounds
                | Some s \<Rightarrow>
                    (case kputs ([CHR 0x0A] @ ''System halted.'') s of None \<Rightarrow> OutOfBounds
                     | Some s \<Rightarrow> Halted (disable_interrupts s))))
      else Returns (pic_send_eoi (ucast (interrupt_number - 32)) s))"

definition interrupts_init ::
  "(nat \<Rightarrow> u32) \<Rightarrow> (nat \<Rightarrow> u32) \<Rightarrow> u32 \<Rightarrow> kstate \<Rightarrow> kstate option" where
  "interrupts_init isr irq idt_address s =
     (case kputs (''Initializing interrupts...'' @ [CHR 0x0A]) s of None \<Rightarrow> None
      | Some s \<Rightarrow>
        let s = fold (\<lambda>i s. idt_set_gate (of_nat i) 0 0 0
                  (s\<lparr>interrupt_handlers := (interrupt_handlers s)[i := 0]\<rparr>)) [0..<256] s;
            s = fold (\<lambda>i s. idt_set_gate (of_nat i) (isr i) 0x08 0x8E s) [0..<20] s;
            s = pic_remap s;
            s = fold (\<lambda>i s. idt_set_gate (of_nat (32 + i)) (irq i) 0x08 0x8E s) [0..<16] s;
            s = s\<lparr>idt_ptr := \<lparr>idt_limit = 8 * 256 - 1, idt_base = idt_address\<rparr>\<rparr>;
            s = s\<lparr>idtr := idt_ptr s\<rparr>
        in kputs (''Interrupt system ready'' @ [CHR 0x0A]) s)"


section \<open>Well-formed machine states\<close>

definition kstate_ok :: "kstate \<Rightarrow> bool" where
  "kstate_ok s \<longleftrightarrow> term_inv (screen_term s) \<and> length (idt s) = 256 \<and> length (interrupt_handlers s) = 256"

lemma outb_ok [inv_intros]: "kstate_ok s \<Longrightarrow> kstate_ok (outb p v s)"
  by (simp add: kstate_ok_def outb_def)

lemma idt_set_gate_ok [inv_intros]: "kstate_ok s \<Longrightarrow> kstate_ok (idt_set_gate n b sel f s)"
  by (simp add: kstate_ok_def idt_set_gate_def)

lemma register_interrupt_handler_ok [inv_intros]:
  "kstate_ok s \<Longrightarrow> kstate_ok (register_interrupt_handler i h s)"
  by (simp add: kstate_ok_def register_interrupt_handler_def)

lemma kputs_total:
  assumes "kstate_ok s"
  shows "\<exists>t. kputs m s = Some (s\<lparr>screen_term := t\<rparr>) \<and> term_inv t
           \<and> screen_of t = fold screen_put m (screen_of (screen_term s))"
  using assms vga.puts_refines[of "screen_term s" m] by (auto simp: kstate_ok_def kputs_def)

lemma kputchar_total:
  assumes "kstate_ok s"
  shows "\<exists>t. kputchar c s = Some (s\<lparr>screen_term := t\<rparr>) \<and> term_inv t
           \<and> screen_of t = screen_put c (screen_of (screen_term s))"
  using assms terminal_putchar_refines[of "screen_term s" c] by (auto simp: kstate_ok_def kputchar_def)

lemma kstate_ok_term [simp]:
  "term_inv t \<Longrightarrow> kstate_ok (s\<lparr>screen_term := t\<rparr>) \<longleftrightarrow> length (idt s) = 256 \<and> length (interrupt_handlers s) = 256"
  by (simp add: kstate_ok_def)


section \<open>Gates\<close>

text \<open>The address a gate leads to, as the processor puts it together.\<close>

definition gate_offset :: "idt_entry \<Rightarrow> u32" where
  "gate_offset g = push_bit 16 (ucast (offset_high g)) OR ucast (offset_low g)"

lemma split_word: "push_bit 16 (ucast (ucast (drop_bit 16 b AND 0xFFFF) :: u16)) OR
    ucast (ucast (b AND 0xFFFF) :: u16) = (b :: u32)"
proof -
  have m: "(0xFFFF :: u32) = mask 16" by (simp add: mask_eq_exp_minus_1)
  show ?thesis
    unfolding m take_bit_eq_mask[symmetric]
    by (rule bit_word_eqI) (auto simp: bit_simps)
qed

lemma idt_set_gate_nth:
  assumes "length (idt s) = 256"
  shows "idt (idt_set_gate num b sel f s) ! k =
     (if k = unat num then \<lparr>offset_low = ucast (b AND 0xFFFF), selector = sel, zero_byte = 0,
        type_attr = f, offset_high = ucast (drop_bit 16 b AND 0xFFFF)\<rparr> else idt s ! k)"
proof -
  have "unat num < 256" using unat_less[of num] by simp
  then show ?thesis using assms by (auto simp: idt_set_gate_def)
qed

text \<open>
  Setting a gate and reading it back gives the handler address, selector and flags that
  were stored, and no other gate changes.
\<close>

theorem idt_set_gate_roundtrip:
  assumes "length (idt s) = 256"
  shows "gate_offset (idt (idt_set_gate num b sel f s) ! unat num) = b
       \<and> selector (idt (idt_set_gate num b sel f s) ! unat num) = sel
       \<and> type_attr (idt (idt_set_gate num b sel f s) ! unat num) = f
       \<and> (\<forall>k. k \<noteq> unat num \<longrightarrow> idt (idt_set_gate num b sel f s) ! k = idt s ! k)"
  using assms by (simp add: idt_set_gate_nth gate_offset_def split_word)

definition boot_kstate :: kstate where
  "boot_kstate = \<lparr>screen_term = blank_terminal,
     idt = replicate 256 \<lparr>offset_low = 0, selector = 0, zero_byte = 0, type_attr = 0, offset_high = 0\<rparr>,
     idt_ptr = \<lparr>idt_limit = 0, idt_base = 0\<rparr>, idtr = \<lparr>idt_limit = 0, idt_base = 0\<rparr>,
     interrupt_handlers = replicate 256 0,
     keyboard_state = \<lparr>shift_pressed = 0, ctrl_pressed = 0, alt_pressed = 0, caps_lock = 0\<rparr>,
     port_in = \<lambda>_. 0, port_out = [], interrupts_on = True\<rparr>"

lemma boot_kstate_ok [simp]: "kstate_ok boot_kstate"
  by (simp add: kstate_ok_def boot_kstate_def)

theorem idt_set_gate_roundtrip_witness:
  "gate_offset (idt (idt_set_gate 33 0xC0101234 8 0x8E boot_kstate) ! 33) = 0xC0101234"
  using idt_set_gate_roundtrip[of boot_kstate 33 "0xC0101234" 8 "0x8E"] by (simp add: boot_kstate_def)

lemma fold_gates_nth:
  assumes "length (idt s) = 256" and "b + n \<le> 256"
  shows "length (idt (fold (\<lambda>i s. idt_set_gate (of_nat (b + i)) (h i) sel f s) [0..<n] s)) = 256
       \<and> interrupt_handlers (fold (\<lambda>i s. idt_set_gate (of_nat (b + i)) (h i) sel f s) [0..<n] s)
           = interrupt_handlers s
       \<and> (\<forall>k < 256. idt (fold (\<lambda>i s. idt_set_gate (of_nat (b + i)) (h i) sel f s) [0..<n] s) ! k =
            (if b \<le> k \<and> k < b + n then \<lparr>offset_low = ucast (h (k - b) AND 0xFFFF), selector = sel,
               zero_byte = 0, type_attr = f, offset_high = ucast (drop_bit 16 (h (k - b)) AND 0xFFFF)\<rparr>
             else idt s ! k))"
  using assms
proof (induction n)
  case 0
  then show ?case by auto
next
  case (Suc n)
  define s' where "s' = fold (\<lambda>i s. idt_set_gate (of_nat (b + i)) (h i) sel f s) [0..<n] s"
  have IH: "length (idt s') = 256" "interrupt_handlers s' = interrupt_handlers s"
      "\<forall>k < 256. idt s' ! k = (if b \<le> k \<and> k < b + n then \<lparr>offset_low = ucast (h (k - b) AND 0xFFFF),
         selector = sel, zero_byte = 0, type_attr = f,
         offset_high = ucast (drop_bit 16 (h (k - b)) AND 0xFFFF)\<rparr> else idt s ! k)"
    using Suc unfolding s'_def by simp_all
  have "unat (of_nat (b + n) :: u8) = b + n"
    using Suc.prems by (simp del: of_nat_add)
  moreover have "k < b + Suc n \<longleftrightarrow> k < b + n \<or> k = b + n" for k by auto
  ultimately show ?case
    unfolding fold_upt_Suc s'_def[symmetric] using IH
    by (simp add: idt_set_gate_nth del: of_nat_add) (simp add: idt_set_gate_def)
qed

lemma clear_idt_loop:
  assumes "kstate_ok s"
  defines "s' \<equiv> fold (\<lambda>i s. idt_set_gate (of_nat i) 0 0 0
                  (s\<lparr>interrupt_handlers := (interrupt_handlers s)[i := 0]\<rparr>)) [0..<256] s"
  shows "kstate_ok s' \<and> port_out s' = port_out s \<and> (\<forall>k < 256. interrupt_handlers s' ! k = 0)
       \<and> (\<forall>k < 256. idt s' ! k = \<lparr>offset_low = 0, selector = 0, zero_byte = 0, type_attr = 0, offset_high = 0\<rparr>)"
  unfolding s'_def
proof (rule fold_upt_invariant[where Q = "\<lambda>n s'. kstate_ok s' \<and> port_out s' = port_out s
     \<and> (\<forall>k < n. interrupt_handlers s' ! k = 0)
     \<and> (\<forall>k < n. idt s' ! k = \<lparr>offset_low = 0, selector = 0, zero_byte = 0, type_attr = 0, offset_high = 0\<rparr>)"],
     goal_cases)
  case 1
  then show ?case using assms by simp
next
  case (2 i s1)
  then have "unat (of_nat i :: u8) = i" by simp
  with 2 show ?case
    by (auto simp: less_Suc_eq idt_set_gate_def kstate_ok_def)
qed

lemma pic_remap_eq: "pic_remap s = s\<lparr>port_out := port_out s @
    [(0x20, 0x11), (0xA0, 0x11), (0x21, 0x20), (0xA1, 0x28), (0x21, 0x04),
     (0xA1, 0x02), (0x21, 0x01), (0xA1, 0x01), (0x21, 0x00), (0xA1, 0x00)]\<rparr>"
  by (simp add: pic_remap_def outb_def)

lemma fold_gates_port_out:
  "port_out (fold (\<lambda>i s. idt_set_gate (g i) (h i) sel f s) is s) = port_out s"
  by (induction "is" arbitrary: s) (simp_all add: idt_set_gate_def)

lemma fold_gates_term:
  "screen_term (fold (\<lambda>i s. idt_set_gate (g i) (h i) sel f s) is s) = screen_term s"
  by (induction "is" arbitrary: s) (simp_all add: idt_set_gate_def)

lemma interrupts_init_total:
  assumes "kstate_ok s"
  shows "\<exists>s'. interrupts_init isr irq a s = Some s' \<and> kstate_ok s'
     \<and> (\<forall>i < 20. gate_offset (idt s' ! i) = isr i \<and> selector (idt s' ! i) = 0x08
                  \<and> type_attr (idt s' ! i) = 0x8E)
     \<and> (\<forall>i < 16. gate_offset (idt s' ! (32 + i)) = irq i \<and> selector (idt s' ! (32 + i)) = 0x08
                  \<and> type_attr (idt s' ! (32 + i)) = 0x8E)
     \<and> (\<forall>k < 256. (20 \<le> k \<and> k < 32 \<or> 48 \<le> k) \<longrightarrow> type_attr (idt s' ! k) = 0)
     \<and> (\<forall>k < 256. interrupt_handlers s' ! k = 0)
     \<and> port_out s' = port_out (pic_remap s)
     \<and> idtr s' = \<lparr>idt_limit = 2047, idt_base = a\<rparr>"
proof -
  obtain t where t: "kputs (''Initializing interrupts...'' @ [CHR 0x0A]) s = Some (s\<lparr>screen_term := t\<rparr>)"
      "term_inv t"
    using kputs_total[OF assms] by blast
  define s1 where "s1 = fold (\<lambda>i s. idt_set_gate (of_nat i) 0 0 0
      (s\<lparr>interrupt_handlers := (interrupt_handlers s)[i := 0]\<rparr>)) [0..<256] (s\<lparr>screen_term := t\<rparr>)"
  define s2 where "s2 = fold (\<lambda>i s. idt_set_gate (of_nat (0 + i)) (isr i) 0x08 0x8E s) [0..<20] s1"
  define s3 where "s3 = pic_remap s2"
  define s4 where "s4 = fold (\<lambda>i s. idt_set_gate (of_nat (32 + i)) (irq i) 0x08 0x8E s) [0..<16] s3"
  define s5 where "s5 = s4\<lparr>idt_ptr := \<lparr>idt_limit = 8 * 256 - 1, idt_base = a\<rparr>,
                            idtr := \<lparr>idt_limit = 8 * 256 - 1, idt_base = a\<rparr>\<rparr>"
  have init: "interrupts_init isr irq a s = kputs (''Interrupt system ready'' @ [CHR 0x0A]) s5"
    unfolding interrupts_init_def t(1) option.case Let_def s1_def[symmetric] s5_def s4_def s3_def s2_def
    by (simp del: upt_rec_numeral fold_upt_Suc)
  have "kstate_ok (s\<lparr>screen_term := t\<rparr>)" using t(2) assms by (simp add: kstate_ok_def)
  note s1 = clear_idt_loop[OF this, folded s1_def]
  have len1: "length (idt s1) = 256" using s1 by (simp add: kstate_ok_def)
  note s2 = fold_gates_nth[OF len1, of 0 20 isr 8 "0x8E", folded s2_def]
  have s3: "idt s3 = idt s2" "interrupt_handlers s3 = interrupt_handlers s2"
    by (simp_all add: s3_def pic_remap_eq)
  have len3: "length (idt s3) = 256" using s2 s3 by simp
  note s4 = fold_gates_nth[OF len3, of 32 16 irq 8 "0x8E", folded s4_def]
  have trm: "screen_term s4 = screen_term s1" and port: "port_out s4 = port_out (pic_remap s)"
    using s1 unfolding s4_def s3_def s2_def
    by (simp_all add: fold_gates_term fold_gates_port_out pic_remap_eq
        del: upt_rec_numeral fold_upt_Suc)
  have ok5: "kstate_ok s5"
    using s1 s2 s3 s4 trm by (simp add: kstate_ok_def s5_def)
  obtain t' where t': "kputs (''Interrupt system ready'' @ [CHR 0x0A]) s5 = Some (s5\<lparr>screen_term := t'\<rparr>)"
      "term_inv t'"
    using kputs_total[OF ok5] by blast
  have "idt s5 ! k = (if k < 20 then \<lparr>offset_low = ucast (isr k AND 0xFFFF), selector = 8, zero_byte = 0,
         type_attr = 0x8E, offset_high = ucast (drop_bit 16 (isr k) AND 0xFFFF)\<rparr>
       else if 32 \<le> k \<and> k < 48 then \<lparr>offset_low = ucast (irq (k - 32) AND 0xFFFF), selector = 8, zero_byte = 0,
         type_attr = 0x8E, offset_high = ucast (drop_bit 16 (irq (k - 32)) AND 0xFFFF)\<rparr>
       else \<lparr>offset_low = 0, selector = 0, zero_byte = 0, type_attr = 0, offset_high = 0\<rparr>)"
    if "k < 256" for k
    using that s1 s2 s3 s4 by (simp add: s5_def)
  moreover have "\<forall>k < 256. interrupt_handlers s5 ! k = 0"
    using s1 s2 s3 s4 by (simp add: s5_def)
  moreover have "port_out s5 = port_out (pic_remap s)" "idtr s5 = \<lparr>idt_limit = 2047, idt_base = a\<rparr>"
    using port by (simp_all add: s5_def)
  ultimately show ?thesis
    using init t' ok5 by (auto simp: gate_offset_def split_word kstate_ok_def)
qed




section \<open>Dispatch\<close>

text \<open>
  A handler installed for a hardware interrupt is what the dispatcher runs on that
  interrupt's vector; after its removal the vector is unhandled again.
\<close>

theorem irq_dispatch:
  assumes "kstate_ok s" and "h \<noteq> 0" and "unat irq < 224"
  shows "interrupt_handler code (32 + ucast irq) e (irq_install_handler irq h s)
           = (case code h (irq_install_handler irq h s) of Some s' \<Rightarrow> Returns s' | None \<Rightarrow> OutOfBounds)
       \<and> interrupt_handler code (32 + ucast irq) e (irq_remove_handler irq (irq_install_handler irq h s))
           = Returns (pic_send_eoi irq (irq_remove_handler irq (irq_install_handler irq h s)))"
proof -
  have v: "unat (32 + ucast irq :: u32) = 32 + unat irq" "unat (irq + 32) = 32 + unat irq"
    using assms(3) by (simp_all add: unat_word_ariths unat_ucast_mod)
  moreover have "\<not> (32 + ucast irq :: u32) < 32"
    using v(1) by (simp add: word_less_nat_alt)
  moreover have "ucast (32 + ucast irq - 32 :: u32) = irq"
    by (rule bit_word_eqI) (auto simp: bit_simps)
  ultimately show ?thesis
    using assms
    by (simp add: interrupt_handler_def irq_install_handler_def irq_remove_handler_def
        register_interrupt_handler_def kstate_ok_def)
qed

theorem irq_dispatch_witness:
  "interrupt_handler (\<lambda>a s. Some (outb 0x20 0x20 s)) 33 0 (irq_install_handler 1 0x5000 boot_kstate)
     = Returns (outb 0x20 0x20 (irq_install_handler 1 0x5000 boot_kstate))"
  using irq_dispatch[OF boot_kstate_ok, of "0x5000" 1 "\<lambda>a s. Some (outb 0x20 0x20 s)" 0] by simp

lemma length_exception_messages [simp]: "length exception_messages = 20"
  by (simp add: exception_messages_def)

text \<open>
  C37. An exception 0 to 19 without a handler stops the machine with interrupts disabled, after
  writing its message; the text page is never overrun.
\<close>

theorem unhandled_exception_halts:
  assumes "kstate_ok s" and "n < 20" and "interrupt_handlers s ! unat n = 0"
  shows "\<exists>s'. interrupt_handler code n e s = Halted s' \<and> \<not> interrupts_on s' \<and> kstate_ok s'
     \<and> screen_of (screen_term s') = fold screen_put
         (''EXCEPTION: '' @ exception_messages ! unat n @ [CHR 0x0A] @ ''System halted.'')
         ((screen_of (screen_term s))\<lparr>cur_color := 12\<rparr>)"
proof -
  define s0 where "s0 = s\<lparr>screen_term := terminal_setcolor (vga_color_code VGA_COLOR_LIGHT_RED) (screen_term s)\<rparr>"
  have n: "unat n < 20" "n < 32" using assms(2) by (simp_all add: word_less_nat_alt)
  have ok0: "kstate_ok s0" and scr0: "screen_of (screen_term s0) = (screen_of (screen_term s))\<lparr>cur_color := 12\<rparr>"
    using assms(1) by (simp_all add: s0_def kstate_ok_def terminal_setcolor_inv)
      (simp add: terminal_setcolor_def screen_of_def)
  obtain t1 where t1: "kputs ''EXCEPTION: '' s0 = Some (s0\<lparr>screen_term := t1\<rparr>)" "term_inv t1"
      "screen_of t1 = fold screen_put ''EXCEPTION: '' (screen_of (screen_term s0))"
    using kputs_total[OF ok0] by blast
  have "kstate_ok (s0\<lparr>screen_term := t1\<rparr>)" using ok0 t1(2) by (simp add: kstate_ok_def)
  from kputs_total[OF this, of "exception_messages ! unat n"] obtain t2 where t2:
      "kputs (exception_messages ! unat n) (s0\<lparr>screen_term := t1\<rparr>) = Some (s0\<lparr>screen_term := t2\<rparr>)" "term_inv t2"
      "screen_of t2 = fold screen_put (exception_messages ! unat n) (screen_of t1)"
    by auto
  have "kstate_ok (s0\<lparr>screen_term := t2\<rparr>)" using ok0 t2(2) by (simp add: kstate_ok_def)
  from kputs_total[OF this, of "[CHR 0x0A] @ ''System halted.''"] obtain t3 where t3:
      "kputs ([CHR 0x0A] @ ''System halted.'') (s0\<lparr>screen_term := t2\<rparr>) = Some (s0\<lparr>screen_term := t3\<rparr>)" "term_inv t3"
      "screen_of t3 = fold screen_put ([CHR 0x0A] @ ''System halted.'') (screen_of t2)"
    by auto
  have b: "\<not> length (interrupt_handlers s) \<le> unat n" "\<not> 20 \<le> unat n"
    using assms(1) n by (simp_all add: kstate_ok_def)
  have "interrupt_handler code n e s = Halted (disable_interrupts (s0\<lparr>screen_term := t3\<rparr>))"
    unfolding interrupt_handler_def s0_def[symmetric] Let_def t1(1) option.case t2(1) t3(1)
      length_exception_messages
    using assms(3) n(2) b by simp
  moreover have "kstate_ok (disable_interrupts (s0\<lparr>screen_term := t3\<rparr>))"
    using ok0 t3(2) by (simp add: kstate_ok_def disable_interrupts_def)
  moreover have "screen_of t3 = fold screen_put
      (''EXCEPTION: '' @ exception_messages ! unat n @ [CHR 0x0A] @ ''System halted.'')
      ((screen_of (screen_term s))\<lparr>cur_color := 12\<rparr>)"
    using t1(3) t2(3) t3(3) scr0 by (simp only: fold_append comp_def)
  ultimately show ?thesis by (intro exI conjI) (auto simp: disable_interrupts_def)
qed

theorem unhandled_exception_halts_witness:
  "\<exists>s'. interrupt_handler (\<lambda>_ _. None) 14 0 boot_kstate = Halted s' \<and> \<not> interrupts_on s'"
  using unhandled_exception_halts[OF boot_kstate_ok, of 14 "\<lambda>_ _. None" 0] by (force simp: boot_kstate_def)

text \<open>
  The vectors 20 to 31 count as exceptions too, but the message table has 20 entries: the
  dispatcher reads past its end.
\<close>

theorem reserved_exception_out_of_bounds:
  assumes "kstate_ok s" and "20 \<le> n" and "n < 32" and "interrupt_handlers s ! unat n = 0"
  shows "interrupt_handler code n e s = OutOfBounds"
proof -
  have n: "20 \<le> unat n" "unat n < 32" using assms(2,3) by (simp_all add: word_less_nat_alt word_le_nat_alt)
  have "kstate_ok (s\<lparr>screen_term := terminal_setcolor c (screen_term s)\<rparr>)" for c
    using assms(1) by (simp add: kstate_ok_def terminal_setcolor_inv)
  from kputs_total[OF this] show ?thesis
    using assms n by (fastforce simp: interrupt_handler_def Let_def kstate_ok_def split: option.split)
qed

theorem reserved_exception_out_of_bounds_witness:
  "interrupt_handler (\<lambda>_ _. None) 30 0 boot_kstate = OutOfBounds"
  using reserved_exception_out_of_bounds[OF boot_kstate_ok, of 30] by (simp add: boot_kstate_def)

text \<open>
  An unhandled hardware interrupt only acknowledges the interrupt controllers: the second
  one for the vectors from 40 on, always the first, and nothing else changes.
\<close>

theorem unhandled_irq_eoi:
  assumes "kstate_ok s" and "32 \<le> n" and "n < 256" and "interrupt_handlers s ! unat n = 0"
  shows "interrupt_handler code n e s = Returns (s\<lparr>port_out := port_out s @
           (if 40 \<le> n then [(0xA0, 0x20)] else []) @ [(0x20, 0x20)]\<rparr>)"
proof -
  have n: "32 \<le> unat n" "unat n < 256" using assms(2,3) by (simp_all add: word_less_nat_alt word_le_nat_alt)
  have sub: "unat (n - 32) = unat n - 32" using assms(2) by (simp add: unat_sub)
  have "unat (ucast (n - 32) :: u8) = unat n - 32"
    using n by (simp add: unat_ucast_mod sub)
  then have "8 \<le> (ucast (n - 32) :: u8) \<longleftrightarrow> 40 \<le> n"
    using n by (auto simp: word_le_nat_alt)
  then show ?thesis
    using assms n by (auto simp: interrupt_handler_def pic_send_eoi_def outb_def kstate_ok_def)
qed

theorem unhandled_irq_eoi_witness:
  "interrupt_handler (\<lambda>_ _. None) 44 0 boot_kstate
     = Returns (boot_kstate\<lparr>port_out := [(0xA0, 0x20), (0x20, 0x20)]\<rparr>)"
  using unhandled_irq_eoi[OF boot_kstate_ok, of 44] by (simp add: boot_kstate_def)

end
