(* ===== verification/Keyboard.thy ===== *)
theory Keyboard
  imports Interrupts
begin

text \<open>
  The keyboard driver: \<open>src/kernel/keyboard.h\<close> and \<open>src/kernel/keyboard.c\<close>.  The modifier state
  is part of \<open>kstate\<close>; a table that C initialises with fewer values than its length is padded
  with zeros.
\<close>

section \<open>Scan codes and layout tables\<close>

definition SCAN_ESCAPE :: u8 where "SCAN_ESCAPE = 0x01"
definition SCAN_1 :: u8 where "SCAN_1 = 0x02"
definition SCAN_2 :: u8 where "SCAN_2 = 0x03"
definition SCAN_3 :: u8 where "SCAN_3 = 0x04"
definition SCAN_4 :: u8 where "SCAN_4 = 0x05"
definition SCAN_5 :: u8 where "SCAN_5 = 0x06"
definition SCAN_6 :: u8 where "SCAN_6 = 0x07"
definition SCAN_7 :: u8 where "SCAN_7 = 0x08"
definition SCAN_8 :: u8 where "SCAN_8 = 0x09"
definition SCAN_9 :: u8 where "SCAN_9 = 0x0A"
definition SCAN_0 :: u8 where "SCAN_0 = 0x0B"
definition SCAN_MINUS :: u8 where "SCAN_MINUS = 0x0C"
definition SCAN_EQUALS :: u8 where "SCAN_EQUALS = 0x0D"
definition SCAN_BACKSPACE :: u8 where "SCAN_BACKSPACE = 0x0E"
definition SCAN_TAB :: u8 where "SCAN_TAB = 0x0F"
definition SCAN_Q :: u8 where "SCAN_Q = 0x10"
definition SCAN_W :: u8 where "SCAN_W = 0x11"
definition SCAN_E :: u8 where "SCAN_E = 0x12"
definition SCAN_R :: u8 where "SCAN_R = 0x13"
definition SCAN_T :: u8 where "SCAN_T = 0x14"
definition SCAN_Y :: u8 where "SCAN_Y = 0x15"
definition SCAN_U :: u8 where "SCAN_U = 0x16"
definition SCAN_I :: u8 where "SCAN_I = 0x17"
definition SCAN_O :: u8 where "SCAN_O = 0x18"
definition SCAN_P :: u8 where "SCAN_P = 0x19"
definition SCAN_LEFTBRACKET :: u8 where "SCAN_LEFTBRACKET = 0x1A"
definition SCAN_RIGHTBRACKET :: u8 where "SCAN_RIGHTBRACKET = 0x1B"
definition SCAN_ENTER :: u8 where "SCAN_ENTER = 0x1C"
definition SCAN_LEFTCTRL :: u8 where "SCAN_LEFTCTRL = 0x1D"
definition SCAN_A :: u8 where "SCAN_A = 0x1E"
definition SCAN_S :: u8 where "SCAN_S = 0x1F"
definition SCAN_D :: u8 where "SCAN_D = 0x20"
definition SCAN_F :: u8 where "SCAN_F = 0x21"
definition SCAN_G :: u8 where "SCAN_G = 0x22"
definition SCAN_H :: u8 where "SCAN_H = 0x23"
definition SCAN_J :: u8 where "SCAN_J = 0x24"
definition SCAN_K :: u8 where "SCAN_K = 0x25"
definition SCAN_L :: u8 where "SCAN_L = 0x26"
definition SCAN_SEMICOLON :: u8 where "SCAN_SEMICOLON = 0x27"
definition SCAN_APOSTROPHE :: u8 where "SCAN_APOSTROPHE = 0x28"
definition SCAN_GRAVE :: u8 where "SCAN_GRAVE = 0x29"
definition SCAN_LEFTSHIFT :: u8 where "SCAN_LEFTSHIFT = 0x2A"
definition SCAN_BACKSLASH :: u8 where "SCAN_BACKSLASH = 0x2B"
definition SCAN_Z :: u8 where "SCAN_Z = 0x2C"
definition SCAN_X :: u8 where "SCAN_X = 0x2D"
definition SCAN_C :: u8 where "SCAN_C = 0x2E"
definition SCAN_V :: u8 where "SCAN_V = 0x2F"
definition SCAN_B :: u8 where "SCAN_B = 0x30"
definition SCAN_N :: u8 where "SCAN_N = 0x31"
definition SCAN_M :: u8 where "SCAN_M = 0x32"
definition SCAN_COMMA :: u8 where "SCAN_COMMA = 0x33"
definition SCAN_PERIOD :: u8 where "SCAN_PERIOD = 0x34"
definition SCAN_SLASH :: u8 where "SCAN_SLASH = 0x35"
definition SCAN_RIGHTSHIFT :: u8 where "SCAN_RIGHTSHIFT = 0x36"
definition SCAN_KP_MULTIPLY :: u8 where "SCAN_KP_MULTIPLY = 0x37"
definition SCAN_LEFTALT :: u8 where "SCAN_LEFTALT = 0x38"
definition SCAN_SPACE :: u8 where "SCAN_SPACE = 0x39"
definition SCAN_CAPSLOCK :: u8 where "SCAN_CAPSLOCK = 0x3A"
definition SCAN_F1 :: u8 where "SCAN_F1 = 0x3B"
definition SCAN_F2 :: u8 where "SCAN_F2 = 0x3C"
definition SCAN_F3 :: u8 where "SCAN_F3 = 0x3D"
definition SCAN_F4 :: u8 where "SCAN_F4 = 0x3E"
definition SCAN_F5 :: u8 where "SCAN_F5 = 0x3F"
definition SCAN_F6 :: u8 where "SCAN_F6 = 0x40"
definition SCAN_F7 :: u8 where "SCAN_F7 = 0x41"
definition SCAN_F8 :: u8 where "SCAN_F8 = 0x42"
definition SCAN_F9 :: u8 where "SCAN_F9 = 0x43"
definition SCAN_F10 :: u8 where "SCAN_F10 = 0x44"
definition SCAN_NUMLOCK :: u8 where "SCAN_NUMLOCK = 0x45"
definition SCAN_SCROLLLOCK :: u8 where "SCAN_SCROLLLOCK = 0x46"
definition SCAN_KP7 :: u8 where "SCAN_KP7 = 0x47"
definition SCAN_KP8 :: u8 where "SCAN_KP8 = 0x48"
definition SCAN_KP9 :: u8 where "SCAN_KP9 = 0x49"
definition SCAN_KP_MINUS :: u8 where "SCAN_KP_MINUS = 0x4A"
definition SCAN_KP4 :: u8 where "SCAN_KP4 = 0x4B"
definition SCAN_KP5 :: u8 where "SCAN_KP5 = 0x4C"
definition SCAN_KP6 :: u8 where "SCAN_KP6 = 0x4D"
definition SCAN_KP_PLUS :: u8 where "SCAN_KP_PLUS = 0x4E"
definition SCAN_KP1 :: u8 where "SCAN_KP1 = 0x4F"
definition SCAN_KP2 :: u8 where "SCAN_KP2 = 0x50"
definition SCAN_KP3 :: u8 where "SCAN_KP3 = 0x51"
definition SCAN_KP0 :: u8 where "SCAN_KP0 = 0x52"
definition SCAN_KP_PERIOD :: u8 where "SCAN_KP_PERIOD = 0x53"

lemmas scan_defs =
  SCAN_ESCAPE_def SCAN_1_def SCAN_2_def SCAN_3_def SCAN_4_def SCAN_5_def SCAN_6_def SCAN_7_def
  SCAN_8_def SCAN_9_def SCAN_0_def SCAN_MINUS_def SCAN_EQUALS_def SCAN_BACKSPACE_def SCAN_TAB_def
  SCAN_Q_def SCAN_W_def SCAN_E_def SCAN_R_def SCAN_T_def SCAN_Y_def SCAN_U_def SCAN_I_def
  SCAN_O_def SCAN_P_def SCAN_LEFTBRACKET_def SCAN_RIGHTBRACKET_def SCAN_ENTER_def
  SCAN_LEFTCTRL_def SCAN_A_def SCAN_S_def SCAN_D_def SCAN_F_def SCAN_G_def SCAN_H_def SCAN_J_def
  SCAN_K_def SCAN_L_def SCAN_SEMICOLON_def SCAN_APOSTROPHE_def SCAN_GRAVE_def SCAN_LEFTSHIFT_def
  SCAN_BACKSLASH_def SCAN_Z_def SCAN_X_def SCAN_C_def SCAN_V_def SCAN_B_def SCAN_N_def SCAN_M_def
  SCAN_COMMA_def SCAN_PERIOD_def SCAN_SLASH_def SCAN_RIGHTSHIFT_def SCAN_KP_MULTIPLY_def
  SCAN_LEFTALT_def SCAN_SPACE_def SCAN_CAPSLOCK_def SCAN_F1_def SCAN_F2_def SCAN_F3_def
  SCAN_F4_def SCAN_F5_def SCAN_F6_def SCAN_F7_def SCAN_F8_def SCAN_F9_def SCAN_F10_def
  SCAN_NUMLOCK_def SCAN_SCROLLLOCK_def SCAN_KP7_def SCAN_KP8_def SCAN_KP9_def SCAN_KP_MINUS_def
  SCAN_KP4_def SCAN_KP5_def SCAN_KP6_def SCAN_KP_PLUS_def SCAN_KP1_def SCAN_KP2_def SCAN_KP3_def
  SCAN_KP0_def SCAN_KP_PERIOD_def

definition scancode_table :: "char list" where
  "scancode_table =
     NUL # NUL # ''1234567890-='' @
     [CHR 0x08, CHR 0x09, CHR ''q'',
      CHR ''w'', CHR ''e'', CHR ''r'', CHR ''t'', CHR ''y'', CHR ''u'', CHR ''i'', CHR ''o'',
      CHR ''p'', CHR ''['', CHR '']'', CHR 0x0A, NUL, CHR ''a'', CHR ''s'', CHR ''d'', CHR ''f'',
      CHR ''g'', CHR ''h'', CHR ''j'', CHR ''k'', CHR ''l'', CHR '';'', CHR 0x27, CHR 0x60, NUL,
      CHR 0x5C, CHR ''z'', CHR ''x'', CHR ''c'', CHR ''v'', CHR ''b'', CHR ''n'', CHR ''m'',
      CHR '','', CHR ''.'', CHR ''/'', NUL, CHR ''*'', NUL, CHR '' '', NUL, NUL, NUL, NUL, NUL,
      NUL, NUL, NUL, NUL, NUL, NUL, NUL, NUL, NUL, NUL, NUL, NUL, CHR ''-'', NUL, NUL, NUL,
      CHR ''+'', NUL, NUL, NUL, NUL, NUL, NUL, NUL, NUL, NUL, NUL, NUL, NUL] @ replicate 36 NUL"

definition scancode_shift_table :: "char list" where
  "scancode_shift_table =
     NUL # NUL # ''!@#$%^&*()_+'' @
     [CHR 0x08, CHR 0x09, CHR ''Q'',
      CHR ''W'', CHR ''E'', CHR ''R'', CHR ''T'', CHR ''Y'', CHR ''U'', CHR ''I'', CHR ''O'',
      CHR ''P'', CHR ''{'', CHR ''}'', CHR 0x0A, NUL, CHR ''A'', CHR ''S'', CHR ''D'', CHR ''F'',
      CHR ''G'', CHR ''H'', CHR ''J'', CHR ''K'', CHR ''L'', CHR '':'', CHR 0x22, CHR ''~'', NUL,
      CHR ''|'', CHR ''Z'', CHR ''X'', CHR ''C'', CHR ''V'', CHR ''B'', CHR ''N'', CHR ''M'',
      CHR ''<'', CHR ''>'', CHR ''?'', NUL, CHR ''*'', NUL, CHR '' '', NUL, NUL, NUL, NUL, NUL,
      NUL, NUL, NUL, NUL, NUL, NUL, NUL, NUL, NUL, NUL, NUL, NUL, CHR ''-'', NUL, NUL, NUL,
      CHR ''+'', NUL, NUL, NUL, NUL, NUL, NUL, NUL, NUL, NUL, NUL, NUL, NUL] @ replicate 36 NUL"


section \<open>Operations\<close>

text \<open>Letters are compared as signed characters; adding 32 to a letter's code changes its case.\<close>

definition keyboard_scancode_to_char :: "u8 \<Rightarrow> keyboard_state_t \<Rightarrow> char" where
  "keyboard_scancode_to_char scancode k =
     (if scancode \<ge> 128 then NUL
      else let tab = (if shift_pressed k \<noteq> 0 then scancode_shift_table else scancode_table);
               c = tab ! unat scancode
           in if schar c \<ge> schar (CHR ''a'') \<and> schar c \<le> schar (CHR ''z'') \<and> caps_lock k \<noteq> 0
              then char_of (uchar c - 32)
              else if schar c \<ge> schar (CHR ''A'') \<and> schar c \<le> schar (CHR ''Z'') \<and> caps_lock k \<noteq> 0
              then char_of (uchar c + 32)
              else c)"

text \<open>The two \<open>switch\<close> statements of the handler.\<close>

definition key_released :: "u8 \<Rightarrow> keyboard_state_t \<Rightarrow> keyboard_state_t" where
  "key_released scancode k =
     (if scancode = SCAN_LEFTSHIFT \<or> scancode = SCAN_RIGHTSHIFT
      then k\<lparr>shift_pressed := 0\<rparr>
      else if scancode = SCAN_LEFTCTRL then k\<lparr>ctrl_pressed := 0\<rparr>
      else if scancode = SCAN_LEFTALT then k\<lparr>alt_pressed := 0\<rparr>
      else k)"

definition key_pressed :: "u8 \<Rightarrow> kstate \<Rightarrow> kstate option" where
  "key_pressed scancode s =
     (let k = keyboard_state s in
      if scancode = SCAN_LEFTSHIFT \<or> scancode = SCAN_RIGHTSHIFT
      then Some (s\<lparr>keyboard_state := k\<lparr>shift_pressed := 1\<rparr>\<rparr>)
      else if scancode = SCAN_LEFTCTRL
      then Some (s\<lparr>keyboard_state := k\<lparr>ctrl_pressed := 1\<rparr>\<rparr>)
      else if scancode = SCAN_LEFTALT
      then Some (s\<lparr>keyboard_state := k\<lparr>alt_pressed := 1\<rparr>\<rparr>)
      else if scancode = SCAN_CAPSLOCK
      then Some (s\<lparr>keyboard_state := k\<lparr>caps_lock := (if caps_lock k = 0 then 1 else 0)\<rparr>\<rparr>)
      else let c = keyboard_scancode_to_char scancode k
           in if c \<noteq> NUL then kputchar c s else Some s)"

definition keyboard_handler :: "kstate \<Rightarrow> kstate option" where
  "keyboard_handler s =
     (let scancode = inb 0x60 s in
      case (if scancode AND 0x80 \<noteq> 0
            then Some (s\<lparr>keyboard_state := key_released (scancode AND 0x7F) (keyboard_state s)\<rparr>)
            else key_pressed scancode s) of
        None \<Rightarrow> None
      | Some s \<Rightarrow> Some (outb 0x20 0x20 s))"

text \<open>\<open>handler_address\<close> is the address of \<open>keyboard_handler\<close>.\<close>

definition keyboard_init :: "u32 \<Rightarrow> kstate \<Rightarrow> kstate option" where
  "keyboard_init handler_address s =
     (case kputs (''Initializing keyboard...'' @ [CHR 0x0A]) s of None \<Rightarrow> None
      | Some s \<Rightarrow>
        let s = s\<lparr>keyboard_state := \<lparr>shift_pressed = 0, ctrl_pressed = 0, alt_pressed = 0,
                                      caps_lock = 0\<rparr>\<rparr>;
            s = irq_install_handler IRQ_KEYBOARD handler_address s
        in kputs (''Keyboard ready'' @ [CHR 0x0A]) s)"

definition keyboard_get_state :: "kstate \<Rightarrow> keyboard_state_t" where
  "keyboard_get_state s = keyboard_state s"


section \<open>Layout\<close>

lemma length_scancode_tables [simp]: "length scancode_table = 128" "length scancode_shift_table = 128"
  by (simp_all add: scancode_table_def scancode_shift_table_def)

text \<open>The letter keys of the header, in the order of their scan codes.\<close>

definition letter_keys :: "(u8 \<times> char \<times> char) list" where
  "letter_keys = [
     (SCAN_Q, CHR ''q'', CHR ''Q''), (SCAN_W, CHR ''w'', CHR ''W''), (SCAN_E, CHR ''e'', CHR ''E''),
     (SCAN_R, CHR ''r'', CHR ''R''), (SCAN_T, CHR ''t'', CHR ''T''), (SCAN_Y, CHR ''y'', CHR ''Y''),
     (SCAN_U, CHR ''u'', CHR ''U''), (SCAN_I, CHR ''i'', CHR ''I''), (SCAN_O, CHR ''o'', CHR ''O''),
     (SCAN_P, CHR ''p'', CHR ''P''), (SCAN_A, CHR ''a'', CHR ''A''), (SCAN_S, CHR ''s'', CHR ''S''),
     (SCAN_D, CHR ''d'', CHR ''D''), (SCAN_F, CHR ''f'', CHR ''F''), (SCAN_G, CHR ''g'', CHR ''G''),
     (SCAN_H, CHR ''h'', CHR ''H''), (SCAN_J, CHR ''j'', CHR ''J''), (SCAN_K, CHR ''k'', CHR ''K''),
     (SCAN_L, CHR ''l'', CHR ''L''), (SCAN_Z, CHR ''z'', CHR ''Z''), (SCAN_X, CHR ''x'', CHR ''X''),
     (SCAN_C, CHR ''c'', CHR ''C''), (SCAN_V, CHR ''v'', CHR ''V''), (SCAN_B, CHR ''b'', CHR ''B''),
     (SCAN_N, CHR ''n'', CHR ''N''), (SCAN_M, CHR ''m'', CHR ''M'')]"

lemma letter_codes:
  "list_all (\<lambda>(n, l, u). n < 128 \<and> scancode_table ! unat n = l
     \<and> scancode_shift_table ! unat n = u) letter_keys"
  by (simp add: letter_keys_def scan_defs scancode_table_def scancode_shift_table_def)

lemma char_of_uchar [simp]: "char_of (uchar c) = c"
  by (simp add: uchar_def)

lemma char_of_uchar_eq: "n = uchar c \<Longrightarrow> char_of n = c"
  by (erule ssubst) (rule char_of_uchar)

lemma letter_case:
  "list_all (\<lambda>(n, l, u). 97 \<le> schar l \<and> schar l \<le> 122 \<and> 65 \<le> schar u \<and> schar u \<le> 90
     \<and> uchar l = uchar u + 32) letter_keys"
  by (simp add: letter_keys_def schar_def uchar_def)

lemma schar_bounds: "schar (CHR ''a'') = 97" "schar (CHR ''z'') = 122" "schar (CHR ''A'') = 65" "schar (CHR ''Z'') = 90"
  by (simp_all add: schar_def)

text \<open>
  Letter keys: Shift and Caps Lock each select capitals and together cancel out.
\<close>

theorem letter_key_case:
  assumes "(n, l, u) \<in> set letter_keys"
  shows "keyboard_scancode_to_char n k
           = (if (shift_pressed k \<noteq> 0) \<noteq> (caps_lock k \<noteq> 0) then u else l)"
proof -
  have t: "\<not> 128 \<le> n" "scancode_table ! unat n = l" "scancode_shift_table ! unat n = u"
    using letter_codes assms by (auto simp: list_all_iff not_le)
  have c: "97 \<le> schar l" "schar l \<le> 122" "65 \<le> schar u" "schar u \<le> 90" "uchar l = uchar u + 32"
    using letter_case assms by (auto simp: list_all_iff)
  then have "\<not> 97 \<le> schar u" by linarith
  moreover have "char_of (uchar u + 32) = l" "char_of (uchar l - 32) = u"
    using c(5) by (intro char_of_uchar_eq, linarith)+
  ultimately show ?thesis
    using t c(1-4) unfolding keyboard_scancode_to_char_def Let_def schar_bounds
    by (cases "shift_pressed k = 0"; cases "caps_lock k = 0") (simp_all only: if_True if_False HOL.simp_thms)
qed

theorem letter_key_case_witness:
  "keyboard_scancode_to_char SCAN_G \<lparr>shift_pressed = 1, ctrl_pressed = 0, alt_pressed = 0, caps_lock = 0\<rparr> = CHR ''G''
   \<and> keyboard_scancode_to_char SCAN_G \<lparr>shift_pressed = 1, ctrl_pressed = 0, alt_pressed = 0, caps_lock = 1\<rparr> = CHR ''g''"
proof -
  have "(SCAN_G, CHR ''g'', CHR ''G'') \<in> set letter_keys" by (simp add: letter_keys_def)
  from letter_key_case[OF this] show ?thesis by simp
qed

text \<open>
  The keypad signs are shifted by one key: the minus and plus keys of the header produce
  no character, their characters are on the keypad keys 4 and 1.
\<close>

lemma keypad_signs_misplaced:
  "keyboard_scancode_to_char SCAN_KP_MINUS k = NUL \<and> keyboard_scancode_to_char SCAN_KP4 k = CHR ''-''
   \<and> keyboard_scancode_to_char SCAN_KP_PLUS k = NUL \<and> keyboard_scancode_to_char SCAN_KP1 k = CHR ''+''"
  by (simp add: keyboard_scancode_to_char_def scan_defs scancode_table_def scancode_shift_table_def
      Let_def schar_def)


section \<open>The handler\<close>

definition modifier_key :: "u8 \<Rightarrow> bool" where
  "modifier_key c \<longleftrightarrow> c \<in> {SCAN_LEFTSHIFT, SCAN_RIGHTSHIFT, SCAN_LEFTCTRL, SCAN_LEFTALT, SCAN_CAPSLOCK}"

text \<open>The modifier state after one scan code, whatever is on the screen.\<close>

definition modifiers_after :: "u8 \<Rightarrow> keyboard_state_t \<Rightarrow> keyboard_state_t" where
  "modifiers_after c k =
     (if c AND 0x80 \<noteq> 0 then key_released (c AND 0x7F) k
      else if c = SCAN_LEFTSHIFT \<or> c = SCAN_RIGHTSHIFT then k\<lparr>shift_pressed := 1\<rparr>
      else if c = SCAN_LEFTCTRL then k\<lparr>ctrl_pressed := 1\<rparr>
      else if c = SCAN_LEFTALT then k\<lparr>alt_pressed := 1\<rparr>
      else if c = SCAN_CAPSLOCK then k\<lparr>caps_lock := (if caps_lock k = 0 then 1 else 0)\<rparr>
      else k)"

text \<open>What one scan code shows.\<close>

definition echo_of :: "u8 \<Rightarrow> keyboard_state_t \<Rightarrow> string" where
  "echo_of c k =
     (if c AND 0x80 \<noteq> 0 \<or> modifier_key c \<or> keyboard_scancode_to_char c k = NUL then []
      else [keyboard_scancode_to_char c k])"

lemma key_pressed_total:
  assumes "kstate_ok s" and "c AND 0x80 = 0"
  shows "\<exists>s'. key_pressed c s = Some s' \<and> kstate_ok s' \<and> port_out s' = port_out s \<and> port_in s' = port_in s
       \<and> interrupt_handlers s' = interrupt_handlers s
       \<and> keyboard_state s' = modifiers_after c (keyboard_state s)
       \<and> screen_of (screen_term s') = fold screen_put (echo_of c (keyboard_state s)) (screen_of (screen_term s))"
  using assms kputchar_total[OF assms(1), of "keyboard_scancode_to_char c (keyboard_state s)"]
  by (auto simp: key_pressed_def Let_def modifiers_after_def echo_of_def modifier_key_def kstate_ok_def)

lemma keyboard_handler_total:
  assumes "kstate_ok s"
  defines "c \<equiv> port_in s 0x60"
  shows "\<exists>s'. keyboard_handler s = Some s' \<and> kstate_ok s'
       \<and> port_out s' = port_out s @ [(0x20, 0x20)]
       \<and> interrupt_handlers s' = interrupt_handlers s
       \<and> keyboard_get_state s' = modifiers_after c (keyboard_state s)
       \<and> screen_of (screen_term s') = fold screen_put (echo_of c (keyboard_state s)) (screen_of (screen_term s))"
proof (cases "c AND 0x80 = 0")
  case True
  then show ?thesis
    using key_pressed_total[OF assms(1) True]
    by (auto simp: keyboard_handler_def inb_def c_def outb_def kstate_ok_def keyboard_get_state_def Let_def)
next
  case False
  then show ?thesis
    using assms
    by (auto simp: keyboard_handler_def inb_def outb_def kstate_ok_def keyboard_get_state_def
        modifiers_after_def echo_of_def)
qed

text \<open>Feeding a sequence of scan codes to the modifier tracking.\<close>

definition shift_event :: "u8 \<Rightarrow> bool" where
  "shift_event c \<longleftrightarrow> c AND 0x7F = SCAN_LEFTSHIFT \<or> c AND 0x7F = SCAN_RIGHTSHIFT"

lemma release_bit: "c AND 0x80 = 0 \<longleftrightarrow> c AND 0x7F = (c :: u8)"
proof -
  have mask: "c AND 0x7F = take_bit 7 c"
    by (simp add: take_bit_eq_mask mask_eq_exp_minus_1)
  have "c AND 0x80 = 0 \<longleftrightarrow> \<not> bit c 7"
    using and_exp_eq_0_iff_not_bit[of c 7] by simp
  also have "\<dots> \<longleftrightarrow> take_bit 7 c = c"
  proof
    assume n7: "\<not> bit c 7"
    show "take_bit 7 c = c"
    proof (rule bit_word_eqI)
      fix n
      assume "n < LENGTH(8)"
      then have "n < 7 \<or> n = 7" by auto
      with n7 show "bit (take_bit 7 c) n = bit c n" by (auto simp: bit_take_bit_iff)
    qed
  next
    assume "take_bit 7 c = c"
    then show "\<not> bit c 7" by (metis bit_take_bit_iff less_irrefl)
  qed
  finally show ?thesis by (simp only: mask)
qed

lemma shift_after:
  "shift_pressed (modifiers_after c k)
     = (if shift_event c then (if c AND 0x80 = 0 then 1 else 0) else shift_pressed k)"
  using release_bit[of c]
  by (auto simp: modifiers_after_def key_released_def shift_event_def)

text \<open>
  After any sequence of scan codes the Shift state is what the last Shift event made it:
  pressed after a make code, released after a break code, unchanged if there was none.
\<close>

theorem shift_tracks_last_event:
  "shift_pressed (fold modifiers_after cs k)
     = (case filter shift_event (rev cs) of [] \<Rightarrow> shift_pressed k
        | c # _ \<Rightarrow> if c AND 0x80 = 0 then 1 else 0)"
  by (induction cs rule: rev_induct) (auto simp: shift_after)


section \<open>Typing\<close>

text \<open>
  Scan codes arriving one after the other: the keyboard controller presents each at port 0x60 and
  raises vector 33.  \<open>code\<close> says what the function at an address does.
\<close>

primrec keys_arrive :: "(u32 \<Rightarrow> kstate \<Rightarrow> kstate option) \<Rightarrow> u8 list \<Rightarrow> kstate \<Rightarrow> kstate option" where
  "keys_arrive code [] s = Some s"
| "keys_arrive code (c # cs) s =
     (case interrupt_handler code 33 0 (s\<lparr>port_in := (port_in s)(0x60 := c)\<rparr>) of
        Returns s' \<Rightarrow> keys_arrive code cs s' | _ \<Rightarrow> None)"

text \<open>What a sequence of scan codes shows.\<close>

primrec echoes :: "u8 list \<Rightarrow> keyboard_state_t \<Rightarrow> string" where
  "echoes [] k = []"
| "echoes (c # cs) k = echo_of c k @ echoes cs (modifiers_after c k)"

lemma interrupt_handler_keyboard:
  assumes ok: "kstate_ok s" and h: "h \<noteq> 0" "interrupt_handlers s ! 33 = h" "code h = keyboard_handler"
  obtains s' where "interrupt_handler code 33 0 (s\<lparr>port_in := (port_in s)(0x60 := c)\<rparr>) = Returns s'"
    and "kstate_ok s'" "port_out s' = port_out s @ [(0x20, 0x20)]"
    and "interrupt_handlers s' = interrupt_handlers s" "keyboard_state s' = modifiers_after c (keyboard_state s)"
    and "screen_of (screen_term s') = fold screen_put (echo_of c (keyboard_state s)) (screen_of (screen_term s))"
proof -
  let ?s = "s\<lparr>port_in := (port_in s)(0x60 := c)\<rparr>"
  have ok': "kstate_ok ?s" and len: "length (interrupt_handlers s) = 256"
    using ok by (simp_all add: kstate_ok_def)
  obtain s' where s': "keyboard_handler ?s = Some s'" "kstate_ok s'" "port_out s' = port_out s @ [(0x20, 0x20)]"
      "interrupt_handlers s' = interrupt_handlers s" "keyboard_get_state s' = modifiers_after c (keyboard_state s)"
      "screen_of (screen_term s') = fold screen_put (echo_of c (keyboard_state s)) (screen_of (screen_term s))"
    using keyboard_handler_total[OF ok'] by auto
  have "interrupt_handler code 33 0 ?s = Returns s'"
    using h len s'(1) by (simp add: interrupt_handler_def)
  with s' show thesis
    by (intro that) (simp_all add: keyboard_get_state_def)
qed

lemma keys_arrive_total:
  assumes "kstate_ok s" "h \<noteq> 0" "interrupt_handlers s ! 33 = h" "code h = keyboard_handler"
  shows "\<exists>s'. keys_arrive code cs s = Some s' \<and> kstate_ok s'
    \<and> port_out s' = port_out s @ replicate (length cs) (0x20, 0x20)
    \<and> keyboard_state s' = fold modifiers_after cs (keyboard_state s)
    \<and> screen_of (screen_term s') = fold screen_put (echoes cs (keyboard_state s)) (screen_of (screen_term s))"
  using assms
proof (induction cs arbitrary: s)
  case (Cons c cs)
  obtain s1 where s1: "interrupt_handler code 33 0 (s\<lparr>port_in := (port_in s)(0x60 := c)\<rparr>) = Returns s1"
      "kstate_ok s1" "port_out s1 = port_out s @ [(0x20, 0x20)]"
      "interrupt_handlers s1 = interrupt_handlers s" "keyboard_state s1 = modifiers_after c (keyboard_state s)"
      "screen_of (screen_term s1) = fold screen_put (echo_of c (keyboard_state s)) (screen_of (screen_term s))"
    using Cons.prems by (rule interrupt_handler_keyboard)
  show ?case
    using Cons.IH[OF s1(2) Cons.prems(2) _ Cons.prems(4)] Cons.prems(3) s1 by simp
qed simp

lemma keyboard_init_total:
  assumes ok: "kstate_ok s"
  shows "\<exists>s'. keyboard_init h s = Some s' \<and> kstate_ok s' \<and> interrupt_handlers s' ! 33 = h
    \<and> port_out s' = port_out s
    \<and> keyboard_state s' = \<lparr>shift_pressed = 0, ctrl_pressed = 0, alt_pressed = 0, caps_lock = 0\<rparr>"
proof -
  obtain t where t: "kputs (''Initializing keyboard...'' @ [CHR 0x0A]) s = Some (s\<lparr>screen_term := t\<rparr>)" "term_inv t"
    using kputs_total[OF ok] by blast
  define s1 where "s1 = irq_install_handler IRQ_KEYBOARD h (s\<lparr>screen_term := t,
    keyboard_state := \<lparr>shift_pressed = 0, ctrl_pressed = 0, alt_pressed = 0, caps_lock = 0\<rparr>\<rparr>)"
  have "kstate_ok s1" and i: "interrupt_handlers s1 ! 33 = h" "port_out s1 = port_out s"
      "keyboard_state s1 = \<lparr>shift_pressed = 0, ctrl_pressed = 0, alt_pressed = 0, caps_lock = 0\<rparr>"
    using ok t(2) by (simp_all add: s1_def kstate_ok_def irq_install_handler_def register_interrupt_handler_def
        IRQ_KEYBOARD_def)
  from kputs_total[OF this(1), of "''Keyboard ready'' @ [CHR 0x0A]"] obtain t' where
    "kputs (''Keyboard ready'' @ [CHR 0x0A]) s1 = Some (s1\<lparr>screen_term := t'\<rparr>)" "term_inv t'"
    by blast
  with i \<open>kstate_ok s1\<close> t(1) show ?thesis
    by (simp add: keyboard_init_def Let_def s1_def[symmetric] kstate_ok_def)
qed

end
