(* ===== verification/GrubErr.thy ===== *)
theory GrubErr
  imports Prelude
begin

text \<open>
  The boot loader's error reporting: the codes of \<open>include/grub/err.h\<close> and the stack of saved
  errors of \<open>kern/err.c\<close>.  The message buffer of 256 bytes is its contents as a string; what
  \<open>grub_err_printf\<close> prints is appended to \<open>err_out\<close>.  Formatting a message is in
  \<open>GrubPrintf\<close>.
\<close>

section \<open>Error codes\<close>

datatype (plugins only: code) grub_err_t =
    GRUB_ERR_NONE | GRUB_ERR_TEST_FAILURE | GRUB_ERR_BAD_MODULE | GRUB_ERR_OUT_OF_MEMORY
  | GRUB_ERR_BAD_FILE_TYPE | GRUB_ERR_FILE_NOT_FOUND | GRUB_ERR_FILE_READ_ERROR
  | GRUB_ERR_BAD_FILENAME | GRUB_ERR_UNKNOWN_FS | GRUB_ERR_BAD_FS | GRUB_ERR_BAD_NUMBER
  | GRUB_ERR_OUT_OF_RANGE | GRUB_ERR_UNKNOWN_DEVICE | GRUB_ERR_BAD_DEVICE | GRUB_ERR_READ_ERROR
  | GRUB_ERR_WRITE_ERROR | GRUB_ERR_UNKNOWN_COMMAND | GRUB_ERR_INVALID_COMMAND
  | GRUB_ERR_BAD_ARGUMENT | GRUB_ERR_BAD_PART_TABLE | GRUB_ERR_UNKNOWN_OS | GRUB_ERR_BAD_OS
  | GRUB_ERR_NO_KERNEL | GRUB_ERR_BAD_FONT | GRUB_ERR_NOT_IMPLEMENTED_YET
  | GRUB_ERR_SYMLINK_LOOP | GRUB_ERR_BAD_COMPRESSED_DATA | GRUB_ERR_MENU | GRUB_ERR_TIMEOUT
  | GRUB_ERR_IO | GRUB_ERR_ACCESS_DENIED | GRUB_ERR_EXTRACTOR | GRUB_ERR_NET_BAD_ADDRESS
  | GRUB_ERR_NET_ROUTE_LOOP | GRUB_ERR_NET_NO_ROUTE | GRUB_ERR_NET_NO_ANSWER
  | GRUB_ERR_NET_NO_CARD | GRUB_ERR_WAIT | GRUB_ERR_BUG | GRUB_ERR_NET_PORT_CLOSED
  | GRUB_ERR_NET_INVALID_RESPONSE | GRUB_ERR_NET_UNKNOWN_ERROR | GRUB_ERR_NET_PACKET_TOO_BIG
  | GRUB_ERR_NET_NO_DOMAIN | GRUB_ERR_EOF | GRUB_ERR_BAD_SIGNATURE | GRUB_ERR_BAD_FIRMWARE
  | GRUB_ERR_STILL_REFERENCED | GRUB_ERR_RECURSION_DEPTH | GRUB_ERR_EXISTS

section \<open>State and operations\<close>

abbreviation (input) GRUB_ERROR_STACK_SIZE :: nat where "GRUB_ERROR_STACK_SIZE \<equiv> 10"

record err_state =
  grub_errno :: grub_err_t
  grub_errmsg :: string
  grub_err_printed_errors :: int
  grub_error_stack_items :: "(grub_err_t \<times> string) list"
  grub_error_stack_pos :: nat
  grub_error_stack_assert :: bool
  err_out :: "string list"

definition grub_error_push :: "err_state \<Rightarrow> err_state" where
  "grub_error_push st =
    (let st = (if grub_error_stack_pos st < GRUB_ERROR_STACK_SIZE
               then st\<lparr>grub_error_stack_items :=
                         (grub_error_stack_items st)[grub_error_stack_pos st :=
                            (grub_errno st, grub_errmsg st)],
                       grub_error_stack_pos := grub_error_stack_pos st + 1\<rparr>
               else st\<lparr>grub_error_stack_assert := True\<rparr>)
     in st\<lparr>grub_errno := GRUB_ERR_NONE\<rparr>)"

definition grub_error_pop :: "err_state \<Rightarrow> bool \<times> err_state" where
  "grub_error_pop st =
    (if grub_error_stack_pos st > 0
     then (let pos = grub_error_stack_pos st - 1; (e, msg) = grub_error_stack_items st ! pos
           in (True, st\<lparr>grub_error_stack_pos := pos, grub_errno := e, grub_errmsg := msg\<rparr>))
     else (False, st\<lparr>grub_errno := GRUB_ERR_NONE\<rparr>))"

text \<open>The body of the printing loop, and the loop: it pops until the stack is empty.\<close>

definition print_active :: "err_state \<Rightarrow> err_state" where
  "print_active st =
    (if grub_errno st \<noteq> GRUB_ERR_NONE
     then st\<lparr>err_out := err_out st @ [''error: '' @ grub_errmsg st @ ''.'' @ [CHR 0x0A]],
             grub_err_printed_errors := grub_err_printed_errors st + 1\<rparr>
     else st)"

lemma grub_error_pop_pos: "fst (grub_error_pop st) \<Longrightarrow>
  grub_error_stack_pos (snd (grub_error_pop st)) < grub_error_stack_pos st"
  by (auto simp: grub_error_pop_def Let_def split: prod.splits if_splits)

lemma print_active_pos [simp]: "grub_error_stack_pos (print_active st) = grub_error_stack_pos st"
  by (simp add: print_active_def)

function print_errors :: "err_state \<Rightarrow> err_state" where
  "print_errors st =
    (let (more, st') = grub_error_pop (print_active st)
     in if more then print_errors st' else st')"
  by pat_completeness auto

termination print_errors
  by (relation "measure grub_error_stack_pos")
    (use grub_error_pop_pos in \<open>force simp: prod_eq_iff\<close>)+

declare print_errors.simps [simp del]

definition grub_print_error :: "err_state \<Rightarrow> err_state" where
  "grub_print_error st =
    (let st = print_errors st
     in if grub_error_stack_assert st
        then st\<lparr>err_out := err_out st @ [''assert: error stack overflow detected!'' @ [CHR 0x0A]],
                grub_error_stack_assert := False\<rparr>
        else st)"


section \<open>What is reported\<close>

text \<open>The active error and the saved ones, newest first.\<close>

definition pending_errors :: "err_state \<Rightarrow> (grub_err_t \<times> string) list" where
  "pending_errors st = (grub_errno st, grub_errmsg st)
     # rev (take (grub_error_stack_pos st) (grub_error_stack_items st))"

definition err_ok :: "err_state \<Rightarrow> bool" where
  "err_ok st \<longleftrightarrow> length (grub_error_stack_items st) = GRUB_ERROR_STACK_SIZE
     \<and> grub_error_stack_pos st \<le> GRUB_ERROR_STACK_SIZE"

lemma err_ok_push [inv_intros]: "err_ok st \<Longrightarrow> err_ok (grub_error_push st)"
  by (simp add: err_ok_def grub_error_push_def Let_def)

lemma err_ok_pop [inv_intros]: "err_ok st \<Longrightarrow> err_ok (snd (grub_error_pop st))"
  by (auto simp: err_ok_def grub_error_pop_def Let_def split: prod.splits)

lemma err_ok_print_active [inv_intros]: "err_ok st \<Longrightarrow> err_ok (print_active st)"
  by (simp add: err_ok_def print_active_def)

lemma pending_push:
  assumes "err_ok st"
  shows "pending_errors (grub_error_push st) =
    (if grub_error_stack_pos st < GRUB_ERROR_STACK_SIZE
     then (GRUB_ERR_NONE, grub_errmsg st) # pending_errors st
     else (GRUB_ERR_NONE, grub_errmsg st) # tl (pending_errors st))"
  using assms by (simp add: err_ok_def pending_errors_def grub_error_push_def take_Suc_conv_app_nth)

lemma pending_pop:
  assumes "err_ok st" and "grub_error_stack_pos st \<noteq> 0"
  shows "pending_errors (snd (grub_error_pop st)) = tl (pending_errors st)"
proof -
  obtain p where p: "grub_error_stack_pos st = Suc p" using assms(2) by (cases "grub_error_stack_pos st") auto
  show ?thesis using assms(1) p
    by (auto simp: err_ok_def pending_errors_def grub_error_pop_def take_Suc_conv_app_nth
        split: prod.splits)
qed

definition error_line :: "grub_err_t \<times> string \<Rightarrow> string list" where
  "error_line e = (if fst e = GRUB_ERR_NONE then [] else [''error: '' @ snd e @ ''.'' @ [CHR 0x0A]])"

lemma print_active_out: "err_out (print_active st) = err_out st @ error_line (grub_errno st, grub_errmsg st)"
  by (simp add: print_active_def error_line_def)

lemma print_active_keeps [simp]:
  "grub_errno (print_active st) = grub_errno st" "grub_errmsg (print_active st) = grub_errmsg st"
  "grub_error_stack_items (print_active st) = grub_error_stack_items st"
  "grub_error_stack_assert (print_active st) = grub_error_stack_assert st"
  by (simp_all add: print_active_def)

lemma print_active_pending [simp]: "pending_errors (print_active st) = pending_errors st"
  by (simp add: pending_errors_def)

lemma pop_keeps [simp]:
  "err_out (snd (grub_error_pop st)) = err_out st"
  "grub_error_stack_assert (snd (grub_error_pop st)) = grub_error_stack_assert st"
  by (auto simp: grub_error_pop_def Let_def split: prod.splits)

lemma pop_more: "fst (grub_error_pop st) \<longleftrightarrow> grub_error_stack_pos st \<noteq> 0"
  by (auto simp: grub_error_pop_def Let_def split: prod.splits)

lemma print_errors_step:
  "print_errors st = (let r = grub_error_pop (print_active st)
     in if fst r then print_errors (snd r) else snd r)"
  by (subst print_errors.simps) (simp add: Let_def split_beta)

lemma print_errors_correct:
  assumes "err_ok st"
  shows "err_out (print_errors st) = err_out st @ concat (map error_line (pending_errors st))
    \<and> grub_errno (print_errors st) = GRUB_ERR_NONE \<and> grub_error_stack_pos (print_errors st) = 0
    \<and> grub_error_stack_assert (print_errors st) = grub_error_stack_assert st"
  using assms
proof (induction "grub_error_stack_pos st" arbitrary: st rule: less_induct)
  case less
  define st' where "st' = snd (grub_error_pop (print_active st))"
  have ok': "err_ok st'" using less.prems unfolding st'_def by (intro inv_intros)
  show ?case
  proof (cases "grub_error_stack_pos st = 0")
    case True
    then show ?thesis
      by (subst (1 2 3 4) print_errors_step)
        (simp add: grub_error_pop_def print_active_out pending_errors_def)
  next
    case False
    have step: "print_errors st = print_errors st'"
      by (subst print_errors_step) (simp add: pop_more False st'_def Let_def)
    have pos: "grub_error_stack_pos st' < grub_error_stack_pos st"
      using grub_error_pop_pos[of "print_active st"] False by (simp add: pop_more st'_def)
    have pend: "pending_errors st' = tl (pending_errors st)"
      using pending_pop[of "print_active st"] less.prems False err_ok_print_active[of st]
      by (simp add: st'_def)
    have "pending_errors st = (grub_errno st, grub_errmsg st) # tl (pending_errors st)"
      by (simp add: pending_errors_def)
    then have "concat (map error_line (pending_errors st))
      = error_line (grub_errno st, grub_errmsg st) @ concat (map error_line (pending_errors st'))"
      unfolding pend by (metis concat.simps(2) list.simps(9))
    then show ?thesis
      using less.hyps[OF pos ok'] by (simp add: step) (simp add: st'_def print_active_out)
  qed
qed

text \<open>
  C33. Reporting errors: \<open>grub_print_error\<close> prints the active error and then every saved one,
  newest first, says so when an error was lost because the stack was full, and leaves no error
  behind.
\<close>
theorem grub_print_error_reports:
  assumes "err_ok st"
  shows "err_out (grub_print_error st) = err_out st @ concat (map error_line (pending_errors st))
      @ (if grub_error_stack_assert st
         then [''assert: error stack overflow detected!'' @ [CHR 0x0A]] else [])
    \<and> pending_errors (grub_print_error st) = [(GRUB_ERR_NONE, grub_errmsg (print_errors st))]
    \<and> \<not> grub_error_stack_assert (grub_print_error st)"
  using print_errors_correct[OF assms] by (simp add: grub_print_error_def pending_errors_def)

definition saved_two :: err_state where
  "saved_two = \<lparr>grub_errno = GRUB_ERR_IO, grub_errmsg = ''io'', grub_err_printed_errors = 0,
     grub_error_stack_items = (GRUB_ERR_BAD_FS, ''bad fs'') # replicate 9 (GRUB_ERR_NONE, ''''),
     grub_error_stack_pos = 1, grub_error_stack_assert = False, err_out = []\<rparr>"

theorem grub_print_error_reports_witness:
  "err_out (grub_print_error saved_two) =
     [''error: io.'' @ [CHR 0x0A], ''error: bad fs.'' @ [CHR 0x0A]]"
  using grub_print_error_reports[of saved_two]
  by (simp add: saved_two_def err_ok_def pending_errors_def error_line_def)

text \<open>Saving an error and popping it gives it back, unless the stack was full.\<close>
lemma push_pop:
  assumes "err_ok st" "grub_error_stack_pos st < GRUB_ERROR_STACK_SIZE"
  shows "fst (grub_error_pop (grub_error_push st))"
    "pending_errors (snd (grub_error_pop (grub_error_push st))) = pending_errors st"
  using assms pending_pop[of "grub_error_push st"] err_ok_push[OF assms(1)]
  by (simp_all add: pop_more pending_push) (simp_all add: grub_error_push_def)

end
