(* ===== verification/GrubMemory.thy ===== *)
theory GrubMemory
  imports Prelude
begin

text \<open>
  The byte-moving routines of the boot loader's \<open>kern/misc.c\<close>.  Memory is a function from 32-bit
  addresses to bytes; a word is four bytes, stored low byte first.  Lengths count down and are
  natural numbers.
\<close>

unbundle bit_operations_syntax

type_synonym mem = "u32 \<Rightarrow> u8"


section \<open>Moving and filling memory\<close>

primrec copy_forward :: "nat \<Rightarrow> u32 \<Rightarrow> u32 \<Rightarrow> mem \<Rightarrow> mem" where
  "copy_forward 0 d s m = m"
| "copy_forward (Suc n) d s m = copy_forward n (d + 1) (s + 1) (m(d := m s))"

primrec copy_backward :: "nat \<Rightarrow> u32 \<Rightarrow> u32 \<Rightarrow> mem \<Rightarrow> mem" where
  "copy_backward 0 d s m = m"
| "copy_backward (Suc n) d s m = copy_backward n (d - 1) (s - 1) (m(d - 1 := m (s - 1)))"

definition grub_memmove :: "u32 \<Rightarrow> u32 \<Rightarrow> nat \<Rightarrow> mem \<Rightarrow> mem" where
  "grub_memmove dest src n m =
    (if dest < src then copy_forward n dest src m
     else copy_backward n (dest + of_nat n) (src + of_nat n) m)"

text \<open>A word is read completely before it is written.\<close>

definition copy_word :: "u32 \<Rightarrow> u32 \<Rightarrow> mem \<Rightarrow> mem" where
  "copy_word d s m = m(d := m s, d + 1 := m (s + 1), d + 2 := m (s + 2), d + 3 := m (s + 3))"

fun memcpy_aligned :: "u32 \<Rightarrow> u32 \<Rightarrow> nat \<Rightarrow> mem \<Rightarrow> mem" where
  "memcpy_aligned d s n m =
    (if 4 \<le> n then memcpy_aligned (d + 4) (s + 4) (n - 4) (copy_word d s m)
     else copy_forward n d s m)"

declare memcpy_aligned.simps [simp del]

definition grub_memcpy :: "u32 \<Rightarrow> u32 \<Rightarrow> nat \<Rightarrow> mem \<Rightarrow> mem" where
  "grub_memcpy dest src n m =
    (if dest AND 3 = 0 \<and> src AND 3 = 0 \<and> 4 \<le> n then memcpy_aligned dest src n m
     else grub_memmove dest src n m)"

definition memset_pattern :: "u8 \<Rightarrow> u32" where
  "memset_pattern b = fold (\<lambda>i p. p OR push_bit (8 * i) (ucast b)) [0..<4] 0"

definition store_word :: "u32 \<Rightarrow> u32 \<Rightarrow> mem \<Rightarrow> mem" where
  "store_word p w m = m(p := ucast w, p + 1 := ucast (drop_bit 8 w),
     p + 2 := ucast (drop_bit 16 w), p + 3 := ucast (drop_bit 24 w))"

primrec memset_bytes :: "nat \<Rightarrow> u32 \<Rightarrow> u8 \<Rightarrow> mem \<Rightarrow> mem" where
  "memset_bytes 0 p b m = m"
| "memset_bytes (Suc len) p b m = memset_bytes len (p + 1) b (m(p := b))"

fun memset_align :: "nat \<Rightarrow> u32 \<Rightarrow> u8 \<Rightarrow> mem \<Rightarrow> nat \<times> u32 \<times> mem" where
  "memset_align len p b m =
    (if 0 < len \<and> p AND 3 \<noteq> 0 then memset_align (len - 1) (p + 1) b (m(p := b))
     else (len, p, m))"

fun memset_words :: "nat \<Rightarrow> u32 \<Rightarrow> u32 \<Rightarrow> mem \<Rightarrow> nat \<times> u32 \<times> mem" where
  "memset_words len p w m =
    (if 4 \<le> len then memset_words (len - 4) (p + 4) w (store_word p w m) else (len, p, m))"

declare memset_align.simps [simp del] memset_words.simps [simp del]

definition grub_memset :: "u32 \<Rightarrow> int \<Rightarrow> nat \<Rightarrow> mem \<Rightarrow> mem" where
  "grub_memset s c len m =
    (let b = of_int c;
         (len, p, m) =
           (if 12 \<le> len
            then (let (len, p, m) = memset_align len s b m
                  in memset_words len p (memset_pattern b) m)
            else (len, s, m))
     in memset_bytes len p b m)"

fun grub_memcmp :: "mem \<Rightarrow> u32 \<Rightarrow> u32 \<Rightarrow> nat \<Rightarrow> int" where
  "grub_memcmp m s1 s2 0 = 0"
| "grub_memcmp m s1 s2 (Suc n) =
    (if m s1 \<noteq> m s2 then uint (m s1) - uint (m s2) else grub_memcmp m (s1 + 1) (s2 + 1) n)"


section \<open>The memory routines are right\<close>

text \<open>The memory after copying \<open>n\<close> bytes, all of them as they were before.\<close>

definition copied :: "u32 \<Rightarrow> u32 \<Rightarrow> nat \<Rightarrow> mem \<Rightarrow> mem" where
  "copied d s n m = (\<lambda>a. if unat (a - d) < n then m (s + (a - d)) else m a)"

definition filled :: "u32 \<Rightarrow> u8 \<Rightarrow> nat \<Rightarrow> mem \<Rightarrow> mem" where
  "filled p b n m = (\<lambda>a. if unat (a - p) < n then b else m a)"

text \<open>The \<open>n\<close> bytes from \<open>p\<close> do not wrap around the end of the address space.\<close>

definition in_space :: "u32 \<Rightarrow> nat \<Rightarrow> bool" where
  "in_space p n = (unat p + n \<le> 2 ^ 32)"

lemma unat_pred: "x \<noteq> (0::u32) \<Longrightarrow> unat (x - 1) = unat x - 1"
  by (simp add: unat_minus_one)

lemma unat_offset_Suc:
  fixes a d :: u32
  assumes "a \<noteq> d"
  shows "unat (a - (d + 1)) < n \<longleftrightarrow> unat (a - d) < Suc n"
proof -
  have "a - d \<noteq> 0" using assms by simp
  then have "0 < unat (a - d)" "unat (a - (d + 1)) = unat (a - d) - 1"
    using unat_pred[of "a - d"] by (simp_all add: unat_gt_0 diff_diff_eq)
  then show ?thesis by auto
qed

lemma unat_add_in_space: "in_space p n \<Longrightarrow> unat x < n \<Longrightarrow> unat (p + x) = unat p + unat x"
  by (simp add: in_space_def unat_word_ariths)

lemma copy_forward_copied:
  assumes "d < s \<or> unat s + n \<le> unat d" "in_space s n" "in_space d n"
  shows "copy_forward n d s m = copied d s n m"
  using assms
proof (induction n arbitrary: d s m)
  case 0
  then show ?case by (simp add: copied_def)
next
  case (Suc n)
  show ?case
  proof (cases "n = 0")
    case True
    then show ?thesis by (auto simp: copied_def unat_eq_0)
  next
    case False
    have s1: "unat (s + 1) = unat s + 1" and d1: "unat (d + 1) = unat d + 1"
      using Suc.prems False by (simp_all add: in_space_def unat_word_ariths word_less_nat_alt)
    have ih: "copy_forward n (d + 1) (s + 1) (m(d := m s)) = copied (d + 1) (s + 1) n (m(d := m s))"
      by (rule Suc.IH) (use Suc.prems s1 d1 in \<open>auto simp: in_space_def word_less_nat_alt\<close>)
    have "copied (d + 1) (s + 1) n (m(d := m s)) a = copied d s (Suc n) m a" for a
    proof (cases "a = d")
      case True
      have "unat (- 1 :: u32) = 2 ^ 32 - 1" by (simp add: unsigned_minus_1_eq_mask mask_eq_exp_minus_1)
      then have "\<not> unat (d - (d + 1)) < n" using Suc.prems by (simp add: in_space_def)
      then show ?thesis using True by (simp add: copied_def)
    next
      case False
      have "s + (a - d) \<noteq> d" if "unat (a - d) < Suc n"
      proof
        assume "s + (a - d) = d"
        then have "unat d = unat s + unat (a - d)"
          using unat_add_in_space[OF Suc.prems(2) that] by (simp only:)
        then show False using Suc.prems(1) that by (auto simp: word_less_nat_alt)
      qed
      moreover have "s + 1 + (a - (d + 1)) = s + (a - d)" by simp
      ultimately show ?thesis unfolding copied_def unat_offset_Suc[OF False] using False by simp
    qed
    then show ?thesis using ih by auto
  qed
qed

lemma copy_backward_copied:
  assumes "s \<le> d" "in_space d n"
  shows "copy_backward n (d + of_nat n) (s + of_nat n) m = copied d s n m"
  using assms(2)
proof (induction n arbitrary: m)
  case 0
  then show ?case by (simp add: copied_def)
next
  case (Suc n)
  have n: "unat (of_nat n :: u32) = n" using Suc.prems by (simp add: in_space_def)
  have ih: "copy_backward n (d + of_nat n) (s + of_nat n) (m(d + of_nat n := m (s + of_nat n)))
    = copied d s n (m(d + of_nat n := m (s + of_nat n)))"
    by (rule Suc.IH) (use Suc.prems in \<open>simp add: in_space_def\<close>)
  have ins: "in_space s (Suc n)" using Suc.prems assms(1) by (simp add: in_space_def word_le_nat_alt)
  have "copied d s n (m(d + of_nat n := m (s + of_nat n))) a = copied d s (Suc n) m a" for a
  proof (cases "a = d + of_nat n")
    case True
    then show ?thesis by (simp add: copied_def n)
  next
    case False
    then have "unat (a - d) \<noteq> n" using n by (metis add.commute diff_add_cancel unsigned_word_eqI)
    moreover have "s + (a - d) \<noteq> d + of_nat n" if "unat (a - d) < n"
    proof
      assume "s + (a - d) = d + of_nat n"
      then have "unat s + unat (a - d) = unat d + n"
        using unat_add_in_space[OF ins less_SucI[OF that]]
          unat_add_in_space[OF Suc.prems, of "of_nat n"] n by (simp only: less_Suc_eq simp_thms)
      then show False using that assms(1) by (simp add: word_le_nat_alt)
    qed
    ultimately show ?thesis using False by (auto simp: copied_def less_Suc_eq)
  qed
  then show ?case using ih by (auto simp: algebra_simps)
qed

lemma grub_memmove_copied:
  assumes "in_space dest n" "in_space src n"
  shows "grub_memmove dest src n m = copied dest src n m"
  using assms copy_forward_copied[of dest src n m] copy_backward_copied[of src dest n m]
  by (simp add: grub_memmove_def)

lemma copy_forward_add:
  "copy_forward (k + n) d s m = copy_forward n (d + of_nat k) (s + of_nat k) (copy_forward k d s m)"
  by (induction k arbitrary: d s m) (simp_all add: algebra_simps)

definition apart :: "u32 \<Rightarrow> u32 \<Rightarrow> nat \<Rightarrow> bool" where
  "apart d s n = (in_space d n \<and> in_space s n \<and> (unat d + n \<le> unat s \<or> unat s + n \<le> unat d))"

lemma apart_neq: "apart d s n \<Longrightarrow> i < n \<Longrightarrow> j < n \<Longrightarrow> d + of_nat i \<noteq> s + of_nat j"
proof
  assume *: "apart d s n" "i < n" "j < n" and eq: "d + of_nat i = s + of_nat j"
  have "unat (d + of_nat i) = unat d + i" "unat (s + of_nat j) = unat s + j"
    using * by (simp_all add: apart_def in_space_def unat_word_ariths)
  then show False using * eq by (auto simp: apart_def)
qed

lemma copy_word_forward:
  assumes "apart d s n" "4 \<le> n"
  shows "copy_word d s m = copy_forward 4 d s m"
proof -
  have ne: "d + of_nat i \<noteq> s + of_nat j" if "i < 4" "j < 4" for i j
    using apart_neq[OF assms(1)] assms(2) that by simp
  have "s + 1 \<noteq> d" "s + 2 \<noteq> d" "s + 2 \<noteq> d + 1" "s + 3 \<noteq> d" "s + 3 \<noteq> d + 1" "s + 3 \<noteq> d + 2"
    using ne[of 0 1] ne[of 0 2] ne[of 1 2] ne[of 0 3] ne[of 1 3] ne[of 2 3] by auto
  then show ?thesis by (simp add: copy_word_def numeral_eq_Suc add.assoc)
qed

lemma memcpy_aligned_forward: "apart d s n \<Longrightarrow> memcpy_aligned d s n m = copy_forward n d s m"
proof (induction d s n m rule: memcpy_aligned.induct)
  case (1 d s n m)
  show ?case
  proof (cases "4 \<le> n")
    case True
    have "apart (d + 4) (s + 4) (n - 4)"
    proof (cases "n = 4")
      case False
      then have "unat (d + 4) = unat d + 4" "unat (s + 4) = unat s + 4"
        using 1(2) True by (simp_all add: apart_def in_space_def unat_word_ariths)
      then show ?thesis using 1(2) True by (auto simp: apart_def in_space_def)
    qed (use unat_less[of "d + 4"] unat_less[of "s + 4"] in \<open>auto simp: apart_def in_space_def\<close>)
    from 1(1)[OF True this] show ?thesis
      using True copy_word_forward[OF 1(2) True] copy_forward_add[of 4 "n - 4" d s m]
      by (subst memcpy_aligned.simps) simp
  qed (simp add: memcpy_aligned.simps)
qed

lemma grub_memcpy_copied:
  assumes "apart dest src n"
  shows "grub_memcpy dest src n m = copied dest src n m"
  using assms grub_memmove_copied[of dest n src m] memcpy_aligned_forward[OF assms]
    copy_forward_copied[of dest src n m]
  by (cases "n = 0") (auto simp: grub_memcpy_def apart_def word_less_nat_alt copied_def)

lemma memset_bytes_add:
  "memset_bytes (k + n) p b m = memset_bytes n (p + of_nat k) b (memset_bytes k p b m)"
  by (induction k arbitrary: p m) (simp_all add: algebra_simps)

lemma store_pattern: "store_word p (memset_pattern b) m = memset_bytes 4 p b m"
proof -
  have "memset_pattern b = ucast b OR push_bit 8 (ucast b) OR push_bit 16 (ucast b)
     OR push_bit 24 (ucast b)"
    by (simp add: memset_pattern_def numeral_eq_Suc or.assoc)
  then have "ucast (memset_pattern b) = b" "ucast (drop_bit 8 (memset_pattern b)) = b"
    "ucast (drop_bit 16 (memset_pattern b)) = b" "ucast (drop_bit 24 (memset_pattern b)) = b"
    by (auto intro!: bit_word_eqI simp: bit_simps) (auto dest: bit_imp_le_length)
  then show ?thesis by (simp add: store_word_def numeral_eq_Suc add.assoc)
qed

lemma memset_align_bytes:
  "memset_align len p b m = (len', p', m') \<Longrightarrow> memset_bytes len' p' b m' = memset_bytes len p b m"
proof (induction len p b m rule: memset_align.induct)
  case (1 len p b m)
  show ?case
  proof (cases "0 < len \<and> p AND 3 \<noteq> 0")
    case True
    then have "memset_bytes len' p' b m' = memset_bytes (len - 1) (p + 1) b (m(p := b))"
      using 1 by (simp add: memset_align.simps[of len] fun_upd_def)
    then show ?thesis using True memset_bytes.simps(2)[of "len - 1" p b m] by simp
  qed (use 1(2) in \<open>auto simp: memset_align.simps[of len]\<close>)
qed

lemma memset_words_bytes:
  "memset_words len p (memset_pattern b) m = (len', p', m') \<Longrightarrow>
   memset_bytes len' p' b m' = memset_bytes len p b m"
proof (induction len p "memset_pattern b" m rule: memset_words.induct)
  case (1 len p m)
  show ?case
  proof (cases "4 \<le> len")
    case True
    then have "memset_bytes len' p' b m'
      = memset_bytes (len - 4) (p + 4) b (store_word p (memset_pattern b) m)"
      using 1 by (simp add: memset_words.simps[of len])
    then show ?thesis using True memset_bytes_add[of 4 "len - 4" p b m] by (simp add: store_pattern)
  qed (use 1(2) in \<open>simp add: memset_words.simps[of len]\<close>)
qed

lemma grub_memset_bytes: "grub_memset s c len m = memset_bytes len s (of_int c) m"
  by (auto simp: grub_memset_def Let_def memset_align_bytes memset_words_bytes split: prod.split)

lemma memset_bytes_filled: "in_space p n \<Longrightarrow> memset_bytes n p b m = filled p b n m"
proof (induction n arbitrary: p m)
  case (Suc n)
  have "in_space (p + 1) n"
    using Suc.prems by (cases "n = 0") (auto simp: in_space_def unat_word_ariths less_imp_le)
  then have "memset_bytes (Suc n) p b m = filled (p + 1) b n (m(p := b))"
    using Suc.IH[of "p + 1" "m(p := b)"] by (simp only: memset_bytes.simps)
  moreover have "filled (p + 1) b n (m(p := b)) a = filled p b (Suc n) m a" for a
    by (cases "a = p") (simp_all add: filled_def unat_offset_Suc)
  ultimately show ?case by auto
qed (simp add: filled_def)

text \<open>
  C26. The memory routines: \<open>grub_memmove\<close> copies correctly even when the two ranges overlap,
  \<open>grub_memcpy\<close> with its word-wise copy agrees when they do not, and \<open>grub_memset\<close> with its
  word-wise fill sets exactly the given bytes.
\<close>
theorem memory_routines_correct:
  assumes "in_space dest n" "in_space src n"
  shows "grub_memmove dest src n m = copied dest src n m
    \<and> (apart dest src n \<longrightarrow> grub_memcpy dest src n m = copied dest src n m)
    \<and> grub_memset dest c n m = filled dest (of_int c) n m"
  using assms grub_memmove_copied grub_memcpy_copied memset_bytes_filled
  by (simp add: grub_memset_bytes)

theorem memory_routines_correct_witness:
  "grub_memmove 0x1001 0x1000 3 (\<lambda>a. ucast a) 0x1003 = 0x02
   \<and> grub_memcpy 0x2000 0x1000 5 (\<lambda>a. ucast a) 0x2004 = 0x04
   \<and> grub_memset 0x1001 0x1FF 15 (\<lambda>a. ucast a) 0x100F = 0xFF"
  using memory_routines_correct[of "0x1001" 3 "0x1000" "\<lambda>a. ucast a"]
    memory_routines_correct[of "0x2000" 5 "0x1000" "\<lambda>a. ucast a"]
    memory_routines_correct[of "0x1001" 15 "0x1001" "\<lambda>a. ucast a" "0x1FF"]
  by (simp add: in_space_def apart_def copied_def filled_def)

end
