(* ===== verification/GrubString.thy ===== *)
theory GrubString
  imports Prelude "HOL-Library.Sublist" "HOL-Library.List_Lexorder"
begin

text \<open>
  The string routines of the boot loader: \<open>kern/misc.c\<close> and the inline functions of
  \<open>include/grub/misc.h\<close>.  A C string is the list of its characters before the terminating NUL; a
  pointer into one is the list of what follows, or an index.  A \<open>char\<close> is signed when it becomes
  an \<open>int\<close> (\<open>schar\<close>) and unsigned after a cast to \<open>grub_uint8_t\<close> (\<open>uchar\<close>).
\<close>


section \<open>Character classes\<close>

definition grub_isspace :: "int \<Rightarrow> bool" where
  "grub_isspace c = (c = 10 \<or> c = 13 \<or> c = 32 \<or> c = 9)"

definition grub_isprint :: "int \<Rightarrow> bool" where
  "grub_isprint c = (32 \<le> c \<and> c \<le> 126)"

definition grub_iscntrl :: "int \<Rightarrow> bool" where
  "grub_iscntrl c = (0 \<le> c \<and> c \<le> 0x1F \<or> c = 0x7F)"

definition grub_islower :: "int \<Rightarrow> bool" where
  "grub_islower c = (97 \<le> c \<and> c \<le> 122)"

definition grub_isupper :: "int \<Rightarrow> bool" where
  "grub_isupper c = (65 \<le> c \<and> c \<le> 90)"

definition grub_isalpha :: "int \<Rightarrow> bool" where
  "grub_isalpha c = (97 \<le> c \<and> c \<le> 122 \<or> 65 \<le> c \<and> c \<le> 90)"

definition grub_isgraph :: "int \<Rightarrow> bool" where
  "grub_isgraph c = (33 \<le> c \<and> c \<le> 126)"

definition grub_isdigit :: "int \<Rightarrow> bool" where
  "grub_isdigit c = (48 \<le> c \<and> c \<le> 57)"

definition grub_isxdigit :: "int \<Rightarrow> bool" where
  "grub_isxdigit c = (48 \<le> c \<and> c \<le> 57 \<or> 97 \<le> c \<and> c \<le> 102 \<or> 65 \<le> c \<and> c \<le> 70)"

definition grub_isalnum :: "int \<Rightarrow> bool" where
  "grub_isalnum c = (grub_isalpha c \<or> grub_isdigit c)"

definition grub_tolower :: "int \<Rightarrow> int" where
  "grub_tolower c = (if 65 \<le> c \<and> c \<le> 90 then c - 65 + 97 else c)"

definition grub_toupper :: "int \<Rightarrow> int" where
  "grub_toupper c = (if 97 \<le> c \<and> c \<le> 122 then c - 97 + 65 else c)"

text \<open>Space, comma, semicolon, bar and ampersand.\<close>

definition grub_iswordseparator :: "int \<Rightarrow> bool" where
  "grub_iswordseparator c = (grub_isspace c \<or> c = 44 \<or> c = 59 \<or> c = 124 \<or> c = 38)"


section \<open>Comparison\<close>

abbreviation ubyte :: "char \<Rightarrow> int" where "ubyte c \<equiv> int (uchar c)"

fun grub_strcmp :: "string \<Rightarrow> string \<Rightarrow> int" where
  "grub_strcmp (a # s1) (b # s2) =
    (if a \<noteq> b then ubyte a - ubyte b else grub_strcmp s1 s2)"
| "grub_strcmp s1 s2 = ubyte (cstr_at s1 0) - ubyte (cstr_at s2 0)"

fun strncmp_loop :: "string \<Rightarrow> string \<Rightarrow> nat \<Rightarrow> int" where
  "strncmp_loop (a # s1) (b # s2) n =
    (if n - 1 = 0 \<or> a \<noteq> b then ubyte a - ubyte b else strncmp_loop s1 s2 (n - 1))"
| "strncmp_loop s1 s2 n = ubyte (cstr_at s1 0) - ubyte (cstr_at s2 0)"

definition grub_strncmp :: "string \<Rightarrow> string \<Rightarrow> nat \<Rightarrow> int" where
  "grub_strncmp s1 s2 n = (if n = 0 then 0 else strncmp_loop s1 s2 n)"

abbreviation lower_diff :: "char \<Rightarrow> char \<Rightarrow> int" where
  "lower_diff a b \<equiv> grub_tolower (ubyte a) - grub_tolower (ubyte b)"

fun grub_strcasecmp :: "string \<Rightarrow> string \<Rightarrow> int" where
  "grub_strcasecmp (a # s1) (b # s2) =
    (if grub_tolower (ubyte a) \<noteq> grub_tolower (ubyte b) then lower_diff a b
     else grub_strcasecmp s1 s2)"
| "grub_strcasecmp s1 s2 = lower_diff (cstr_at s1 0) (cstr_at s2 0)"

fun strncasecmp_loop :: "string \<Rightarrow> string \<Rightarrow> nat \<Rightarrow> int" where
  "strncasecmp_loop (a # s1) (b # s2) n =
    (if n - 1 = 0 \<or> grub_tolower (ubyte a) \<noteq> grub_tolower (ubyte b) then lower_diff a b
     else strncasecmp_loop s1 s2 (n - 1))"
| "strncasecmp_loop s1 s2 n = lower_diff (cstr_at s1 0) (cstr_at s2 0)"

definition grub_strncasecmp :: "string \<Rightarrow> string \<Rightarrow> nat \<Rightarrow> int" where
  "grub_strncasecmp s1 s2 n = (if n = 0 then 0 else strncasecmp_loop s1 s2 n)"

text \<open>
  The UUID comparison skips the dashes of both strings at each step of the loop.  A string of
  dashes only ends the skipping at its terminator, where the loop compares once more and breaks
  or, when both strings are exhausted, steps past both terminators: the model stops there with
  \<open>None\<close>.
\<close>

abbreviation skip_dashes :: "string \<Rightarrow> string" where
  "skip_dashes \<equiv> dropWhile (\<lambda>c. c = CHR ''-'')"

function uuidcasecmp_loop :: "string \<Rightarrow> string \<Rightarrow> nat \<Rightarrow> int option" where
  "uuidcasecmp_loop u1 u2 n =
    (if u1 \<noteq> [] \<and> u2 \<noteq> [] \<and> n - 1 \<noteq> 0
     then (let v1 = skip_dashes u1; v2 = skip_dashes u2; a = cstr_at v1 0; b = cstr_at v2 0
           in if grub_tolower (ubyte a) \<noteq> grub_tolower (ubyte b) then Some (lower_diff a b)
              else if v1 = [] \<or> v2 = [] then None
              else uuidcasecmp_loop (tl v1) (tl v2) (n - 1))
     else Some (lower_diff (cstr_at u1 0) (cstr_at u2 0)))"
  by pat_completeness auto
termination uuidcasecmp_loop by (relation "measure (\<lambda>(u1, u2, n). n)") auto

declare uuidcasecmp_loop.simps [simp del]

definition grub_uuidcasecmp :: "string \<Rightarrow> string \<Rightarrow> nat \<Rightarrow> int option" where
  "grub_uuidcasecmp u1 u2 n = (if n = 0 then Some 0 else uuidcasecmp_loop u1 u2 n)"

section \<open>Search\<close>

fun grub_strchr :: "string \<Rightarrow> int \<Rightarrow> nat option" where
  "grub_strchr [] c = (if c = 0 then Some 0 else None)"
| "grub_strchr (a # s) c = (if schar a = c then Some 0 else map_option Suc (grub_strchr s c))"

fun strrchr_loop :: "string \<Rightarrow> int \<Rightarrow> nat \<Rightarrow> nat option \<Rightarrow> nat option" where
  "strrchr_loop [] c i p = (if c = 0 then Some i else p)"
| "strrchr_loop (a # s) c i p = strrchr_loop s c (Suc i) (if schar a = c then Some i else p)"

definition grub_strrchr :: "string \<Rightarrow> int \<Rightarrow> nat option" where
  "grub_strrchr s c = strrchr_loop s c 0 None"

text \<open>
  The inner loop of \<open>grub_strstr\<close> ends in one of three ways: the needle matched, the haystack
  was exhausted, which ends the whole search, or a character differed.
\<close>

datatype probe = Matched | Exhausted | Differs

fun strstr_probe :: "string \<Rightarrow> string \<Rightarrow> probe" where
  "strstr_probe rh [] = Matched"
| "strstr_probe [] (b # rn) = Exhausted"
| "strstr_probe (a # rh) (b # rn) = (if a \<noteq> b then Differs else strstr_probe rh rn)"

fun strstr_loop :: "string \<Rightarrow> char \<Rightarrow> string \<Rightarrow> nat option" where
  "strstr_loop [] b n = None"
| "strstr_loop (a # h) b n =
    (if a = b
     then (case strstr_probe h n of
             Matched \<Rightarrow> Some 0
           | Exhausted \<Rightarrow> None
           | Differs \<Rightarrow> map_option Suc (strstr_loop h b n))
     else map_option Suc (strstr_loop h b n))"

fun grub_strstr :: "string \<Rightarrow> string \<Rightarrow> nat option" where
  "grub_strstr h [] = Some 0"
| "grub_strstr h (b # n) = strstr_loop h b n"


section \<open>Words and tokens\<close>

abbreviation wsep :: "char \<Rightarrow> bool" where "wsep c \<equiv> grub_iswordseparator (schar c)"

text \<open>A pointer stands at the end of a word: at a separator or at the terminator.\<close>

definition word_end :: "string \<Rightarrow> bool" where
  "word_end s = (case s of [] \<Rightarrow> True | c # _ \<Rightarrow> wsep c)"

fun strword_crawl :: "string \<Rightarrow> string \<Rightarrow> string \<times> string" where
  "strword_crawl (a # h) (b # n) = (if \<not> wsep a \<and> a = b then strword_crawl h n else (a # h, b # n))"
| "strword_crawl h n = (h, n)"

lemma strword_crawl_length: "length (fst (strword_crawl h n)) \<le> length h"
  by (induction h n rule: strword_crawl.induct[case_names both left right]) auto

lemma dropWhile_shorter: "P (hd xs) \<Longrightarrow> xs \<noteq> [] \<Longrightarrow> length (dropWhile P xs) < length xs"
  by (cases xs) (auto simp: le_imp_less_Suc length_dropWhile_le)

lemma next_word_shorter:
  assumes "h \<noteq> []" "length h' \<le> length h" "h' = h \<or> length h' < length h"
  shows "length (dropWhile wsep (dropWhile (\<lambda>c. \<not> wsep c) h')) < length h"
proof (cases "h' = h \<and> wsep (hd h)")
  case True
  then have "dropWhile (\<lambda>c. \<not> wsep c) h' = h" using assms(1) by (cases h) auto
  then show ?thesis using True dropWhile_shorter[of wsep h] assms(1) by simp
next
  case False
  then have "length (dropWhile (\<lambda>c. \<not> wsep c) h') < length h"
    using assms dropWhile_shorter[of "\<lambda>c. \<not> wsep c" h] length_dropWhile_le[of "\<lambda>c. \<not> wsep c" h']
    by auto
  then show ?thesis using length_dropWhile_le le_less_trans by blast
qed

lemma strword_crawl_cases: "fst (strword_crawl h n) = h \<or> length (fst (strword_crawl h n)) < length h"
  by (cases "(h, n)" rule: strword_crawl.cases)
    (auto intro: le_less_trans[OF strword_crawl_length])

function strword_loop :: "string \<Rightarrow> string \<Rightarrow> bool" where
  "strword_loop h needle =
    (if h = [] then False
     else let (h', n_pos) = strword_crawl h needle
          in if word_end h' \<and> word_end n_pos then True
             else strword_loop (dropWhile wsep (dropWhile (\<lambda>c. \<not> wsep c) h')) needle)"
  by pat_completeness auto
termination strword_loop
proof (relation "measure (\<lambda>(h, n). length h)")
  fix h needle h' n_pos and x
  assume "h \<noteq> []" "x = strword_crawl h needle" "(h', n_pos) = x"
  then have "h' = fst (strword_crawl h needle)" by (metis fst_conv)
  then show "((dropWhile wsep (dropWhile (\<lambda>c. \<not> wsep c) h'), needle), (h, needle))
      \<in> measure (\<lambda>(h, n). length h)"
    using next_word_shorter[OF \<open>h \<noteq> []\<close> strword_crawl_length strword_crawl_cases] by simp
qed simp

declare strword_loop.simps [simp del]

definition grub_strword :: "string \<Rightarrow> string \<Rightarrow> bool" where
  "grub_strword haystack needle = strword_loop (dropWhile wsep haystack) needle"

text \<open>
  \<open>grub_strtok_r\<close> cuts the token off by overwriting the delimiter with NUL: the token and the
  saved pointer, right after the delimiter or at the terminator, are the two parts.
\<close>

definition grub_strtok_r :: "string option \<Rightarrow> string \<Rightarrow> string \<Rightarrow> string option \<times> string" where
  "grub_strtok_r s delim save_ptr =
    (let s = (case s of None \<Rightarrow> save_ptr | Some s \<Rightarrow> s);
         s = dropWhile (\<lambda>c. c \<in> set delim) s
     in if s = [] then (None, s)
        else (let token = takeWhile (\<lambda>c. c \<notin> set delim) s; s = dropWhile (\<lambda>c. c \<notin> set delim) s
              in (Some token, drop 1 s)))"

text \<open>Calling it again and again, as its callers do.\<close>

lemma grub_strtok_r_shorter:
  "grub_strtok_r None delim s = (Some t, s') \<Longrightarrow> length s' < length s"
proof -
  let ?s = "dropWhile (\<lambda>c. c \<in> set delim) s"
  assume a: "grub_strtok_r None delim s = (Some t, s')"
  then have ne: "?s \<noteq> []" by (auto simp: grub_strtok_r_def Let_def split: if_splits)
  then have hd: "hd ?s \<notin> set delim" using hd_dropWhile[OF ne] by simp
  have "length s' < length ?s"
    using a ne hd dropWhile_shorter[of "\<lambda>c. c \<notin> set delim" ?s]
    by (simp only: grub_strtok_r_def Let_def option.case if_False prod.inject option.inject) auto
  then show ?thesis using length_dropWhile_le[of "\<lambda>c. c \<in> set delim" s] by simp
qed

function strtok_tokens :: "string \<Rightarrow> string \<Rightarrow> string list" where
  "strtok_tokens delim s =
    (case grub_strtok_r None delim s of
       (None, _) \<Rightarrow> []
     | (Some t, s') \<Rightarrow> t # strtok_tokens delim s')"
  by pat_completeness auto
termination strtok_tokens
  by (relation "measure (\<lambda>(delim, s). length s)") (auto intro: grub_strtok_r_shorter[OF sym])

declare strtok_tokens.simps [simp del]


section \<open>Comparison is lexicographic\<close>

lemma uchar_NUL [simp]: "uchar NUL = 0"
  by simp

lemma uchar_pos [simp]: "0 < uchar c \<longleftrightarrow> c \<noteq> NUL"
  by (metis gr0I less_irrefl uchar_eq_0)

lemma tolower_0 [simp]: "grub_tolower 0 = 0"
  by (simp add: grub_tolower_def)

lemma strcmp_order:
  assumes "is_cstr s1" "is_cstr s2"
  shows "(grub_strcmp s1 s2 = 0 \<longleftrightarrow> s1 = s2)
    \<and> (grub_strcmp s1 s2 < 0 \<longleftrightarrow> map uchar s1 < map uchar s2)"
  using assms
proof (induction s1 s2 rule: grub_strcmp.induct[case_names both left right])
  case (both a s1 b s2)
  then show ?case by (auto simp: is_cstr_def)
next
  case (left s2)
  then show ?case by (cases s2) (auto simp: cstr_at_def is_cstr_def)
next
  case (right s1)
  then show ?case by (cases s1) (auto simp: cstr_at_def is_cstr_def)
qed

lemma strncmp_take:
  "n \<noteq> 0 \<Longrightarrow> strncmp_loop s1 s2 n = grub_strcmp (take n s1) (take n s2)"
proof (induction s1 s2 n rule: strncmp_loop.induct[case_names both left right])
  case (both a s1 b s2 n)
  then obtain k where n: "n = Suc k" by (cases n) auto
  show ?case
  proof (cases k)
    case 0
    then show ?thesis using n by (simp add: cstr_at_def)
  next
    case (Suc j)
    then show ?thesis using both n by auto
  qed
next
  case (left s2 n)
  then show ?case by (cases s2; cases n) (auto simp: cstr_at_def)
next
  case (right s1 n)
  then show ?case by (cases s1; cases n) (auto simp: cstr_at_def)
qed

definition lower_char :: "char \<Rightarrow> char" where
  "lower_char c = char_of (nat (grub_tolower (ubyte c)))"

lemma ubyte_lower: "ubyte (lower_char c) = grub_tolower (ubyte c)"
proof -
  have "grub_tolower (ubyte c) < 256" "0 \<le> grub_tolower (ubyte c)"
    using uchar_less[of c] by (auto simp: grub_tolower_def)
  then show ?thesis by (simp add: lower_char_def uchar_def)
qed

lemma lower_char_eq: "lower_char a = lower_char b \<longleftrightarrow> grub_tolower (ubyte a) = grub_tolower (ubyte b)"
  by (metis ubyte_lower uchar_inject of_nat_eq_iff)

lemma lower_NUL [simp]: "lower_char NUL = NUL"
  using ubyte_lower[of NUL] by simp

lemma lower_cstr_at: "cstr_at (map lower_char s) i = lower_char (cstr_at s i)"
  by (simp add: cstr_at_def)

lemma strcasecmp_lower: "grub_strcasecmp s1 s2 = grub_strcmp (map lower_char s1) (map lower_char s2)"
  by (induction s1 s2 rule: grub_strcasecmp.induct)
    (auto simp: ubyte_lower lower_char_eq cstr_at_def)

lemma strncasecmp_lower: "strncasecmp_loop s1 s2 n = strncmp_loop (map lower_char s1) (map lower_char s2) n"
  by (induction s1 s2 n rule: strncasecmp_loop.induct)
    (auto simp: ubyte_lower lower_char_eq cstr_at_def)

text \<open>
  C34. The comparisons order strings as lists of unsigned bytes: \<open>grub_strcmp\<close> is zero exactly on
  equal strings and negative exactly when the first is smaller, \<open>grub_strncmp\<close> compares the
  first \<open>n\<close> characters, and the case-insensitive ones compare the strings in lower case.
\<close>
theorem string_comparison_correct:
  assumes "is_cstr s1" "is_cstr s2"
  shows "(grub_strcmp s1 s2 = 0 \<longleftrightarrow> s1 = s2)
    \<and> (grub_strcmp s1 s2 < 0 \<longleftrightarrow> map uchar s1 < map uchar s2)
    \<and> grub_strncmp s1 s2 n = (if n = 0 then 0 else grub_strcmp (take n s1) (take n s2))
    \<and> grub_strcasecmp s1 s2 = grub_strcmp (map lower_char s1) (map lower_char s2)
    \<and> grub_strncasecmp s1 s2 n = grub_strncmp (map lower_char s1) (map lower_char s2) n"
  using strcmp_order[OF assms]
  by (simp add: grub_strncmp_def grub_strncasecmp_def strncmp_take strcasecmp_lower strncasecmp_lower)

theorem string_comparison_correct_witness:
  "grub_strcmp ''menu'' ''menu'' = 0 \<and> grub_strncasecmp ''HD0,1'' ''hd0,2'' 4 = 0
   \<and> grub_strcmp ''abc'' ''abd'' < 0"
  using string_comparison_correct[of "''menu''" "''menu''"]
    string_comparison_correct[of "''HD0,1''" "''hd0,2''" 4]
    string_comparison_correct[of "''abc''" "''abd''"]
  by (simp add: is_cstr_def lower_char_def grub_tolower_def uchar_def grub_strncmp_def)

text \<open>
  The UUID comparison does not ignore all dashes, as its comment promises: the character
  compared last is not skipped, and two strings that end in dashes make it run past both
  terminators.
\<close>
theorem uuidcasecmp_dashes:
  "grub_uuidcasecmp ''a-b'' ''ab'' 2 \<noteq> Some 0 \<and> grub_uuidcasecmp ''ab-'' ''ab'' 5 \<noteq> Some 0
   \<and> grub_uuidcasecmp ''ab-'' ''ab-'' 5 = None"
  by (simp add: grub_uuidcasecmp_def uuidcasecmp_loop.simps cstr_at_def grub_tolower_def uchar_def)


section \<open>Search finds the first occurrence\<close>

lemma probe_cases:
  "(strstr_probe h n = Matched \<longleftrightarrow> prefix n h)
   \<and> (strstr_probe h n = Exhausted \<longrightarrow> length h < length n)"
  by (induction h n rule: strstr_probe.induct) auto

lemma no_prefix_short: "length h < length n \<Longrightarrow> \<not> prefix n (drop j h)"
  by (metis drop_eq_Nil leD length_drop le_trans prefix_length_le diff_le_self)

definition first_at :: "string \<Rightarrow> string \<Rightarrow> nat \<Rightarrow> bool" where
  "first_at n h i \<longleftrightarrow> i \<le> length h \<and> prefix n (drop i h) \<and> (\<forall>j<i. \<not> prefix n (drop j h))"

lemma first_at_Cons:
  assumes "\<not> prefix n (a # h)"
  shows "first_at n (a # h) i \<longleftrightarrow> (\<exists>k. i = Suc k \<and> first_at n h k)"
  using assms by (cases i) (auto simp: first_at_def All_less_Suc2)

lemma strstr_loop_first:
  "(case strstr_loop h b n of
      None \<Rightarrow> \<forall>i. \<not> first_at (b # n) h i
    | Some i \<Rightarrow> first_at (b # n) h i)"
proof (induction h b n rule: strstr_loop.induct)
  case (1 b n)
  then show ?case by (simp add: first_at_def)
next
  case (2 a h b n)
  show ?case
  proof (cases "a = b \<and> prefix n h")
    case True
    then show ?thesis using probe_cases[of h n] by (auto simp: first_at_def)
  next
    case False
    then have np: "\<not> prefix (b # n) (a # h)" by auto
    show ?thesis
    proof (cases "a = b \<and> strstr_probe h n = Exhausted")
      case True
      then have "length (a # h) < length (b # n)" using probe_cases[of h n] by simp
      then show ?thesis using True no_prefix_short[of "a # h" "b # n"] by (simp add: first_at_def)
    next
      case other: False
      then have "strstr_loop (a # h) b n = map_option Suc (strstr_loop h b n)"
        using False probe_cases[of h n] by (auto split: probe.split)
      moreover have "case strstr_loop h b n of None \<Rightarrow> \<forall>i. \<not> first_at (b # n) h i
          | Some i \<Rightarrow> first_at (b # n) h i"
        using 2 other False probe_cases[of h n] by (cases "a = b"; cases "strstr_probe h n") auto
      ultimately show ?thesis using np by (auto simp: first_at_Cons split: option.splits)
    qed
  qed
qed

text \<open>
  \<open>grub_strstr\<close> finds the first occurrence of the needle, and returns NULL exactly when there
  is none.
\<close>
theorem grub_strstr_first:
  "grub_strstr h n = Some i \<longleftrightarrow> first_at n h i"
proof (cases n)
  case Nil
  then show ?thesis by (auto simp: first_at_def)
next
  case (Cons b m)
  have uniq: "i = j" if "first_at n h i" "first_at n h j" for i j
    using that by (auto simp: first_at_def) (metis linorder_neqE_nat)
  show ?thesis using strstr_loop_first[of b m h] uniq Cons by (auto split: option.splits)
qed


section \<open>Words and tokens\<close>

text \<open>The maximal non-empty pieces of a string between characters that satisfy \<open>P\<close>.\<close>

function fields :: "('a \<Rightarrow> bool) \<Rightarrow> 'a list \<Rightarrow> 'a list list" where
  "fields P s =
    (let s = dropWhile P s
     in if s = [] then [] else takeWhile (\<lambda>c. \<not> P c) s # fields P (dropWhile (\<lambda>c. \<not> P c) s))"
  by pat_completeness auto
termination fields
proof (relation "measure (\<lambda>(P, s). length s)")
  fix P :: "'a \<Rightarrow> bool" and s s' :: "'a list"
  assume s': "s' = dropWhile P s" "s' \<noteq> []"
  then have "\<not> P (hd s')" using hd_dropWhile[of P s] by simp
  then have "length (dropWhile (\<lambda>c. \<not> P c) s') < length s'"
    using s'(2) dropWhile_shorter[of "\<lambda>c. \<not> P c" s'] by simp
  also have "\<dots> \<le> length s" using s'(1) length_dropWhile_le[of P s] by simp
  finally show "((P, dropWhile (\<lambda>c. \<not> P c) s'), (P, s)) \<in> measure (\<lambda>(P, s). length s)" by simp
qed simp

declare fields.simps [simp del]

lemma fields_dropWhile [simp]: "fields P (dropWhile P s) = fields P s"
  by (subst (1 2) fields.simps) (simp add: dropWhile_idem)

lemma fields_word: "s \<noteq> [] \<Longrightarrow> \<not> P (hd s) \<Longrightarrow>
  fields P s = takeWhile (\<lambda>c. \<not> P c) s # fields P (dropWhile (\<lambda>c. \<not> P c) s)"
  by (subst fields.simps) (cases s; simp)

lemma strword_crawl_match:
  assumes "\<forall>c\<in>set n. \<not> wsep c" "strword_crawl h n = (h', n')"
  shows "(word_end h' \<and> word_end n' \<longleftrightarrow> takeWhile (\<lambda>c. \<not> wsep c) h = n)
    \<and> dropWhile (\<lambda>c. \<not> wsep c) h' = dropWhile (\<lambda>c. \<not> wsep c) h"
  using assms
proof (induction h n rule: strword_crawl.induct[case_names both left right])
  case (both a h b n)
  then show ?case by (auto simp: word_end_def split: if_splits)
next
  case (left n)
  then show ?case by (cases n) (auto simp: word_end_def)
next
  case (right h)
  then show ?case by (cases h) (auto simp: word_end_def split: if_splits)
qed

lemma strword_loop_fields:
  assumes "\<forall>c\<in>set needle. \<not> wsep c" "h = [] \<or> \<not> wsep (hd h)"
  shows "strword_loop h needle \<longleftrightarrow> needle \<in> set (fields wsep h)"
  using assms
proof (induction h needle rule: strword_loop.induct)
  case (1 h needle)
  obtain h' n' where c: "strword_crawl h needle = (h', n')" by (cases "strword_crawl h needle")
  note m = strword_crawl_match[OF 1(2) c]
  let ?rest = "dropWhile (\<lambda>c. \<not> wsep c) h"
  show ?case
  proof (cases "h = []")
    case True
    then show ?thesis by (simp add: strword_loop.simps fields.simps)
  next
    case False
    have "dropWhile wsep ?rest = [] \<or> \<not> wsep (hd (dropWhile wsep ?rest))"
      using hd_dropWhile[of wsep ?rest] by auto
    then have ih: "\<not> (word_end h' \<and> word_end n') \<Longrightarrow>
        strword_loop (dropWhile wsep ?rest) needle \<longleftrightarrow> needle \<in> set (fields wsep ?rest)"
      using 1(1)[OF False c[symmetric] refl] 1(2) m by simp
    have "fields wsep h = takeWhile (\<lambda>c. \<not> wsep c) h # fields wsep ?rest"
      using fields_word[of h wsep] False 1(3) by simp
    then show ?thesis using False c m ih by (auto simp: strword_loop.simps[of h])
  qed
qed

text \<open>
  C35. \<open>grub_strword\<close> answers whether its second argument is one of the words of the first, and
  calling \<open>grub_strtok_r\<close> until it returns NULL gives the pieces between delimiters in order.
\<close>
theorem words_and_tokens:
  assumes "\<forall>c\<in>set needle. \<not> wsep c"
  shows "(grub_strword haystack needle \<longleftrightarrow> needle \<in> set (fields wsep haystack))
    \<and> strtok_tokens delim s = fields (\<lambda>c. c \<in> set delim) s"
proof
  have "dropWhile wsep haystack = [] \<or> \<not> wsep (hd (dropWhile wsep haystack))"
    using hd_dropWhile[of wsep haystack] by auto
  from strword_loop_fields[OF assms this]
  show "grub_strword haystack needle \<longleftrightarrow> needle \<in> set (fields wsep haystack)"
    by (simp add: grub_strword_def)
  show "strtok_tokens delim s = fields (\<lambda>c. c \<in> set delim) s"
  proof (induction delim s rule: strtok_tokens.induct)
    case (1 delim s)
    show ?case
    proof (cases "dropWhile (\<lambda>c. c \<in> set delim) s = []")
      case True
      then show ?thesis
        by (subst strtok_tokens.simps, subst fields.simps) (simp add: grub_strtok_r_def)
    next
      case False
      define r where "r = dropWhile (\<lambda>c. c \<notin> set delim) (dropWhile (\<lambda>c. c \<in> set delim) s)"
      have t: "grub_strtok_r None delim s =
        (Some (takeWhile (\<lambda>c. c \<notin> set delim) (dropWhile (\<lambda>c. c \<in> set delim) s)), drop 1 r)"
        using False by (simp add: grub_strtok_r_def r_def Let_def)
      have "fields (\<lambda>c. c \<in> set delim) (drop 1 r) = fields (\<lambda>c. c \<in> set delim) r"
      proof (cases r)
        case (Cons a t)
        then have "a \<in> set delim"
          using hd_dropWhile[of "\<lambda>c. c \<notin> set delim" "dropWhile (\<lambda>c. c \<in> set delim) s"]
          by (simp add: r_def)
        then show ?thesis
          using fields_dropWhile[of "\<lambda>c. c \<in> set delim" "a # t"]
            fields_dropWhile[of "\<lambda>c. c \<in> set delim" t] Cons by simp
      qed simp
      then show ?thesis using 1[OF t[symmetric] refl] False
        by (subst strtok_tokens.simps, subst fields.simps) (simp add: t Let_def r_def)
    qed
  qed
qed

theorem words_and_tokens_witness:
  "grub_strword ''linux, initrd;all'' ''initrd'' \<and> \<not> grub_strword ''linux, initrd'' ''init''
   \<and> strtok_tokens '','' ''a,,bc'' = [''a'', ''bc'']"
  using words_and_tokens[of "''initrd''" "''linux, initrd;all''" "'',''" "''a,,bc''"]
    words_and_tokens[of "''init''" "''linux, initrd''" "'',''" "''a,,bc''"]
  by (simp add: fields.simps grub_iswordseparator_def grub_isspace_def schar_def)

end
