(* ===== verification/GrubNumber.thy ===== *)
theory GrubNumber
  imports GrubErr GrubString
begin

text \<open>
  Numbers of the boot loader's \<open>kern/misc.c\<close> on its 32-bit target: 64-bit division without a
  64-bit divide instruction, number parsing with overflow detection, and conversion to text.
  \<open>unsigned long\<close> has 32 bits and \<open>unsigned long long\<close> 64.  A parser returns the value, the rest
  of the string and the error it raised, \<open>GRUB_ERR_NONE\<close> when it raised none.
\<close>

unbundle bit_operations_syntax


section \<open>Division\<close>

definition divmod64_step :: "u64 \<Rightarrow> u64 \<times> u64 \<times> u64 \<Rightarrow> u64 \<times> u64 \<times> u64" where
  "divmod64_step d = (\<lambda>(n, q, m).
    let m = push_bit 1 m;
        m = (if n AND push_bit 63 1 \<noteq> 0 then m OR 1 else m);
        q = push_bit 1 q;
        n = push_bit 1 n
    in if m \<ge> d then (n, q OR 1, m - d) else (n, q, m))"

text \<open>Quotient and remainder; the machine traps when the 32-bit division divides by zero.\<close>

definition grub_divmod64 :: "u64 \<Rightarrow> u64 \<Rightarrow> (u64 \<times> u64) option" where
  "grub_divmod64 n d =
    (if n < 0xffffffff \<and> d < 0xffffffff
     then (let n32 = ucast n :: u32; d32 = ucast d :: u32
           in if d32 = 0 then None else Some (ucast (n32 div d32), ucast (n32 mod d32)))
     else (let (n, q, m) = (divmod64_step d ^^ 64) (n, 0, 0) in Some (q, m)))"


section \<open>Parsing\<close>

text \<open>The value of a digit, or None where the loop leaves.\<close>

definition strtoull_digit :: "char \<Rightarrow> int \<Rightarrow> u32 option" where
  "strtoull_digit c base =
    (let digit = (of_int (grub_tolower (schar c) - 48) :: u32)
     in if digit \<ge> 49
        then (let digit = digit + of_int (48 - 97 + 10)
              in if digit \<ge> of_int base then None else Some digit)
        else if digit > 9 then None
        else if digit \<ge> of_int base then None else Some digit)"

fun strtoull_loop :: "string \<Rightarrow> int \<Rightarrow> u64 \<Rightarrow> bool \<Rightarrow> u64 \<times> string \<times> grub_err_t" where
  "strtoull_loop [] base num found =
    (if \<not> found then (0, [], GRUB_ERR_BAD_NUMBER) else (num, [], GRUB_ERR_NONE))"
| "strtoull_loop (c # str) base num found =
    (case strtoull_digit c base of
       None \<Rightarrow> if \<not> found then (0, c # str, GRUB_ERR_BAD_NUMBER) else (num, c # str, GRUB_ERR_NONE)
     | Some digit \<Rightarrow>
         (case grub_divmod64 (NOT 0 - ucast digit) (of_int base) of
            None \<Rightarrow> (0, c # str, GRUB_ERR_BUG)
          | Some (q, _) \<Rightarrow>
              if num > q then (NOT 0, c # str, GRUB_ERR_OUT_OF_RANGE)
              else strtoull_loop str base (num * of_int base + ucast digit) True))"

definition strtoull_base :: "string \<Rightarrow> int \<Rightarrow> int \<times> string" where
  "strtoull_base str base =
    (let (base, str) =
       (if cstr_at str 0 = CHR ''0''
        then (if cstr_at str 1 = CHR ''x''
              then (if base = 0 \<or> base = 16 then (16, drop 2 str) else (base, str))
              else if base = 0 \<and> schar (cstr_at str 1) \<ge> 48 \<and> schar (cstr_at str 1) \<le> 55
              then (8, str) else (base, str))
        else (base, str))
     in (if base = 0 then 10 else base, str))"

definition grub_strtoull :: "string \<Rightarrow> int \<Rightarrow> u64 \<times> string \<times> grub_err_t" where
  "grub_strtoull str base =
    (let str = dropWhile (\<lambda>c. grub_isspace (schar c)) str;
         (base, str) = strtoull_base str base
     in strtoull_loop str base 0 False)"

definition grub_strtoul :: "string \<Rightarrow> int \<Rightarrow> u32 \<times> string \<times> grub_err_t" where
  "grub_strtoul str base =
    (let (num, rest, err) = grub_strtoull str base
     in if num > 0xffffffff then (NOT 0, rest, GRUB_ERR_OUT_OF_RANGE) else (ucast num, rest, err))"

text \<open>The result is the two's complement pattern of the \<open>long\<close>.\<close>

definition grub_strtol :: "string \<Rightarrow> int \<Rightarrow> u32 \<times> string \<times> grub_err_t" where
  "grub_strtol str base =
    (let str = dropWhile (\<lambda>c. grub_isspace (schar c)) str;
         negative = (cstr_at str 0 = CHR ''-'');
         str = (if negative then drop 1 str else str);
         (magnitude, rest, err) = grub_strtoull str base
     in if negative
        then (if magnitude > 0x80000000 then (0x80000000, rest, GRUB_ERR_OUT_OF_RANGE)
              else (- ucast magnitude, rest, err))
        else (if magnitude > 0x7fffffff then (0x7fffffff, rest, GRUB_ERR_OUT_OF_RANGE)
              else (ucast magnitude, rest, err)))"


section \<open>Division is exact\<close>

lemma push_bit_1_or:
  fixes m :: u64
  assumes "unat m < 2 ^ 63"
  shows "unat (push_bit 1 m) = 2 * unat m" "unat (push_bit 1 m OR 1) = 2 * unat m + 1"
proof -
  show e: "unat (push_bit 1 m) = 2 * unat m"
    using assms by (simp add: push_bit_eq_mult unat_word_ariths)
  have "push_bit 1 m OR 1 = push_bit 1 m + 1" by (simp add: or_one_eq)
  then have "unat (push_bit 1 m OR 1) = (2 * unat m + 1) mod 2 ^ 64"
    using e by (simp add: unat_word_ariths)
  then show "unat (push_bit 1 m OR 1) = 2 * unat m + 1" using assms by simp
qed

lemma top_bit_shifted:
  fixes n :: u64
  assumes "k < 64"
  shows "push_bit k n AND push_bit 63 1 \<noteq> 0 \<longleftrightarrow> odd (unat n div 2 ^ (63 - k))"
proof -
  have "push_bit k n AND push_bit 63 1 \<noteq> 0 \<longleftrightarrow> bit (push_bit k n) 63"
    by (simp only: push_bit_of_1 and_exp_eq_0_iff_not_bit not_not)
  also have "\<dots> \<longleftrightarrow> bit n (63 - k)" using assms by (simp add: bit_push_bit_iff)
  also have "\<dots> \<longleftrightarrow> bit (unat n) (63 - k)" using assms by (simp add: bit_unsigned_iff)
  finally show ?thesis by (simp add: bit_iff_odd)
qed

lemma div_pow_step: "(x::nat) div 2 ^ j = 2 * (x div 2 ^ Suc j) + (if odd (x div 2 ^ j) then 1 else 0)"
proof -
  have "x div 2 ^ Suc j = x div 2 ^ j div 2"
    by (simp only: power_Suc2 div_mult2_eq)
  moreover have "y = 2 * (y div 2) + (if odd y then 1 else 0)" for y :: nat
    by (cases "odd y") simp_all
  ultimately show ?thesis by (simp only:)
qed

lemma divmod64_step_eq:
  "divmod64_step d (n, q, m) =
    (let m' = (if n AND push_bit 63 1 \<noteq> 0 then push_bit 1 m OR 1 else push_bit 1 m)
     in if m' \<ge> d then (push_bit 1 n, push_bit 1 q OR 1, m' - d) else (push_bit 1 n, push_bit 1 q, m'))"
  by (simp only: divmod64_step_def Let_def prod.case)

text \<open>After \<open>k\<close> rounds, quotient and remainder are those of the upper \<open>k\<close> bits.\<close>

lemma divmod64_rounds:
  assumes "k \<le> 64" "d \<noteq> 0"
  shows "\<exists>q m. (divmod64_step d ^^ k) (n, 0, 0) = (push_bit k n, q, m)
    \<and> unat q * unat d + unat m = unat n div 2 ^ (64 - k) \<and> m < d"
  using assms(1)
proof (induction k)
  case 0
  have "0 < d" using assms(2) by (simp add: word_neq_0_conv)
  moreover have "unat n div 2 ^ 64 = 0" using unat_less[of n] by simp
  ultimately show ?case by auto
next
  case (Suc k)
  then obtain q m where IH: "(divmod64_step d ^^ k) (n, 0, 0) = (push_bit k n, q, m)"
    "unat q * unat d + unat m = unat n div 2 ^ (64 - k)" "m < d" by auto
  let ?top = "unat n div 2 ^ (64 - k)" and ?b = "odd (unat n div 2 ^ (63 - k))"
  have top: "?top < 2 ^ 63"
  proof -
    have "unat n div 2 ^ (64 - k) \<le> unat n div 2 ^ 1"
      using Suc.prems by (intro div_le_mono2) (simp_all add: self_le_power)
    then show ?thesis using unat_less[of n] by simp
  qed
  have d0: "0 < unat d" using assms(2) by (simp add: unat_gt_0)
  have "unat q * 1 \<le> unat q * unat d" using d0 by (intro mult_left_mono) auto
  then have small: "unat m < 2 ^ 63" "unat q < 2 ^ 63" using IH(2) top by linarith+
  define m' where "m' = (if ?b then push_bit 1 m OR 1 else push_bit 1 m)"
  have um': "unat m' = 2 * unat m + (if ?b then 1 else 0)"
    using push_bit_1_or[OF small(1)] by (simp add: m'_def)
  have next_top: "unat n div 2 ^ (64 - Suc k) = 2 * ?top + (if ?b then 1 else 0)"
  proof -
    have "Suc (63 - k) = 64 - k" "64 - Suc k = 63 - k" using Suc.prems by simp_all
    then show ?thesis using div_pow_step[of "unat n" "63 - k"] by (simp only:)
  qed
  have split: "2 * (unat q * unat d) + unat m' = unat n div 2 ^ (64 - Suc k)"
    using IH(2) um' next_top by simp
  have step: "(divmod64_step d ^^ Suc k) (n, 0, 0) =
     (if m' \<ge> d then (push_bit (Suc k) n, push_bit 1 q OR 1, m' - d)
      else (push_bit (Suc k) n, push_bit 1 q, m'))"
  proof -
    have "push_bit k n AND push_bit 63 1 \<noteq> 0 \<longleftrightarrow> ?b" using Suc.prems top_bit_shifted[of k n] by simp
    moreover have "push_bit 1 (push_bit k n) = push_bit (Suc k) n"
      by (simp only: push_bit_push_bit plus_1_eq_Suc)
    ultimately show ?thesis
      by (simp only: funpow.simps comp_apply IH(1) divmod64_step_eq m'_def Let_def)
  qed
  show ?case
  proof (cases "m' \<ge> d")
    case True
    then have sub: "unat (m' - d) = unat m' - unat d" "unat d \<le> unat m'"
      by (simp_all add: unat_sub word_le_nat_alt)
    have "unat m < unat d" using IH(3) by (simp add: word_less_nat_alt)
    then have "m' - d < d" using um' sub by (cases ?b) (simp_all add: word_less_nat_alt)
    moreover have "unat (push_bit 1 q OR 1) * unat d + unat (m' - d) = unat n div 2 ^ (64 - Suc k)"
      using split sub push_bit_1_or(2)[OF small(2)] by (simp add: algebra_simps)
    ultimately show ?thesis using step True by auto
  next
    case False
    then show ?thesis using step split push_bit_1_or(1)[OF small(2)] by (auto simp: algebra_simps)
  qed
qed

lemma divmod64_div_mod: "d \<noteq> 0 \<Longrightarrow> grub_divmod64 n d = Some (n div d, n mod d)"
proof (cases "n < 0xffffffff \<and> d < 0xffffffff")
  case True
  assume d: "d \<noteq> 0"
  have "unat n < 2 ^ 32" "unat d < 2 ^ 32" using True by (simp_all add: word_less_nat_alt)
  then have u: "unat (ucast n :: u32) = unat n" "unat (ucast d :: u32) = unat d"
    by (simp_all add: unat_ucast_mod)
  have "ucast d \<noteq> (0 :: u32)"
    using u(2) d by (metis unat_eq_0 unsigned_0)
  moreover have "ucast ((ucast n :: u32) div ucast d) = n div d"
    "ucast ((ucast n :: u32) mod ucast d) = n mod d"
    using u \<open>unat n < 2 ^ 32\<close>
    by (auto intro!: word_unat_eq_iff[THEN iffD2] simp: unat_ucast_mod unat_div unat_mod
        le_less_trans[OF div_le_dividend] le_less_trans[OF mod_less_eq_dividend])
  ultimately show ?thesis using True by (simp add: grub_divmod64_def)
next
  case False
  assume d: "d \<noteq> 0"
  obtain q m where qm: "(divmod64_step d ^^ 64) (n, 0, 0) = (push_bit 64 n, q, m)"
    "unat q * unat d + unat m = unat n" "m < d"
    using divmod64_rounds[of 64 d n] d by auto
  have "unat m < unat d" using qm(3) by (simp add: word_less_nat_alt)
  then have "unat q = unat n div unat d" "unat m = unat n mod unat d"
    using qm(2) by (metis add.commute div_mult_self1 mult.commute div_less add_0 less_nat_zero_code,
        metis mod_mult_self3 mod_less)
  then have "q = n div d" "m = n mod d"
    by (simp_all add: word_unat_eq_iff unat_div unat_mod)
  then show ?thesis using False qm(1) by (simp only: grub_divmod64_def if_False Let_def prod.case)
qed

lemma divmod64_step_zero:
  "divmod64_step 0 (n, q, m) =
    (push_bit 1 n, push_bit 1 q OR 1, if n AND push_bit 63 1 \<noteq> 0 then push_bit 1 m OR 1 else push_bit 1 m)"
  by (simp add: divmod64_step_eq Let_def)

lemma drop_bit_step:
  fixes n :: u64
  assumes "k < 64"
  shows "(if bit n (63 - k) then push_bit 1 (drop_bit (64 - k) n) OR 1
          else push_bit 1 (drop_bit (64 - k) n)) = drop_bit (63 - k) n"
proof (rule bit_word_eqI)
  fix i assume i: "i < LENGTH(64)"
  have push: "bit (push_bit 1 x) i \<longleftrightarrow> i \<noteq> 0 \<and> bit x (i - 1)" for x :: u64
    using i unfolding bit_push_bit_iff by (auto simp: possible_bit_word dest: bit_imp_le_length)
  have push0: "bit (push_bit 1 x) 0 = False" for x :: u64
    unfolding bit_push_bit_iff by simp
  have "64 - k + (i - 1) = 63 - k + i" if "i \<noteq> 0" using that assms by simp
  then show "bit (if bit n (63 - k) then push_bit 1 (drop_bit (64 - k) n) OR 1
          else push_bit 1 (drop_bit (64 - k) n)) i = bit (drop_bit (63 - k) n) i"
    by (cases "i = 0"; cases "bit n (63 - k)")
      (simp_all only: push push0 if_True if_False bit_or_iff bit_drop_bit_eq comp_apply bit_1_iff simp_thms add_0_right)
qed

lemma divmod64_rounds_zero:
  "k \<le> 64 \<Longrightarrow> (divmod64_step 0 ^^ k) (n, 0, 0) = (push_bit k n, mask k, drop_bit (64 - k) n)"
proof (induction k)
  case 0
  have "drop_bit 64 n = 0" by (rule bit_word_eqI) (auto simp: bit_simps dest: bit_imp_le_length)
  then show ?case by simp
next
  case (Suc k)
  have t: "push_bit k n AND push_bit 63 1 \<noteq> 0 \<longleftrightarrow> bit n (63 - k)"
    using top_bit_shifted[of k n] Suc.prems
    by (simp add: bit_iff_odd[of "unat n", symmetric] bit_unsigned_iff)
  have m: "push_bit 1 (mask k) OR 1 = (mask (Suc k) :: u64)"
    by (simp only: mask_Suc_double push_bit_eq_mult power_one_right mult.commute or.commute)
  have "(divmod64_step 0 ^^ Suc k) (n, 0, 0) =
    (push_bit 1 (push_bit k n), push_bit 1 (mask k) OR 1,
     if bit n (63 - k) then push_bit 1 (drop_bit (64 - k) n) OR 1 else push_bit 1 (drop_bit (64 - k) n))"
    using Suc by (simp only: funpow.simps comp_apply divmod64_step_zero t Suc_leD)
  then show ?case using Suc.prems
    by (simp only: m drop_bit_step push_bit_push_bit plus_1_eq_Suc Suc_le_eq) simp
qed

text \<open>
  C20. The shift-and-subtract division is exact on all 64-bit operands: it returns quotient and
  remainder, traps only where the 32-bit short cut divides by zero, and otherwise answers a zero
  divisor with all ones and the dividend.
\<close>
theorem grub_divmod64_exact:
  "grub_divmod64 n d =
    (if d \<noteq> 0 then Some (n div d, n mod d)
     else if n < 0xffffffff then None else Some (NOT 0, n))"
proof (cases "d = 0")
  case True
  have "mask 64 = (NOT 0 :: u64)" by (rule bit_word_eqI) (simp add: bit_simps)
  then have "(divmod64_step 0 ^^ 64) (n, 0, 0) = (push_bit 64 n, NOT 0, n)"
    using divmod64_rounds_zero[of 64 n] by (simp only: order_refl diff_self_eq_0 drop_bit_0 id_apply)
  then show ?thesis using True
    by (cases "n < 0xffffffff") (simp_all add: grub_divmod64_def)
qed (simp add: divmod64_div_mod)


section \<open>Printing\<close>

text \<open>Swapping the ends and moving inward.\<close>

function grub_reverse :: "'a list \<Rightarrow> 'a list" where
  "grub_reverse xs =
    (if 2 \<le> length xs then last xs # grub_reverse (butlast (tl xs)) @ [hd xs] else xs)"
  by pat_completeness auto
termination grub_reverse by (relation "measure length") auto

declare grub_reverse.simps [simp del]

lemma drop_bit_shrinks:
  fixes n :: u64
  assumes "drop_bit k n \<noteq> 0" "0 < k"
  shows "unat (drop_bit k n) < unat n"
proof -
  have "unat (drop_bit k n) = unat n div 2 ^ k" unfolding unat_drop_bit_eq by (rule drop_bit_eq_div)
  moreover have "0 < unat n" using assms(1) by (cases "n = 0") (simp_all add: unat_gt_0)
  moreover have "(1::nat) < 2 ^ k" using assms(2) by (simp add: one_less_power del: One_nat_def)
  ultimately show ?thesis by simp
qed

function lltoa_hex :: "char \<Rightarrow> u64 \<Rightarrow> string" where
  "lltoa_hex c n =
    (let d = unat (n AND 0xf);
         ch = char_of (if d > 9 then d + (if c = CHR ''x'' then 97 else 65) - 10 else d + 48);
         n = drop_bit 4 n
     in if n = 0 then [ch] else ch # lltoa_hex c n)"
  by pat_completeness auto
termination lltoa_hex
  by (relation "measure (\<lambda>(c, n). unat n)") (simp_all add: drop_bit_shrinks)

function lltoa_oct :: "u64 \<Rightarrow> string" where
  "lltoa_oct n =
    (let ch = char_of (unat (n AND 0x7) + 48); n = drop_bit 3 n
     in if n = 0 then [ch] else ch # lltoa_oct n)"
  by pat_completeness auto
termination lltoa_oct
  by (relation "measure unat") (simp_all add: drop_bit_shrinks)

text \<open>The division by ten never traps.\<close>

lemma divmod64_10 [simp]: "grub_divmod64 n 10 = Some (n div 10, n mod 10)"
  by (rule divmod64_div_mod) simp

function lltoa_dec :: "u64 \<Rightarrow> string" where
  "lltoa_dec n =
    (case grub_divmod64 n 10 of
       None \<Rightarrow> []
     | Some (n, m) \<Rightarrow>
         (let ch = char_of (unat m + 48) in if n = 0 then [ch] else ch # lltoa_dec n))"
  by pat_completeness auto
termination lltoa_dec
proof (relation "measure unat")
  fix n n' m :: u64 and x ch
  assume "grub_divmod64 n 10 = Some x" "(n', m) = x" "n' \<noteq> 0"
  then have "n' = n div 10" "unat n \<noteq> 0" by (auto simp: unat_eq_0)
  then show "(n', n) \<in> measure unat" by (simp add: unat_div)
qed simp

declare lltoa_hex.simps [simp del] lltoa_oct.simps [simp del] lltoa_dec.simps [simp del]

definition grub_lltoa :: "char \<Rightarrow> u64 \<Rightarrow> string" where
  "grub_lltoa c n =
    (let base = (if c = CHR ''x'' \<or> c = CHR ''X'' then 16 else if c = CHR ''o'' then 8 else 10 :: nat);
         (sign, n) = (if sint n < 0 \<and> c = CHR ''d'' then (''-'', - n) else ('''', n))
     in sign @ grub_reverse (if base = 16 then lltoa_hex c n else if base = 8 then lltoa_oct n
                             else lltoa_dec n))"


section \<open>Parsing computes the value of the numeral\<close>

text \<open>Digits and numerals, independent of the machine.\<close>

definition char_digit :: "char \<Rightarrow> nat option" where
  "char_digit c =
    (if 48 \<le> schar c \<and> schar c \<le> 57 then Some (nat (schar c - 48))
     else if 97 \<le> schar c \<and> schar c \<le> 122 then Some (nat (schar c - 87))
     else if 65 \<le> schar c \<and> schar c \<le> 90 then Some (nat (schar c - 55))
     else None)"

fun lead_digits :: "nat \<Rightarrow> string \<Rightarrow> nat list" where
  "lead_digits b [] = []"
| "lead_digits b (c # s) =
    (case char_digit c of
       None \<Rightarrow> []
     | Some d \<Rightarrow> if d < b then d # lead_digits b s else [])"

definition numeral_value :: "nat \<Rightarrow> nat \<Rightarrow> nat list \<Rightarrow> nat" where
  "numeral_value b v ds = foldl (\<lambda>v d. v * b + d) v ds"

lemma numeral_value_simps [simp]:
  "numeral_value b v [] = v"
  "numeral_value b v (d # ds) = numeral_value b (v * b + d) ds"
  "numeral_value b v (ds @ [d]) = numeral_value b v ds * b + d"
  by (simp_all add: numeral_value_def)

lemma numeral_value_mono: "0 < b \<Longrightarrow> v \<le> numeral_value b v ds"
proof (induction ds arbitrary: v)
  case (Cons d ds)
  then have "v * 1 \<le> v * b" by (intro mult_left_mono) auto
  also have "\<dots> + d \<le> numeral_value b (v * b + d) ds" using Cons by simp
  finally show ?case using le_add1[of "v * b" d] by simp
qed simp

lemma schar_range: "- 128 \<le> schar c \<and> schar c < 128"
  using sint_range_size[of "of_char c :: u8"] by (simp add: schar_def word_size)

lemma char_digit_less: "char_digit c = Some d \<Longrightarrow> d < 36"
  by (auto simp: char_digit_def split: if_splits)

lemma uint_of_small: "0 \<le> x \<Longrightarrow> x < 2 ^ 32 \<Longrightarrow> uint (of_int x :: u32) = x"
  by simp

lemma uint_of_neg: "- (2 ^ 31) \<le> x \<Longrightarrow> x < 0 \<Longrightarrow> uint (of_int x :: u32) = 2 ^ 32 + x"
proof -
  assume "- (2 ^ 31) \<le> x" "x < 0"
  then have "x mod 2 ^ 32 = 2 ^ 32 + x"
    using mod_pos_pos_trivial[of "2 ^ 32 + x" "2 ^ 32"] by simp
  then show ?thesis by (simp add: unsigned_of_int take_bit_eq_mod)
qed

lemma strtoull_digit_spec:
  assumes "2 \<le> b" "b \<le> 36"
  shows "strtoull_digit c (int b) =
    (case char_digit c of
       None \<Rightarrow> None | Some d \<Rightarrow> if d < b then Some (of_nat d) else None)"
proof -
  let ?x = "grub_tolower (schar c) - 48"
  have ub: "uint (of_nat b :: u32) = int b"
    using assms uint_of_small[of "int b"] by (simp only: of_int_of_nat_eq) simp
  consider (low) "?x < 0" | (dig) "0 \<le> ?x" "?x \<le> 9" | (mid) "9 < ?x" "?x < 49" | (high) "49 \<le> ?x"
    by linarith
  then show ?thesis
  proof cases
    case low
    then have r: "- 200 \<le> ?x" "char_digit c = None"
      using schar_range[of c] by (auto simp: grub_tolower_def char_digit_def split: if_splits)
    then have u: "uint (of_int ?x :: u32) = 2 ^ 32 + ?x" using low by (intro uint_of_neg) auto
    have "uint (of_int (?x - 39) :: u32) = 2 ^ 32 + (?x - 39)"
      using low r by (intro uint_of_neg) auto
    moreover have "(of_int ?x :: u32) + of_int (48 - 97 + 10) = of_int (?x - 39)"
      by (simp only: of_int_add[symmetric]) simp
    ultimately show ?thesis using u ub r assms low
      by (simp add: strtoull_digit_def Let_def word_le_def word_less_def)
  next
    case dig
    then have "schar c = ?x + 48" by (auto simp: grub_tolower_def split: if_splits)
    then have "char_digit c = Some (nat ?x)" using dig by (simp add: char_digit_def)
    moreover have "uint (of_int ?x :: u32) = ?x" using dig by (intro uint_of_small) auto
    moreover have "(of_int ?x :: u32) = of_nat (nat ?x)" using dig by simp
    ultimately show ?thesis using dig ub
      by (auto simp: strtoull_digit_def Let_def word_le_def word_less_def simp del: of_int_diff of_nat_nat)
  next
    case mid
    then have "char_digit c = None"
      by (auto simp: grub_tolower_def char_digit_def split: if_splits)
    moreover have "uint (of_int ?x :: u32) = ?x" using mid by (intro uint_of_small) auto
    ultimately show ?thesis using mid
      by (simp add: strtoull_digit_def Let_def word_le_def word_less_def del: of_int_diff)
  next
    case high
    have r: "?x < 80" using schar_range[of c] by (auto simp: grub_tolower_def split: if_splits)
    have u: "uint (of_int ?x :: u32) = ?x" using high r by (intro uint_of_small) auto
    have u2: "uint (of_int (?x - 39) :: u32) = ?x - 39" using high r by (intro uint_of_small) auto
    have e: "(of_int ?x :: u32) + of_int (48 - 97 + 10) = of_int (?x - 39)"
      by (simp only: of_int_add[symmetric]) simp
    have m: "strtoull_digit c (int b) = (if ?x - 39 \<ge> int b then None else Some (of_int (?x - 39)))"
      using u u2 e ub high
      by (simp add: strtoull_digit_def Let_def word_le_def del: of_int_diff of_int_add of_int_minus)
    have "char_digit c = (if ?x - 39 < 36 then Some (nat (?x - 39)) else None)"
      using high by (auto simp: grub_tolower_def char_digit_def split: if_splits)
    then show ?thesis using m assms high by (auto simp del: of_int_diff)
  qed
qed


text \<open>What a parse from \<open>s\<close> with the value \<open>v\<close> read so far must return.\<close>

definition parses :: "nat \<Rightarrow> string \<Rightarrow> nat \<Rightarrow> bool \<Rightarrow> u64 \<times> string \<times> grub_err_t \<Rightarrow> bool" where
  "parses b s v found r =
    (let ds = lead_digits b s; w = numeral_value b v ds
     in if ds = [] \<and> \<not> found then r = (0, s, GRUB_ERR_BAD_NUMBER)
        else if w < 2 ^ 64 then r = (of_nat w, drop (length ds) s, GRUB_ERR_NONE)
        else fst r = NOT 0 \<and> snd (snd r) = GRUB_ERR_OUT_OF_RANGE)"

lemma overflow_check:
  assumes "2 \<le> b" "b \<le> 36" "d < b"
  shows "\<exists>q m. grub_divmod64 (NOT 0 - ucast (of_nat d :: u32)) (of_int (int b)) = Some (q, m)
    \<and> (q < num \<longleftrightarrow> 2 ^ 64 \<le> unat num * b + d)"
proof -
  let ?n = "NOT 0 - ucast (of_nat d :: u32) :: u64"
  have b64: "unat (of_nat b :: u64) = b" using assms by simp
  then have bn0: "(of_nat b :: u64) \<noteq> 0" using assms by (metis not_numeral_le_zero unat_eq_0)
  have "unat (of_nat d :: u32) = d" using assms by simp
  then have d64: "unat (ucast (of_nat d :: u32) :: u64) = d" using assms by (simp add: unat_ucast_mod)
  have top: "unat (NOT 0 :: u64) = 2 ^ 64 - 1" by (simp add: unsigned_minus_1_eq_mask mask_eq_exp_minus_1)
  have "ucast (of_nat d :: u32) \<le> (NOT 0 :: u64)" by simp
  then have n: "unat ?n = 2 ^ 64 - 1 - d" using d64 top by (simp only: unat_sub)
  have "unat (?n div of_nat b) = (2 ^ 64 - 1 - d) div b" using n b64 by (simp only: unat_div)
  then have "?n div of_nat b < num \<longleftrightarrow> (2 ^ 64 - 1 - d) div b < unat num"
    by (simp only: word_less_nat_alt)
  also have "\<dots> \<longleftrightarrow> 2 ^ 64 - 1 - d < unat num * b" using assms by (simp only: div_less_iff_less_mult)
  also have "\<dots> \<longleftrightarrow> 2 ^ 64 \<le> unat num * b + d" using assms by auto
  finally show ?thesis using divmod64_div_mod[OF bn0, of ?n] by (simp only: of_int_of_nat_eq) blast
qed

lemma parses_step:
  "char_digit c = Some d \<Longrightarrow> d < b \<Longrightarrow> v * b + d < 2 ^ 64 \<Longrightarrow>
   parses b (c # s) v found r = parses b s (v * b + d) True r"
  by (simp add: parses_def Let_def)

lemma strtoull_loop_parses:
  assumes "2 \<le> b" "b \<le> 36"
  shows "parses b s (unat num) found (strtoull_loop s (int b) num found)"
proof (induction s arbitrary: num found)
  case Nil
  then show ?case using unat_less[of num] by (simp add: parses_def)
next
  case (Cons c s)
  consider (stop) "strtoull_digit c (int b) = None" "lead_digits b (c # s) = []"
    | (go) d where "char_digit c = Some d" "d < b" "strtoull_digit c (int b) = Some (of_nat d)"
    using strtoull_digit_spec[OF assms, of c] by (cases "char_digit c") (auto split: if_splits)
  then show ?case
  proof cases
    case stop
    then show ?thesis using unat_less[of num] by (simp add: parses_def)
  next
    case (go d)
    obtain q m where q: "grub_divmod64 (NOT 0 - ucast (of_nat d :: u32)) (of_int (int b)) = Some (q, m)"
      "q < num \<longleftrightarrow> 2 ^ 64 \<le> unat num * b + d"
      using overflow_check[OF assms go(2), of num] by blast
    show ?thesis
    proof (cases "q < num")
      case True
      have "unat num * b + d \<le> numeral_value b (unat num * b + d) (lead_digits b s)"
        using assms by (intro numeral_value_mono) simp
      then have "\<not> numeral_value b (unat num) (lead_digits b (c # s)) < 2 ^ 64"
        using q(2) True go by simp
      then show ?thesis using go q True by (simp add: parses_def)
    next
      case False
      then have lt: "unat num * b + d < 2 ^ 64" using q(2) by simp
      let ?num = "num * of_int (int b) + ucast (of_nat d :: u32)"
      have "unat (of_nat d :: u32) = d" using assms go by simp
      then have d64: "unat (ucast (of_nat d :: u32) :: u64) = d"
        using assms go by (simp add: unat_ucast_mod)
      have b64: "unat (of_nat b :: u64) = b" using assms by simp
      have mult: "unat (num * of_nat b) = unat num * b"
        using lt b64 by (simp add: unat_word_ariths)
      have "unat ?num = unat num * b + d"
        using lt mult d64 by (simp add: unat_word_ariths(1)[of "num * of_nat b"])
      then show ?thesis
        using Cons.IH[of ?num True] parses_step[OF go(1,2) lt] go q False by simp
    qed
  qed
qed

text \<open>The base a call parses in, and where its digits start.\<close>

definition numeral_start :: "string \<Rightarrow> int \<Rightarrow> nat \<times> string" where
  "numeral_start str base =
    (let s = dropWhile (\<lambda>c. grub_isspace (schar c)) str; (b, s) = strtoull_base s base in (nat b, s))"

lemma strtoull_base_range:
  assumes "base = 0 \<or> 2 \<le> base \<and> base \<le> 36" "strtoull_base s base = (b, s')"
  shows "2 \<le> b \<and> b \<le> 36"
  using assms by (auto simp: strtoull_base_def split: if_splits)

text \<open>
  C19. Number parsing: after white space and an optional \<open>0x\<close> or octal prefix, \<open>grub_strtoull\<close>
  reads the longest run of digits of the base and returns their value and the rest; without a
  digit it reports a bad number, and when the value does not fit 64 bits, and only then, an
  overflow.
\<close>
theorem grub_strtoull_correct:
  assumes "base = 0 \<or> 2 \<le> base \<and> base \<le> 36"
  shows "case numeral_start str base of (b, s) \<Rightarrow> parses b s 0 False (grub_strtoull str base)"
proof -
  let ?s = "dropWhile (\<lambda>c. grub_isspace (schar c)) str"
  obtain b s where bs: "strtoull_base ?s base = (b, s)" by (cases "strtoull_base ?s base")
  then have b: "2 \<le> nat b" "nat b \<le> 36" "int (nat b) = b"
    using strtoull_base_range[OF assms bs] by auto
  then show ?thesis using strtoull_loop_parses[OF b(1,2), of s 0 False] bs
    by (simp add: numeral_start_def grub_strtoull_def)
qed

theorem grub_strtoull_correct_witness:
  "grub_strtoull '' 0x1Fg'' 0 = (31, ''g'', GRUB_ERR_NONE)"
  using grub_strtoull_correct[of 0 "'' 0x1Fg''"]
  by (simp add: numeral_start_def strtoull_base_def cstr_at_def grub_isspace_def schar_def
      parses_def char_digit_def)


section \<open>Printing and parsing are inverse\<close>

function nat_digits :: "nat \<Rightarrow> nat \<Rightarrow> nat list" where
  "nat_digits b n = (if b < 2 \<or> n < b then [n] else nat_digits b (n div b) @ [n mod b])"
  by pat_completeness auto
termination nat_digits by (relation "measure snd") auto

declare nat_digits.simps [simp del]

lemma nat_digits_value: "2 \<le> b \<Longrightarrow> numeral_value b 0 (nat_digits b n) = n"
  by (induction b n rule: nat_digits.induct) (subst nat_digits.simps, simp)

lemma nat_digits_less: "2 \<le> b \<Longrightarrow> d \<in> set (nat_digits b n) \<Longrightarrow> d < b"
  by (induction b n rule: nat_digits.induct) (subst (asm) (2) nat_digits.simps, auto split: if_splits)

lemma nat_digits_ne [simp]: "nat_digits b n \<noteq> []"
  by (subst nat_digits.simps) simp

lemma nat_digits_hd: "2 \<le> b \<Longrightarrow> n \<noteq> 0 \<Longrightarrow> hd (nat_digits b n) \<noteq> 0"
proof (induction b n rule: nat_digits.induct)
  case (1 b n)
  then show ?case by (subst nat_digits.simps) (auto simp: hd_append div_eq_0_iff)
qed

definition digit_char :: "bool \<Rightarrow> nat \<Rightarrow> char" where
  "digit_char lower d = char_of (if d > 9 then d + (if lower then 97 else 65) - 10 else d + 48)"

lemma digit_char_small: "d < 10 \<Longrightarrow> digit_char lower d = char_of (d + 48)"
  by (simp add: digit_char_def)

lemma grub_reverse_rev [simp]: "grub_reverse xs = rev xs"
proof (induction xs rule: grub_reverse.induct)
  case (1 xs)
  show ?case
  proof (cases "2 \<le> length xs")
    case True
    then obtain x y ys where xs: "xs = x # ys @ [y]"
      by (cases xs; cases "tl xs" rule: rev_cases) auto
    then show ?thesis using 1[OF True] by (subst grub_reverse.simps) simp
  next
    case False
    then have "xs = [] \<or> (\<exists>x. xs = [x])" by (cases xs; cases "tl xs") auto
    then show ?thesis by (subst grub_reverse.simps) auto
  qed
qed

lemma unat_and_mask_div:
  "unat (n AND 0xf) = unat (n :: u64) mod 16" "unat (drop_bit 4 n) = unat n div 16"
  "unat (n AND 0x7) = unat n mod 8" "unat (drop_bit 3 n) = unat n div 8"
proof -
  have "n AND 0xf = take_bit 4 n" "n AND 0x7 = take_bit 3 n"
    by (simp_all add: take_bit_eq_mask mask_eq_exp_minus_1)
  then show "unat (n AND 0xf) = unat n mod 16" "unat (n AND 0x7) = unat n mod 8"
    by (simp_all add: take_bit_eq_mod unat_mod)
  show "unat (drop_bit 4 n) = unat n div 16" "unat (drop_bit 3 n) = unat n div 8"
    by (simp_all only: unat_drop_bit_eq) (simp_all add: drop_bit_eq_div)
qed

lemma lltoa_hex_digits: "lltoa_hex c n = rev (map (digit_char (c = CHR ''x'')) (nat_digits 16 (unat n)))"
proof (induction c n rule: lltoa_hex.induct)
  case (1 c n)
  have "drop_bit 4 n = 0 \<longleftrightarrow> unat n < 16"
    using unat_and_mask_div(2)[of n] by (metis div_eq_0_iff unat_eq_0 zero_neq_numeral)
  then show ?case using 1
    by (subst lltoa_hex.simps, subst nat_digits.simps)
      (simp add: unat_and_mask_div digit_char_def Let_def)
qed

lemma lltoa_oct_digits: "lltoa_oct n = rev (map (digit_char l) (nat_digits 8 (unat n)))"
proof (induction n rule: lltoa_oct.induct)
  case (1 n)
  have "drop_bit 3 n = 0 \<longleftrightarrow> unat n < 8"
    using unat_and_mask_div(4)[of n] by (metis div_eq_0_iff unat_eq_0 zero_neq_numeral)
  moreover have "unat n mod 8 < 10" by (rule less_trans[OF mod_less_divisor]) simp_all
  ultimately show ?case using 1
    by (subst lltoa_oct.simps, subst nat_digits.simps) (simp add: unat_and_mask_div digit_char_small Let_def)
qed

lemma lltoa_dec_digits: "lltoa_dec n = rev (map (digit_char l) (nat_digits 10 (unat n)))"
proof (induction n rule: lltoa_dec.induct)
  case (1 n)
  have "n div 10 = 0 \<longleftrightarrow> unat n < 10"
  proof -
    have "unat (n div 10) = unat n div 10" by (simp add: unat_div)
    then show ?thesis by (metis div_eq_0_iff unat_eq_0 zero_neq_numeral)
  qed
  then show ?case using 1[of "(n div 10, n mod 10)" "n div 10" "n mod 10"]
    by (subst lltoa_dec.simps, subst nat_digits.simps)
      (simp add: unat_div unat_mod digit_char_small Let_def)
qed

lemma grub_lltoa_digits:
  "grub_lltoa c n =
    (if sint n < 0 \<and> c = CHR ''d'' then ''-'' @ map (digit_char False) (nat_digits 10 (unat (- n)))
     else map (digit_char (c = CHR ''x''))
       (nat_digits (if c = CHR ''x'' \<or> c = CHR ''X'' then 16 else if c = CHR ''o'' then 8 else 10) (unat n)))"
  by (auto simp: grub_lltoa_def Let_def lltoa_hex_digits lltoa_oct_digits[of _ False]
      lltoa_dec_digits[of _ False])

lemma schar_char_of: "n < 128 \<Longrightarrow> schar (char_of n) = int n"
proof -
  assume n: "n < 128"
  have "(of_char (char_of n :: char) :: u8) = of_nat (of_char (char_of n :: char))"
    by (simp only: of_nat_of_char)
  also have "\<dots> = of_nat n" using n by simp
  finally have w: "(of_char (char_of n :: char) :: u8) = of_nat n" .
  have "signed_take_bit 7 (int n) = int n" using n by (simp add: signed_take_bit_int_eq_self_iff)
  then show ?thesis by (simp add: schar_def w signed_of_nat)
qed

lemma schar_digit_char:
  assumes "d < 36"
  shows "schar (digit_char l d) = int (if d > 9 then d + (if l then 97 else 65) - 10 else d + 48)"
  unfolding digit_char_def by (rule schar_char_of) (use assms in auto)

lemma char_digit_digit_char [simp]: "d < 36 \<Longrightarrow> char_digit (digit_char l d) = Some d"
  by (auto simp: char_digit_def schar_digit_char)

lemma lead_digits_map: "\<forall>d\<in>set ds. d < b \<Longrightarrow> b \<le> 36 \<Longrightarrow> lead_digits b (map (digit_char l) ds) = ds"
  by (induction ds) auto

lemma digit_char_not_space: "d < 36 \<Longrightarrow> \<not> grub_isspace (schar (digit_char l d))"
  by (auto simp: grub_isspace_def schar_digit_char)

lemma digit_char_0: "d < 36 \<Longrightarrow> digit_char l d = CHR ''0'' \<longleftrightarrow> d = 0"
proof
  assume "d < 36" "digit_char l d = CHR ''0''"
  then show "d = 0" using schar_digit_char[of d l] by (auto simp: schar_def split: if_splits)
qed (simp add: digit_char_def char_of_eq_iff)

text \<open>A numeral without leading zeros is read in the base it was written in.\<close>

lemma strtoull_base_digits:
  assumes "2 \<le> b" "b \<le> 36"
  shows "strtoull_base (map (digit_char l) (nat_digits b n)) (int b) = (int b, map (digit_char l) (nat_digits b n))"
proof (cases "n = 0")
  case True
  then have "nat_digits b n = [0]" using assms by (simp add: nat_digits.simps)
  then show ?thesis using assms by (simp add: strtoull_base_def cstr_at_def digit_char_def)
next
  case False
  obtain d ds where ds: "nat_digits b n = d # ds" by (cases "nat_digits b n") auto
  then have "d \<noteq> 0" "d < 36"
    using nat_digits_hd[OF assms(1) False] nat_digits_less[OF assms(1), of d n] assms by auto
  then show ?thesis using ds assms by (simp add: strtoull_base_def cstr_at_def digit_char_0)
qed

lemma strtoull_digits:
  assumes "2 \<le> b" "b \<le> 36" "n < 2 ^ 64"
  shows "grub_strtoull (map (digit_char l) (nat_digits b n)) (int b) = (of_nat n, [], GRUB_ERR_NONE)"
proof -
  let ?s = "map (digit_char l) (nat_digits b n)"
  obtain d ds where ds: "nat_digits b n = d # ds" by (cases "nat_digits b n") auto
  then have "d < 36" using nat_digits_less[OF assms(1), of d n] assms by auto
  then have "dropWhile (\<lambda>c. grub_isspace (schar c)) ?s = ?s"
    using ds by (simp add: digit_char_not_space)
  moreover have "lead_digits b ?s = nat_digits b n"
    using nat_digits_less[OF assms(1)] assms(2) by (intro lead_digits_map) auto
  then have "strtoull_loop ?s (int b) 0 False = (of_nat n, [], GRUB_ERR_NONE)"
    using strtoull_loop_parses[OF assms(1,2), of ?s 0 False] assms
    by (simp add: parses_def nat_digits_value)
  ultimately show ?thesis using strtoull_base_digits[OF assms(1,2)]
    by (simp add: grub_strtoull_def)
qed

lemma strtol_digits:
  assumes "n < 2 ^ 31"
  shows "grub_strtol (map (digit_char l) (nat_digits 10 n)) 10 = (of_nat n, [], GRUB_ERR_NONE)"
    and "grub_strtol (''-'' @ map (digit_char l) (nat_digits 10 n)) 10 = (- of_nat n, [], GRUB_ERR_NONE)"
    and "grub_strtol (''-'' @ map (digit_char l) (nat_digits 10 (2 ^ 31))) 10 = (0x80000000, [], GRUB_ERR_NONE)"
proof -
  let ?s = "map (digit_char l) (nat_digits 10 n)"
  obtain d ds where ds: "nat_digits 10 n = d # ds" by (cases "nat_digits 10 n") auto
  then have d: "d < 36" using nat_digits_less[of 10 d n] by auto
  have "schar (digit_char l d) \<noteq> schar (CHR ''-'')" 
    unfolding schar_digit_char[OF d] by (simp add: schar_def)
  then have nm: "digit_char l d \<noteq> CHR ''-''" by metis
  have sp: "dropWhile (\<lambda>c. grub_isspace (schar c)) ?s = ?s"
    using ds d by (simp add: digit_char_not_space)
  have p: "grub_strtoull ?s 10 = (of_nat n, [], GRUB_ERR_NONE)"
    using strtoull_digits[of 10 n l] assms by simp
  have u: "\<not> 0x7fffffff < (of_nat n :: u64)" "\<not> 0x80000000 < (of_nat n :: u64)"
    using assms by (simp_all add: word_less_nat_alt not_less)
  have c: "ucast (of_nat n :: u64) = (of_nat n :: u32)"
    using assms by (simp add: word_unat_eq_iff unat_ucast_mod)
  show "grub_strtol ?s 10 = (of_nat n, [], GRUB_ERR_NONE)"
    using sp p u c ds nm by (simp add: grub_strtol_def cstr_at_def)
  show "grub_strtol (''-'' @ ?s) 10 = (- of_nat n, [], GRUB_ERR_NONE)"
    using p u c by (simp add: grub_strtol_def cstr_at_def grub_isspace_def schar_def)
  show "grub_strtol (''-'' @ map (digit_char l) (nat_digits 10 (2 ^ 31))) 10 = (0x80000000, [], GRUB_ERR_NONE)"
    using strtoull_digits[of 10 "2 ^ 31" l]
    by (simp add: grub_strtol_def cstr_at_def grub_isspace_def schar_def)
qed

lemma of_int_sint64: "of_int (sint w) = (w :: u64)"
  by (rule bit_word_eqI) (auto simp: bit_simps bit_sint_iff)

lemma ucast_of_int64: "ucast (of_int x :: u64) = (of_int x :: u32)"
  by (rule ucast_down_wi) (simp add: is_down)

text \<open>
  C27. Printing a number and parsing it back gives the number: unsigned in the base of the
  conversion for every 64-bit value, and signed for every value of a 32-bit \<open>long\<close>.
\<close>
theorem print_parse_roundtrip:
  assumes "(c, b) \<in> {(CHR ''u'', 10), (CHR ''x'', 16), (CHR ''X'', 16), (CHR ''o'', 8)}"
    and "- (2 ^ 31) \<le> sint m" "sint m < 2 ^ 31"
  shows "grub_strtoull (grub_lltoa c n) b = (n, [], GRUB_ERR_NONE)
    \<and> grub_strtol (grub_lltoa (CHR ''d'') m) 10 = (ucast m, [], GRUB_ERR_NONE)"
proof
  have n: "unat n < 2 ^ 64" using unat_less[of n] by simp
  show "grub_strtoull (grub_lltoa c n) b = (n, [], GRUB_ERR_NONE)"
    using assms(1) strtoull_digits[of 10 "unat n" False] strtoull_digits[of 16 "unat n"]
      strtoull_digits[of 8 "unat n" False] n
    by (auto simp: grub_lltoa_digits)
  show "grub_strtol (grub_lltoa (CHR ''d'') m) 10 = (ucast m, [], GRUB_ERR_NONE)"
  proof (cases "sint m < 0")
    case False
    define k where "k = nat (sint m)"
    have k: "k < 2 ^ 31" "int k = sint m" using assms(3) False by (simp_all add: k_def)
    have m: "m = of_int (int k)" using k(2) of_int_sint64[of m] by simp
    then have "unat m < 2 ^ 31" "of_nat (unat m) = (ucast m :: u32)"
      using k(1) ucast_of_int64[of "int k"] by simp_all
    then show ?thesis using False strtol_digits(1)[of "unat m" False] by (simp add: grub_lltoa_digits)
  next
    case True
    define k where "k = nat (- sint m)"
    have k: "k \<le> 2 ^ 31" "int k = - sint m" using assms(2) True by (simp_all add: k_def)
    have m: "m = of_int (- int k)" using k(2) of_int_sint64[of m] by simp
    then have "unat (- m) = k" using k(1) by simp
    moreover have "(ucast m :: u32) = - of_nat k" using ucast_of_int64[of "- int k"] m by simp
    ultimately show ?thesis
      using True strtol_digits(2)[of k False] strtol_digits(3)[of 0 False] k(1)
      by (cases "k = 2 ^ 31") (simp_all add: grub_lltoa_digits)
  qed
qed

theorem print_parse_roundtrip_witness:
  "grub_strtoull (grub_lltoa (CHR ''x'') 0xDEADBEEFCAFE) 16 = (0xDEADBEEFCAFE, [], GRUB_ERR_NONE)
   \<and> grub_strtol (grub_lltoa (CHR ''d'') (- 42)) 10 = (- 42, [], GRUB_ERR_NONE)"
  using print_parse_roundtrip[of "CHR ''x''" 16 "- 42" "0xDEADBEEFCAFE"] by simp

end
