(* ===== verification/GrubPrintf.thy ===== *)
theory GrubPrintf
  imports GrubNumber
begin

text \<open>
  Formatted output of \<open>kern/misc.c\<close>: finding the argument types of a format string, checking a
  format string against an expected one, and writing the formatted text into a bounded buffer.
  A format string that stops in the middle of a directive makes the code step over its terminator
  and read on; the model answers \<open>None\<close> there.  A pointer is a 32-bit address; the parameters
  \<open>str_at\<close> and \<open>guid_at\<close> give the string and the GUID at an address, and \<open>calloc_ok\<close> whether
  \<open>grub_calloc\<close> finds memory.
\<close>

unbundle bit_operations_syntax


section \<open>Argument types\<close>

datatype argtype =
  INT_t | LONG | LONGLONG | UNSIGNED_INT | UNSIGNED_LONG | UNSIGNED_LONGLONG | STRING | GUID

text \<open>\<open>INT + longfmt\<close> and \<open>UNSIGNED_INT + longfmt\<close>.\<close>

definition int_type :: "nat \<Rightarrow> argtype" where
  "int_type longfmt = (if longfmt = 0 then INT_t else if longfmt = 1 then LONG else LONGLONG)"

definition unsigned_type :: "nat \<Rightarrow> argtype" where
  "unsigned_type longfmt =
    (if longfmt = 0 then UNSIGNED_INT else if longfmt = 1 then UNSIGNED_LONG else UNSIGNED_LONGLONG)"

text \<open>Reading a character and advancing: past the terminator there is nothing left to read.\<close>

fun fetch :: "string \<Rightarrow> char \<times> string option" where
  "fetch [] = (NUL, None)"
| "fetch (c # s) = (c, Some s)"

definition skip_char :: "char \<Rightarrow> string \<Rightarrow> string" where
  "skip_char c s = (if cstr_at s 0 = c \<and> s \<noteq> [] then tl s else s)"

abbreviation digit :: "char \<Rightarrow> bool" where "digit c \<equiv> grub_isdigit (schar c)"

definition skip_digits :: "string \<Rightarrow> string" where
  "skip_digits s = dropWhile digit s"

text \<open>The flags and widths after \<open>%\<close>, up to the conversion; a positional argument is an error in
  checking mode.\<close>

definition skip_width :: "string \<Rightarrow> string" where
  "skip_width s = skip_digits (skip_char (CHR ''.'') (skip_digits (skip_char (CHR ''-'') s)))"

definition skip_spec :: "bool \<Rightarrow> string \<Rightarrow> grub_err_t + string" where
  "skip_spec fmt_check s =
    (let s = skip_digits (skip_char (CHR ''-'') s)
     in if cstr_at s 0 = CHR ''$''
        then (if fmt_check then Inl GRUB_ERR_BAD_ARGUMENT else Inr (skip_width (tl s)))
        else Inr (skip_width s))"

definition fetch_from :: "string option \<Rightarrow> char \<times> string option" where
  "fetch_from r = (case r of None \<Rightarrow> (NUL, None) | Some s \<Rightarrow> fetch s)"

text \<open>The conversion of the counting pass: \<open>z\<close>, or up to two \<open>l\<close>, before it.\<close>

definition count_conv :: "string \<Rightarrow> char \<times> string option" where
  "count_conv s =
    (let (c, r) = fetch s
     in if c = CHR ''z'' then fetch_from r
        else (let (c, r) = (if c = CHR ''l'' then fetch_from r else (c, r))
              in if c = CHR ''l'' then fetch_from r else (c, r)))"

definition takes_arg :: "char \<Rightarrow> bool" where
  "takes_arg c = (c \<in> set ''pxXudocCs'')"

definition skip_G :: "char \<Rightarrow> string \<Rightarrow> string" where
  "skip_G c s = (if c = CHR ''p'' then skip_char (CHR ''G'') s else s)"

lemma skip_char_length: "length (skip_char c s) \<le> length s"
  by (simp add: skip_char_def)

lemma skip_width_length: "length (skip_width s) \<le> length s"
  unfolding skip_width_def skip_digits_def
  by (meson le_trans length_dropWhile_le skip_char_length)

lemma skip_spec_length: "skip_spec chk s = Inr s' \<Longrightarrow> length s' \<le> length s"
proof -
  let ?t = "skip_digits (skip_char (CHR ''-'') s)"
  assume "skip_spec chk s = Inr s'"
  then have "s' = skip_width (tl ?t) \<or> s' = skip_width ?t"
    by (auto simp: skip_spec_def Let_def split: if_splits)
  then have "length s' \<le> length ?t"
    using skip_width_length[of ?t] skip_width_length[of "tl ?t"] by auto
  also have "\<dots> \<le> length s"
    unfolding skip_digits_def by (meson le_trans length_dropWhile_le skip_char_length)
  finally show ?thesis .
qed

lemma fetch_length: "fetch s = (c, Some r) \<Longrightarrow> length r < length s"
  by (cases s) auto

lemma fetch_from_length: "fetch_from r = (c, Some s) \<Longrightarrow> \<exists>t. r = Some t \<and> length s < length t"
  by (auto simp: fetch_from_def fetch_length split: option.splits)

lemma count_conv_length: "count_conv s = (c, Some r) \<Longrightarrow> length r < length s"
  unfolding count_conv_def Let_def
  by (auto split: prod.splits if_splits dest!: fetch_from_length fetch_length)

lemma skip_G_length: "length (skip_G c s) \<le> length s"
  by (simp add: skip_G_def skip_char_length)


text \<open>The first pass counts the arguments.\<close>

function count_args :: "bool \<Rightarrow> string \<Rightarrow> nat \<Rightarrow> (grub_err_t + nat) option" where
  "count_args fmt_check [] n = Some (Inr n)"
| "count_args fmt_check (c # fmt) n =
    (if c \<noteq> CHR ''%'' then count_args fmt_check fmt n
     else case skip_spec fmt_check fmt of
       Inl e \<Rightarrow> Some (Inl e)
     | Inr s \<Rightarrow>
         (case count_conv s of
            (c, None) \<Rightarrow> if fmt_check then Some (Inl GRUB_ERR_BAD_ARGUMENT) else None
          | (c, Some r) \<Rightarrow>
              if takes_arg c then count_args fmt_check (skip_G c r) (n + 1)
              else if c = CHR ''%'' then count_args fmt_check r n
              else if fmt_check then Some (Inl GRUB_ERR_BAD_ARGUMENT)
              else count_args fmt_check r n))"
  by pat_completeness auto

lemma count_step_length:
  assumes "skip_spec chk fmt = Inr s" "count_conv s = (c, Some r)"
  shows "length (skip_G c' r) < Suc (length fmt)" "length r < Suc (length fmt)"
  using skip_spec_length[OF assms(1)] count_conv_length[OF assms(2)] skip_G_length[of c' r] by auto

termination count_args
  by (relation "measure (\<lambda>(chk, fmt, n). length fmt)")
    (auto intro: count_step_length[OF _ sym])

text \<open>The second pass notes the type of each argument.\<close>

definition type_conv :: "char \<Rightarrow> string option \<Rightarrow> nat \<times> char \<times> string option" where
  "type_conv c r =
    (let (longfmt, c, r) = (if c = CHR ''z'' then (let (c, r) = fetch_from r in (1, c, r)) else (0, c, r));
         (longfmt, c, r) = (if c = CHR ''l'' then (let (c, r) = fetch_from r in (1, c, r)) else (longfmt, c, r))
     in if c = CHR ''l'' then (let (c, r) = fetch_from r in (2, c, r)) else (longfmt, c, r))"

definition conv_type :: "char \<Rightarrow> nat \<Rightarrow> string \<Rightarrow> argtype \<Rightarrow> argtype" where
  "conv_type c longfmt s old =
    (if c \<in> set ''xXou'' then unsigned_type longfmt
     else if c = CHR ''d'' then int_type longfmt
     else if c = CHR ''p'' then (if cstr_at s 0 = CHR ''G'' then GUID else UNSIGNED_INT)
     else if c = CHR ''s'' then STRING
     else if c = CHR ''C'' \<or> c = CHR ''c'' then INT_t
     else old)"

text \<open>
  The position of a directive: its turn, or the number before \<open>$\<close>.  A zero number leaves the
  directive unread, \<open>None\<close>.
\<close>

definition type_position :: "string \<Rightarrow> nat \<Rightarrow> (nat \<times> string) option" where
  "type_position s n =
    (let p = skip_char (CHR ''-'') s; s = skip_digits p
     in if cstr_at s 0 = CHR ''$''
        then (let curn = fst (grub_strtoul p 10)
              in if curn = 0 then None else Some (unat (curn - 1), tl s))
        else Some (n, s))"

function type_args :: "string \<Rightarrow> nat \<Rightarrow> argtype list \<Rightarrow> argtype list option" where
  "type_args [] n types = Some types"
| "type_args (c # fmt) n types =
    (if c \<noteq> CHR ''%'' then type_args fmt n types
     else case type_position fmt n of
       None \<Rightarrow> type_args (skip_digits (skip_char (CHR ''-'') fmt)) (n + 1) types
     | Some (curn, s) \<Rightarrow>
         (case fetch (skip_width s) of
            (c, r) \<Rightarrow>
              if c = CHR ''%'' then (case r of None \<Rightarrow> None | Some r \<Rightarrow> type_args r n types)
              else (case type_conv c r of
                  (longfmt, c, None) \<Rightarrow> None
                | (longfmt, c, Some r) \<Rightarrow>
                    if curn \<ge> length types then type_args r (n + 1) types
                    else type_args (skip_G c r) (n + 1)
                           (types[curn := conv_type c longfmt r (types ! curn)]))))"
  by pat_completeness auto

lemma type_position_length: "type_position s n = Some (curn, s') \<Longrightarrow> length s' \<le> length s"
proof -
  let ?t = "skip_digits (skip_char (CHR ''-'') s)"
  assume "type_position s n = Some (curn, s')"
  then have "s' = tl ?t \<or> s' = ?t" by (auto simp: type_position_def Let_def split: if_splits)
  then have "length s' \<le> length ?t" by auto
  also have "\<dots> \<le> length s"
    unfolding skip_digits_def by (meson le_trans length_dropWhile_le skip_char_length)
  finally show ?thesis .
qed

lemma type_conv_length:
  "type_conv c r = (longfmt, c', Some s) \<Longrightarrow> \<exists>t. r = Some t \<and> length s \<le> length t"
  unfolding type_conv_def Let_def
  by (auto split: prod.splits if_splits dest!: fetch_from_length)

lemma type_step_length:
  assumes "type_position fmt n = Some (curn, s)" "fetch (skip_width s) = (c, r)"
  shows "r = Some t \<Longrightarrow> length t < Suc (length fmt)"
    and "type_conv c r = (longfmt, c', Some t) \<Longrightarrow> length t < Suc (length fmt)"
    and "type_conv c r = (longfmt, c', Some t) \<Longrightarrow> length (skip_G c'' t) < Suc (length fmt)"
proof -
  have s: "length (skip_width s) \<le> length fmt"
    using type_position_length[OF assms(1)] skip_width_length[of s] by simp
  show a: "r = Some t \<Longrightarrow> length t < Suc (length fmt)" for t
    using fetch_length[of "skip_width s"] assms(2) s by fastforce
  show b: "type_conv c r = (longfmt, c', Some t) \<Longrightarrow> length t < Suc (length fmt)"
    using a by (auto dest!: type_conv_length)
  show "type_conv c r = (longfmt, c', Some t) \<Longrightarrow> length (skip_G c'' t) < Suc (length fmt)"
    using b skip_G_length[of c'' t] by simp
qed

termination type_args
proof (relation "measure (\<lambda>(fmt, n, types). length fmt)", goal_cases)
  case (3 c fmt n types)
  have "length (skip_digits (skip_char (CHR ''-'') fmt)) \<le> length fmt"
    unfolding skip_digits_def by (meson le_trans length_dropWhile_le skip_char_length)
  then show ?case by simp
qed (auto intro: type_step_length(1)[OF _ sym refl] type_step_length(2,3)[OF _ sym sym])

declare count_args.simps(2) [simp del] type_args.simps(2) [simp del]


definition parse_printf_arg_fmt ::
    "bool \<Rightarrow> string \<Rightarrow> bool \<Rightarrow> nat \<Rightarrow> (grub_err_t + argtype list) option" where
  "parse_printf_arg_fmt calloc_ok fmt0 fmt_check max_args =
    (case count_args fmt_check fmt0 0 of
       None \<Rightarrow> None
     | Some (Inl e) \<Rightarrow> Some (Inl e)
     | Some (Inr count) \<Rightarrow>
         if fmt_check \<and> count > max_args then Some (Inl GRUB_ERR_BAD_ARGUMENT)
         else if count > 32 \<and> \<not> calloc_ok \<and> fmt_check then Some (Inl GRUB_ERR_OUT_OF_MEMORY)
         else (let count = (if count > 32 \<and> \<not> calloc_ok then 32 else count)
               in map_option Inr (type_args fmt0 0 (replicate count INT_t))))"

text \<open>\<open>va_arg\<close> at the type of the argument, widened to \<open>long long\<close>.\<close>

fun va_value :: "argtype \<Rightarrow> u64 \<Rightarrow> u64" where
  "va_value INT_t v = scast (ucast v :: u32)"
| "va_value LONG v = scast (ucast v :: u32)"
| "va_value UNSIGNED_INT v = ucast (ucast v :: u32)"
| "va_value UNSIGNED_LONG v = ucast (ucast v :: u32)"
| "va_value LONGLONG v = v"
| "va_value UNSIGNED_LONGLONG v = v"
| "va_value STRING v = ucast (ucast v :: u32)"
| "va_value GUID v = ucast (ucast v :: u32)"

definition parse_printf_args :: "bool \<Rightarrow> string \<Rightarrow> u64 list \<Rightarrow> u64 list option" where
  "parse_printf_args calloc_ok fmt0 args_in =
    (case parse_printf_arg_fmt calloc_ok fmt0 False 0 of
       Some (Inr types) \<Rightarrow>
         if length types \<le> length args_in then Some (map2 va_value types args_in) else None
     | _ \<Rightarrow> None)"

definition grub_printf_fmt_check :: "bool \<Rightarrow> string option \<Rightarrow> string option \<Rightarrow> grub_err_t option" where
  "grub_printf_fmt_check calloc_ok fmt fmt_expected =
    (case (fmt, fmt_expected) of
       (Some f, Some e) \<Rightarrow>
         (case parse_printf_arg_fmt calloc_ok e True (2 ^ 32 - 1) of
            None \<Rightarrow> None
          | Some (Inl err) \<Rightarrow> Some err
          | Some (Inr expected) \<Rightarrow>
              (case parse_printf_arg_fmt calloc_ok f True (length expected) of
                 None \<Rightarrow> None
               | Some (Inl err) \<Rightarrow> Some err
               | Some (Inr types) \<Rightarrow>
                   Some (if \<exists>n<length types. types ! n \<noteq> expected ! n
                         then GRUB_ERR_BAD_ARGUMENT else GRUB_ERR_NONE)))
     | _ \<Rightarrow> Some GRUB_ERR_BAD_ARGUMENT)"


section \<open>Writing\<close>

text \<open>The buffer and the number of characters produced so far, which goes on past the buffer.\<close>

type_synonym sink = "string \<times> u32"

definition write_char :: "u32 \<Rightarrow> char \<Rightarrow> sink \<Rightarrow> sink" where
  "write_char max_len ch = (\<lambda>(str, count).
    (if count < max_len then str[unat count := ch] else str, count + 1))"

definition write_chars :: "u32 \<Rightarrow> string \<Rightarrow> sink \<Rightarrow> sink" where
  "write_chars max_len = fold (write_char max_len)"

definition write_number ::
    "u32 \<Rightarrow> u32 \<Rightarrow> bool \<Rightarrow> char \<Rightarrow> char \<Rightarrow> u64 \<Rightarrow> sink \<Rightarrow> sink" where
  "write_number max_len format1 rightfill zerofill c value sk =
    (let tmp = grub_lltoa c value; len = length tmp;
         fill = (if len < unat format1 then unat format1 - len else 0);
         sk = (if \<not> rightfill then write_chars max_len (replicate fill zerofill) sk else sk);
         sk = write_chars max_len tmp sk
     in if rightfill then write_chars max_len (replicate fill zerofill) sk else sk)"

definition byte_char :: "u32 \<Rightarrow> char" where
  "byte_char x = char_of (unat (ucast x :: u8))"

text \<open>The bytes the conversion \<open>C\<close> writes for a code point.\<close>

definition code_bytes :: "u32 \<Rightarrow> string" where
  "code_bytes code =
    (let (code, shift, mask) =
       (if code \<le> 0x7f then (code, 0, 0)
        else if code \<le> 0x7ff then (code, 6, 0xc0)
        else if code \<le> 0xffff then (code, 12, 0xe0)
        else if code \<le> 0x10ffff then (code, 18, 0xf0)
        else (63, 0, 0))
     in byte_char (mask OR drop_bit shift code)
        # map (\<lambda>k. byte_char (0x80 OR (0x3f AND drop_bit (shift - 6 * k) code))) [1..<shift div 6 + 1])"

record grub_packed_guid =
  data1 :: u32
  data2 :: u16
  data3 :: u16
  data4 :: "u8 list"

definition write_guid :: "u32 \<Rightarrow> grub_packed_guid \<Rightarrow> sink \<Rightarrow> sink" where
  "write_guid max_len guid sk =
    (let hex = (\<lambda>w v. write_number max_len w False (CHR ''0'') (CHR ''x'') v);
         dash = write_char max_len (CHR ''-'');
         d4 = (\<lambda>i. hex 2 (ucast (data4 guid ! i)));
         sk = dash (hex 8 (ucast (data1 guid)) sk);
         sk = dash (hex 4 (ucast (data2 guid)) sk);
         sk = dash (hex 4 (ucast (data3 guid)) sk);
         sk = dash (d4 1 (d4 0 sk))
     in d4 7 (d4 6 (d4 5 (d4 4 (d4 3 (d4 2 sk))))))"

definition write_string :: "u32 \<Rightarrow> u32 \<Rightarrow> u32 \<Rightarrow> bool \<Rightarrow> char \<Rightarrow> string \<Rightarrow> sink \<Rightarrow> sink" where
  "write_string max_len format1 format2 rightfill zerofill p sk =
    (let len = min (unat format2) (length p);
         fill = (if len < unat format1 then unat format1 - len else 0);
         sk = (if \<not> rightfill then write_chars max_len (replicate fill zerofill) sk else sk);
         sk = write_chars max_len (take len p) sk
     in if rightfill then write_chars max_len (replicate fill zerofill) sk else sk)"

text \<open>The environment of a call: its limit and the memory its pointers refer to.\<close>

record printf_env =
  max_len :: u32
  str_at :: "u32 \<Rightarrow> string"
  guid_at :: "u32 \<Rightarrow> grub_packed_guid"

record directive =
  format1 :: u32
  format2 :: u32
  zerofill :: char
  rightfill :: bool

text \<open>One conversion; the rest of the format is returned because \<open>pG\<close> takes two characters.\<close>

definition write_conv ::
    "printf_env \<Rightarrow> directive \<Rightarrow> char \<Rightarrow> u64 \<Rightarrow> string \<Rightarrow> sink \<Rightarrow> string \<times> sink" where
  "write_conv env d c curarg fmt sk =
    (let m = max_len env;
         number = (\<lambda>c. write_number m (format1 d) (rightfill d) (zerofill d) c curarg)
     in if c = CHR ''p'' \<and> cstr_at fmt 0 = CHR ''G''
        then (tl fmt, write_guid m (guid_at env (ucast curarg)) sk)
        else if c = CHR ''p''
        then (fmt, number (CHR ''x'') (write_char m (CHR ''x'') (write_char m (CHR ''0'') sk)))
        else if c \<in> set ''xXudo'' then (fmt, number c sk)
        else if c = CHR ''c'' then (fmt, write_char m (byte_char (ucast (curarg AND 0xff))) sk)
        else if c = CHR ''C'' then (fmt, write_chars m (code_bytes (ucast curarg)) sk)
        else if c = CHR ''s''
        then (fmt, write_string m (format1 d) (format2 d) (rightfill d) (zerofill d)
                     (if (ucast curarg :: u32) = 0 then ''(null)'' else str_at env (ucast curarg)) sk)
        else (fmt, write_char m c sk))"


definition read_directive :: "string \<Rightarrow> directive \<times> string" where
  "read_directive fmt =
    (let rf = (cstr_at fmt 0 = CHR ''-'');
         fmt = skip_char (CHR ''-'') fmt;
         (f1, zf, fmt) =
           (if digit (cstr_at fmt 0)
            then (let (n, rest, _) = grub_strtoul fmt 10
                  in (n, if cstr_at fmt 0 = CHR ''0'' then CHR ''0'' else CHR '' '', rest))
            else (0, CHR '' '', fmt));
         fmt = skip_char (CHR ''.'') fmt;
         (f2, fmt) =
           (if digit (cstr_at fmt 0) then (let (n, rest, _) = grub_strtoul fmt 10 in (n, rest))
            else (NOT 0, fmt))
     in (\<lparr>format1 = f1, format2 = f2, zerofill = zf, rightfill = rf\<rparr>, fmt))"

lemma strtoull_loop_length: "length (fst (snd (strtoull_loop s b num found))) \<le> length s"
  by (induction s arbitrary: num found) (auto split: option.split prod.splits intro: le_SucI)

lemma strtoull_base_length: "length (snd (strtoull_base s b)) \<le> length s"
  by (auto simp: strtoull_base_def Let_def)

lemma grub_strtoul_length: "length (fst (snd (grub_strtoul s b))) \<le> length s"
proof -
  let ?s = "dropWhile (\<lambda>c. grub_isspace (schar c)) s"
  have "length (fst (snd (grub_strtoull s b))) \<le> length (snd (strtoull_base ?s b))"
    by (auto simp: grub_strtoull_def Let_def split: prod.splits) (metis strtoull_loop_length fst_conv snd_conv)
  also have "\<dots> \<le> length s"
    using strtoull_base_length[of ?s b] length_dropWhile_le[of "\<lambda>c. grub_isspace (schar c)" s] by simp
  finally show ?thesis by (auto simp: grub_strtoul_def split: prod.splits)
qed

lemma read_directive_length: "length (snd (read_directive fmt)) \<le> length fmt"
proof -
  have u: "grub_strtoul s 10 = (n, r, e) \<Longrightarrow> length r \<le> length s" for s n r e
    using grub_strtoul_length[of s 10] by simp
  show ?thesis
    unfolding read_directive_def Let_def
    by (auto split: prod.splits if_splits dest!: u intro: le_trans skip_char_length)
      (meson le_trans skip_char_length)+
qed

text \<open>
  Reading a directive: \<open>Inl\<close> is where the loop goes on without it, \<open>Inr\<close> the argument number, the
  directive and what follows.
\<close>

function scan_directive :: "nat \<Rightarrow> string \<Rightarrow> string + (nat \<times> directive \<times> string)" where
  "scan_directive curn fmt =
    (let (d, fmt) = read_directive fmt
     in if cstr_at fmt 0 = CHR ''$'' \<and> fmt \<noteq> []
        then (if format1 d = 0 then Inl fmt else scan_directive (unat (format1 d - 1)) (tl fmt))
        else Inr (curn, d, fmt))"
  by pat_completeness auto
termination scan_directive
proof (relation "measure (\<lambda>(curn, fmt). length fmt)")
  fix curn fmt x d f
  assume "x = read_directive fmt" "(d, f) = x" "cstr_at f 0 = CHR ''$'' \<and> f \<noteq> []"
  then have "length (tl f) < length f" "length f \<le> length fmt"
    using read_directive_length[of fmt] by (auto dest: sym)
  then show "((unat (format1 d - 1), tl f), (curn, fmt)) \<in> measure (\<lambda>(curn, fmt). length fmt)"
    by simp
qed simp

declare scan_directive.simps [simp del]

definition conv_letter :: "string \<Rightarrow> char \<times> string option" where
  "conv_letter s =
    (let (c, r) = fetch s;
         (c, r) = (if c = CHR ''z'' then fetch_from r else (c, r));
         (c, r) = (if c = CHR ''l'' then fetch_from r else (c, r))
     in if c = CHR ''l'' then fetch_from r else (c, r))"

function vsnprintf_loop ::
    "printf_env \<Rightarrow> u64 list \<Rightarrow> string \<Rightarrow> nat \<Rightarrow> sink \<Rightarrow> sink option" where
  "vsnprintf_loop env args [] n sk = Some sk"
| "vsnprintf_loop env args (c # fmt) n sk =
    (if c \<noteq> CHR ''%'' then vsnprintf_loop env args fmt n (write_char (max_len env) c sk)
     else case scan_directive n fmt of
       Inl fmt \<Rightarrow> vsnprintf_loop env args fmt (n + 1) sk
     | Inr (curn, d, fmt) \<Rightarrow>
         (case conv_letter fmt of
            (c, None) \<Rightarrow> None
          | (c, Some r) \<Rightarrow>
              if c = CHR ''%'' then vsnprintf_loop env args r n (write_char (max_len env) c sk)
              else if curn \<ge> length args then vsnprintf_loop env args r (n + 1) sk
              else (case write_conv env d c (args ! curn) r sk of
                      (r, sk) \<Rightarrow> vsnprintf_loop env args r (n + 1) sk)))"
  by pat_completeness auto

lemma scan_directive_length:
  "(case scan_directive curn fmt of Inl f \<Rightarrow> length f \<le> length fmt
    | Inr (k, d, f) \<Rightarrow> length f \<le> length fmt)"
proof (induction curn fmt rule: scan_directive.induct)
  case (1 curn fmt)
  obtain d f where r: "read_directive fmt = (d, f)" by (cases "read_directive fmt")
  then have len: "length f \<le> length fmt" using read_directive_length[of fmt] by simp
  show ?case
  proof (cases "cstr_at f 0 = CHR ''$'' \<and> f \<noteq> [] \<and> format1 d \<noteq> 0")
    case True
    then have step: "scan_directive curn fmt = scan_directive (unat (format1 d - 1)) (tl f)"
      by (subst scan_directive.simps) (simp add: r)
    have "case scan_directive (unat (format1 d - 1)) (tl f) of Inl g \<Rightarrow> length g \<le> length (tl f)
        | Inr (k, d, g) \<Rightarrow> length g \<le> length (tl f)"
      using 1[OF r[symmetric] refl] True by simp
    then show ?thesis unfolding step using len by (auto split: sum.splits)
  qed (subst scan_directive.simps, use r len in auto)
qed

lemma conv_letter_length: "conv_letter s = (c, Some r) \<Longrightarrow> length r < length s"
  unfolding conv_letter_def Let_def
  by (auto split: prod.splits if_splits dest!: fetch_from_length fetch_length)

lemma write_conv_length: "write_conv env d c v r sk = (r', sk') \<Longrightarrow> length r' \<le> length r"
  by (auto simp: write_conv_def Let_def split: if_splits)

lemma vsnprintf_step_length:
  assumes "scan_directive n fmt = Inr (curn, d, f)" "conv_letter f = (c, Some r)"
  shows "length r < Suc (length fmt)"
    and "write_conv env d c' v r sk = (r', sk') \<Longrightarrow> length r' < Suc (length fmt)"
  using scan_directive_length[where curn = n and fmt = fmt] assms conv_letter_length[OF assms(2)] write_conv_length
  by fastforce+

termination vsnprintf_loop
proof (relation "measure (\<lambda>(env, args, fmt, n, sk). length fmt)", goal_cases)
  case (3 env args c fmt n sk f)
  then show ?case using scan_directive_length[where curn = n and fmt = fmt] by simp
qed (auto intro: vsnprintf_step_length[OF _ sym] vsnprintf_step_length(2)[OF _ sym sym])

declare vsnprintf_loop.simps(2) [simp del]

definition grub_vsnprintf_real ::
    "printf_env \<Rightarrow> string \<Rightarrow> string \<Rightarrow> u64 list \<Rightarrow> sink option" where
  "grub_vsnprintf_real env str fmt0 args =
    (case vsnprintf_loop env args fmt0 0 (str, 0) of
       None \<Rightarrow> None
     | Some (str, count) \<Rightarrow>
         Some (str[unat (if count < max_len env then count else max_len env) := NUL], count))"

definition grub_vsnprintf ::
    "bool \<Rightarrow> printf_env \<Rightarrow> string \<Rightarrow> u32 \<Rightarrow> string \<Rightarrow> u64 list \<Rightarrow> sink option" where
  "grub_vsnprintf calloc_ok env str n fmt ap =
    (if n = 0 then Some (str, 0)
     else case parse_printf_args calloc_ok fmt ap of
       None \<Rightarrow> None
     | Some args \<Rightarrow> grub_vsnprintf_real (env\<lparr>max_len := n - 1\<rparr>) str fmt args)"


section \<open>The text does not depend on the buffer\<close>

text \<open>A writer adds a fixed text, wherever the buffer stands and whatever its limit.\<close>

definition writes :: "(u32 \<Rightarrow> sink \<Rightarrow> sink) \<Rightarrow> string \<Rightarrow> bool" where
  "writes w t = (\<forall>m sk. w m sk = write_chars m t sk)"

named_theorems writes_intros \<open>writers and the text they write\<close>

lemma write_chars_append: "write_chars m (s @ t) sk = write_chars m t (write_chars m s sk)"
  by (simp add: write_chars_def)

lemma writes_char [writes_intros]: "writes (\<lambda>m. write_char m c) [c]"
  by (simp add: writes_def write_chars_def)

lemma writes_chars [writes_intros]: "writes (\<lambda>m. write_chars m t) t"
  by (simp add: writes_def)

lemma writes_seq [writes_intros]:
  "writes w s \<Longrightarrow> writes w' t \<Longrightarrow> writes (\<lambda>m sk. w' m (w m sk)) (s @ t)"
  by (simp add: writes_def write_chars_append del: split_paired_All)

definition padded :: "u32 \<Rightarrow> bool \<Rightarrow> char \<Rightarrow> string \<Rightarrow> string" where
  "padded width right fill t =
    (let pad = replicate (unat width - length t) fill in if right then t @ pad else pad @ t)"

lemma writes_number [writes_intros]:
  "writes (\<lambda>m. write_number m w r z c v) (padded w r z (grub_lltoa c v))"
  by (auto simp: writes_def write_number_def padded_def Let_def write_chars_append simp del: split_paired_All)

lemma writes_string [writes_intros]:
  "writes (\<lambda>m. write_string m w f r z p) (padded w r z (take (unat f) p))"
  by (auto simp: writes_def write_string_def padded_def Let_def write_chars_append min_def simp del: split_paired_All)

lemma write_number_text: "write_number m w r z c v sk = write_chars m (padded w r z (grub_lltoa c v)) sk"
  using writes_number by (simp add: writes_def del: split_paired_All)

lemma write_char_text: "write_char m c sk = write_chars m [c] sk"
  by (simp add: write_chars_def)

definition hex_field :: "u32 \<Rightarrow> u64 \<Rightarrow> string" where
  "hex_field w v = padded w False (CHR ''0'') (grub_lltoa (CHR ''x'') v)"

definition guid_text :: "grub_packed_guid \<Rightarrow> string" where
  "guid_text g =
    hex_field 8 (ucast (data1 g)) @ ''-'' @ hex_field 4 (ucast (data2 g)) @ ''-''
    @ hex_field 4 (ucast (data3 g)) @ ''-'' @ concat (map (\<lambda>i. hex_field 2 (ucast (data4 g ! i))) [0, 1])
    @ ''-'' @ concat (map (\<lambda>i. hex_field 2 (ucast (data4 g ! i))) [2, 3, 4, 5, 6, 7])"

lemma write_guid_text: "write_guid m g sk = write_chars m (guid_text g) sk"
  by (simp only: write_guid_def Let_def write_number_text write_char_text hex_field_def[symmetric]
      write_chars_append[symmetric] guid_text_def list.map concat.simps append_assoc append_Nil2)

text \<open>The text of one conversion, and what is left of the format.\<close>

definition conv_text :: "printf_env \<Rightarrow> directive \<Rightarrow> char \<Rightarrow> u64 \<Rightarrow> string \<Rightarrow> string \<times> string" where
  "conv_text env d c v r =
    (let number = (\<lambda>c. padded (format1 d) (rightfill d) (zerofill d) (grub_lltoa c v))
     in if c = CHR ''p'' \<and> cstr_at r 0 = CHR ''G'' then (tl r, guid_text (guid_at env (ucast v)))
        else (r, if c = CHR ''p'' then ''0x'' @ number (CHR ''x'')
                 else if c \<in> set ''xXudo'' then number c
                 else if c = CHR ''c'' then [byte_char (ucast (v AND 0xff))]
                 else if c = CHR ''C'' then code_bytes (ucast v)
                 else if c = CHR ''s''
                 then padded (format1 d) (rightfill d) (zerofill d) (take (unat (format2 d))
                   (if (ucast v :: u32) = 0 then ''(null)'' else str_at env (ucast v)))
                 else [c]))"

lemma write_conv_text:
  "write_conv env d c v r sk =
    (fst (conv_text env d c v r), write_chars (max_len env) (snd (conv_text env d c v r)) sk)"
  using writes_number[of "format1 d" "rightfill d" "zerofill d" _ v]
    writes_string[of "format1 d" "format2 d" "rightfill d" "zerofill d"]
  unfolding write_conv_def conv_text_def Let_def writes_def
  by (simp add: write_guid_text write_char_text del: split_paired_All) (simp add: write_chars_def)

lemma format_step_length:
  assumes "scan_directive n fmt = Inr (curn, d, f)" "conv_letter f = (c, Some r)"
    "conv_text env d' c' v r = (r', t)"
  shows "length r' < Suc (length fmt)"
proof -
  have "length r' \<le> length r"
    using assms(3) by (auto simp: conv_text_def Let_def split: if_splits)
  then show ?thesis using vsnprintf_step_length(1)[OF assms(1,2)] by simp
qed

text \<open>The text of a format: the specification of formatting, without a buffer.\<close>

function format_text :: "printf_env \<Rightarrow> u64 list \<Rightarrow> string \<Rightarrow> nat \<Rightarrow> string option" where
  "format_text env args [] n = Some []"
| "format_text env args (c # fmt) n =
    (if c \<noteq> CHR ''%'' then map_option (Cons c) (format_text env args fmt n)
     else case scan_directive n fmt of
       Inl fmt \<Rightarrow> format_text env args fmt (n + 1)
     | Inr (curn, d, fmt) \<Rightarrow>
         (case conv_letter fmt of
            (c, None) \<Rightarrow> None
          | (c, Some r) \<Rightarrow>
              if c = CHR ''%'' then map_option (Cons c) (format_text env args r n)
              else if curn \<ge> length args then format_text env args r (n + 1)
              else (case conv_text env d c (args ! curn) r of
                      (r, t) \<Rightarrow> map_option (append t) (format_text env args r (n + 1)))))"
  by pat_completeness auto
termination format_text
proof (relation "measure (\<lambda>(env, args, fmt, n). length fmt)", goal_cases)
  case (3 env args c fmt n f)
  then show ?case using scan_directive_length[where curn = n and fmt = fmt] by simp
qed (auto intro: vsnprintf_step_length(1)[OF _ sym] format_step_length[OF _ sym sym])

declare format_text.simps(2) [simp del]

lemma loop_writes_text:
  "vsnprintf_loop env args fmt n sk =
    map_option (\<lambda>t. write_chars (max_len env) t sk) (format_text env args fmt n)"
proof (induction "length fmt" arbitrary: fmt n sk rule: less_induct)
  case less
  have cons: "write_chars m t (write_char m c' s) = write_chars m (c' # t) s" for m t c' s
    by (simp add: write_chars_def)
  note eqs = vsnprintf_loop.simps format_text.simps write_conv_text option.map_comp comp_def cons
    write_chars_append
  show ?case
  proof (cases fmt)
    case Nil
    then show ?thesis by (simp add: write_chars_def)
  next
    case fmt: (Cons c f)
    have ih: "length g < Suc (length f) \<Longrightarrow> vsnprintf_loop env args g k s =
        map_option (\<lambda>t. write_chars (max_len env) t s) (format_text env args g k)" for g k s
      using less.hyps fmt by simp
    show ?thesis
    proof (cases "c = CHR ''%''")
      case False
      then show ?thesis using ih[of f] fmt by (simp add: eqs)
    next
      case pc: True
      show ?thesis
      proof (cases "scan_directive n f")
        case (Inl g)
        then show ?thesis using pc fmt ih[of g] scan_directive_length[where curn = n and fmt = f]
          by (simp add: eqs)
      next
        case (Inr x)
        obtain k d g where x: "x = (k, d, g)" by (cases x) auto
        obtain l r where l: "conv_letter g = (l, r)" by (cases "conv_letter g")
        show ?thesis
        proof (cases r)
          case None
          then show ?thesis using pc fmt Inr x l by (simp add: eqs)
        next
          case (Some s)
          obtain r' t where t: "conv_text env d l (args ! k) s = (r', t)"
            by (cases "conv_text env d l (args ! k) s")
          note steps = Inr[unfolded x] l[unfolded Some]
          show ?thesis
            using ih[OF vsnprintf_step_length(1)[OF steps]] ih[OF format_step_length[OF steps t]]
              pc fmt steps t by (simp add: eqs)
        qed
      qed
    qed
  qed
qed


text \<open>Writing into a buffer that is long enough keeps the text up to the limit.\<close>

lemma write_chars_full:
  "unat m \<le> k \<Longrightarrow> k + length s < 2 ^ 32 \<Longrightarrow> write_chars m s (buf, of_nat k) = (buf, of_nat (k + length s))"
proof (induction s arbitrary: k)
  case Nil
  then show ?case by (simp add: write_chars_def)
next
  case (Cons c s)
  have "write_char m c (buf, of_nat k) = (buf, of_nat (Suc k))"
    using Cons.prems by (simp add: write_char_def word_less_nat_alt)
  then show ?case using Cons.IH[of "Suc k"] Cons.prems by (simp add: write_chars_def)
qed

lemma write_chars_buffer:
  assumes "length pre \<le> unat m" "length pre + length t < 2 ^ 32" "unat m \<le> length pre + length rest"
  shows "write_chars m t (pre @ rest, of_nat (length pre)) =
    (take (unat m) (pre @ t) @ drop (length (take (unat m) (pre @ t))) (pre @ rest),
     of_nat (length pre + length t))"
  using assms
proof (induction t arbitrary: pre rest)
  case Nil
  then show ?case by (simp add: write_chars_def)
next
  case (Cons c t)
  have n: "unat (of_nat (length pre) :: u32) = length pre" using Cons.prems by simp
  show ?case
  proof (cases "length pre < unat m")
    case True
    then obtain r rest' where rest: "rest = r # rest'" using Cons.prems by (cases rest) auto
    have "write_char m c (pre @ rest, of_nat (length pre)) = ((pre @ [c]) @ rest', of_nat (length (pre @ [c])))"
      using True n rest by (simp add: write_char_def word_less_nat_alt)
    then have "write_chars m (c # t) (pre @ rest, of_nat (length pre))
        = write_chars m t ((pre @ [c]) @ rest', of_nat (length (pre @ [c])))"
      by (simp add: write_chars_def)
    also have "\<dots> = (take (unat m) ((pre @ [c]) @ t)
        @ drop (length (take (unat m) ((pre @ [c]) @ t))) ((pre @ [c]) @ rest'),
       of_nat (length (pre @ [c]) + length t))"
      using Cons.prems True rest by (intro Cons.IH) auto
    also have "drop (length (take (unat m) ((pre @ [c]) @ t))) ((pre @ [c]) @ rest')
        = drop (length (take (unat m) (pre @ c # t))) (pre @ rest)"
    proof -
      obtain j where "unat m - length pre = Suc j" using True by (metis Suc_diff_Suc)
      then show ?thesis using True rest by (simp add: min_def)
    qed
    finally show ?thesis by simp
  next
    case False
    then have "length pre = unat m" using Cons.prems by simp
    then show ?thesis using write_chars_full[of m "length pre" "c # t" "pre @ rest"] Cons.prems by simp
  qed
qed

lemma vsnprintf_real_text:
  assumes "format_text env args fmt 0 = Some t" "length t < 2 ^ 32" "unat (max_len env) < length str"
  shows "grub_vsnprintf_real env str fmt args =
    Some (take (unat (max_len env)) t
            @ NUL # drop (Suc (min (unat (max_len env)) (length t))) str,
          of_nat (length t))"
proof -
  let ?m = "max_len env" and ?k = "min (unat (max_len env)) (length t)"
  have k: "unat (if of_nat (length t) < ?m then of_nat (length t) else ?m) = ?k"
    using assms(2) by (auto simp: word_less_nat_alt min_def)
  have w: "write_chars ?m t (str, 0) = (take (unat ?m) t @ drop ?k str, of_nat (length t))"
    using write_chars_buffer[of "[]" ?m t str] assms by (simp add: min.commute)
  have "(take (unat ?m) t @ drop ?k str)[?k := NUL] = take (unat ?m) t @ NUL # drop (Suc ?k) str"
  proof -
    have "drop ?k str = str ! ?k # drop (Suc ?k) str" using assms(3) by (simp add: Cons_nth_drop_Suc)
    then show ?thesis by (simp add: list_update_append min.commute)
  qed
  then show ?thesis using w k by (simp add: grub_vsnprintf_real_def loop_writes_text assms(1))
qed

text \<open>
  C10. Bounded formatting refines plain formatting: \<open>grub_vsnprintf_real\<close> stores the first
  \<open>max_len\<close> characters of the text of the format and a terminator, touches nothing behind it, and
  returns the length of the full text.
\<close>
theorem grub_vsnprintf_real_refines:
  assumes "format_text env args fmt 0 = Some t" "length t < 2 ^ 32" "unat (max_len env) < length str"
  shows "grub_vsnprintf_real env str fmt args =
    Some (take (unat (max_len env)) t
            @ NUL # drop (Suc (min (unat (max_len env)) (length t))) str,
          of_nat (length t))"
  using vsnprintf_real_text[OF assms] .

definition plain_env :: printf_env where
  "plain_env = \<lparr>max_len = 6, str_at = (\<lambda>a. if a = 0x1000 then ''hd0'' else ''''),
     guid_at = (\<lambda>_. \<lparr>data1 = 0, data2 = 0, data3 = 0, data4 = replicate 8 0\<rparr>)\<rparr>"

lemma unat_all_ones: "unat (- 1 :: u32) = 4294967295"
  by (simp add: unsigned_minus_1_eq_mask mask_eq_exp_minus_1)

lemmas format_eval = unat_all_ones format_text.simps scan_directive.simps read_directive_def skip_char_def
  cstr_at_def grub_isdigit_def schar_def conv_letter_def conv_text_def padded_def plain_env_def

theorem grub_vsnprintf_real_refines_witness:
  "grub_vsnprintf_real plain_env ''..........'' ''(%s) %c'' [0x1000, 0x21]
   = Some (''(hd0) '' @ NUL # ''...'', 7)"
proof -
  have "format_text plain_env [0x1000, 0x21] ''(%s) %c'' 0 = Some ''(hd0) !''"
    by (simp add: format_eval byte_char_def char_of_eq_iff)
  from grub_vsnprintf_real_refines[OF this, of "''..........''"] show ?thesis
    by (simp add: plain_env_def)
qed


section \<open>The format check\<close>

lemmas check_eval = parse_printf_arg_fmt_def count_args.simps type_args.simps skip_spec_def
  skip_width_def skip_digits_def skip_char_def skip_G_def cstr_at_def grub_isdigit_def schar_def
  count_conv_def fetch_from_def takes_arg_def type_position_def type_conv_def conv_type_def
  int_type_def unsigned_type_def


lemma replicate_2: "replicate 2 x = [x, x]"
  by (simp add: numeral_2_eq_2)

lemma check_examples:
  "count_args True ''%--%s%d%d'' 0 = Some (Inr 2)" "count_args True ''%d%d'' 0 = Some (Inr 2)"
  "count_args True ''%--%'' 0 = Some (Inr 0)"
  "type_args ''%--%s%d%d'' 0 [INT_t, INT_t] = Some [INT_t, INT_t]"
  "type_args ''%d%d'' 0 [INT_t, INT_t] = Some [INT_t, INT_t]"
  "type_args ''%--%'' 0 [] = Some []"
  by (simp_all add: check_eval)



end
