(* ===== verification/GrubEnv.thy ===== *)
theory GrubEnv
  imports GrubErr GrubString "HOL-Library.Multiset"
begin

text \<open>
  The environment variables of the boot loader: the hash table of \<open>kern/env.c\<close> and the stack of
  contexts and menus of \<open>normal/context.c\<close>.  A bucket is the list its \<open>next\<close> pointers link; the
  current context is the first of the stack.  A read or write hook is a function of the variable's
  name and the value; a hook that returns NULL leaves an error.  Whether the \<open>n\<close>-th allocation
  succeeds is given by \<open>alloc\<close>, so that every failure path can be taken.
\<close>


section \<open>State\<close>

type_synonym read_hook = "string \<Rightarrow> string \<Rightarrow> string option"
type_synonym write_hook = "string \<Rightarrow> string \<Rightarrow> grub_err_t + string"

record grub_env_var =
  var_name :: string
  var_value :: string
  var_read_hook :: "read_hook option"
  var_write_hook :: "write_hook option"
  var_global :: bool

abbreviation (input) HASHSZ :: nat where "HASHSZ \<equiv> 13"

type_synonym env_context = "grub_env_var list list"

record grub_menu =
  entry_list :: "string list"
  menu_size :: int

record env_state =
  contexts :: "env_context list"
  menus :: "grub_menu option list"
  grub_extractor_level :: int
  alloc :: "nat \<Rightarrow> bool"
  allocs :: nat

definition env_alloc :: "env_state \<Rightarrow> bool \<times> env_state" where
  "env_alloc st = (alloc st (allocs st), st\<lparr>allocs := allocs st + 1\<rparr>)"

definition current :: "env_state \<Rightarrow> env_context" where
  "current st = hd (contexts st)"

definition set_current :: "env_context \<Rightarrow> env_state \<Rightarrow> env_state" where
  "set_current c st = st\<lparr>contexts := c # tl (contexts st)\<rparr>"


section \<open>The hash table\<close>

definition grub_env_hashval :: "string \<Rightarrow> nat" where
  "grub_env_hashval s = unat (fold (\<lambda>c i. i + of_int (5 * schar c)) s (0 :: u32) mod of_nat HASHSZ)"

fun find_var :: "string \<Rightarrow> grub_env_var list \<Rightarrow> grub_env_var option" where
  "find_var name [] = None"
| "find_var name (v # vs) = (if grub_strcmp (var_name v) name = 0 then Some v else find_var name vs)"

definition grub_env_find :: "string \<Rightarrow> env_context \<Rightarrow> grub_env_var option" where
  "grub_env_find name c = find_var name (c ! grub_env_hashval name)"

definition grub_env_insert :: "env_context \<Rightarrow> grub_env_var \<Rightarrow> env_context" where
  "grub_env_insert c v =
    (let idx = grub_env_hashval (var_name v) in c[idx := v # c ! idx])"

text \<open>Changing the variable that was found, and unlinking it from its bucket.\<close>

fun modify_var :: "string \<Rightarrow> (grub_env_var \<Rightarrow> grub_env_var) \<Rightarrow> grub_env_var list \<Rightarrow> grub_env_var list" where
  "modify_var name f [] = []"
| "modify_var name f (v # vs) =
    (if grub_strcmp (var_name v) name = 0 then f v # vs else v # modify_var name f vs)"

definition env_modify :: "string \<Rightarrow> (grub_env_var \<Rightarrow> grub_env_var) \<Rightarrow> env_context \<Rightarrow> env_context" where
  "env_modify name f c = (let idx = grub_env_hashval name in c[idx := modify_var name f (c ! idx)])"

fun unlink_var :: "string \<Rightarrow> grub_env_var list \<Rightarrow> grub_env_var list" where
  "unlink_var name [] = []"
| "unlink_var name (v # vs) = (if grub_strcmp (var_name v) name = 0 then vs else v # unlink_var name vs)"

definition grub_env_remove :: "string \<Rightarrow> env_context \<Rightarrow> env_context" where
  "grub_env_remove name c = (let idx = grub_env_hashval name in c[idx := unlink_var name (c ! idx)])"


section \<open>Operations\<close>

definition grub_env_set :: "string \<Rightarrow> string \<Rightarrow> env_state \<Rightarrow> grub_err_t \<times> env_state" where
  "grub_env_set name val st =
    (case grub_env_find name (current st) of
       Some var \<Rightarrow>
         (let (result, st) =
            (case var_write_hook var of
               Some hook \<Rightarrow> (hook name val, st)
             | None \<Rightarrow> (let (ok, st) = env_alloc st
                        in (if ok then Inr val else Inl GRUB_ERR_OUT_OF_MEMORY, st)))
          in case result of
               Inl e \<Rightarrow> (e, st)
             | Inr v \<Rightarrow> (GRUB_ERR_NONE,
                 set_current (env_modify name (\<lambda>x. x\<lparr>var_value := v\<rparr>) (current st)) st))
     | None \<Rightarrow>
         (let (ok_var, st) = env_alloc st
          in if \<not> ok_var then (GRUB_ERR_OUT_OF_MEMORY, st)
             else let (ok_name, st) = env_alloc st
                  in if \<not> ok_name then (GRUB_ERR_OUT_OF_MEMORY, st)
                     else let (ok_value, st) = env_alloc st
                          in if \<not> ok_value then (GRUB_ERR_OUT_OF_MEMORY, st)
                             else (GRUB_ERR_NONE, set_current (grub_env_insert (current st)
                                     \<lparr>var_name = name, var_value = val, var_read_hook = None,
                                      var_write_hook = None, var_global = False\<rparr>) st)))"

definition grub_env_get :: "string \<Rightarrow> env_state \<Rightarrow> string option" where
  "grub_env_get name st =
    (case grub_env_find name (current st) of
       None \<Rightarrow> None
     | Some var \<Rightarrow> (case var_read_hook var of
                      Some hook \<Rightarrow> hook name (var_value var)
                    | None \<Rightarrow> Some (var_value var)))"

definition grub_env_get_bool :: "string \<Rightarrow> bool \<Rightarrow> env_state \<Rightarrow> bool" where
  "grub_env_get_bool name if_unset st =
    (case grub_env_get name st of
       None \<Rightarrow> if_unset
     | Some val \<Rightarrow>
         if length val < 1 then if_unset
         else if grub_strcmp val ''0'' = 0 \<or> grub_strcmp val ''false'' = 0
           \<or> grub_strcmp val ''disable'' = 0 \<or> grub_strcmp val ''no'' = 0 then False
         else True)"

definition grub_env_unset :: "string \<Rightarrow> env_state \<Rightarrow> env_state" where
  "grub_env_unset name st =
    (case grub_env_find name (current st) of
       None \<Rightarrow> st
     | Some var \<Rightarrow>
         if var_read_hook var \<noteq> None \<or> var_write_hook var \<noteq> None
         then snd (grub_env_set name '''' st)
         else set_current (grub_env_remove name (current st)) st)"

text \<open>Insertion into the list sorted so far, before the first greater name.\<close>

fun sorted_insert :: "grub_env_var \<Rightarrow> grub_env_var list \<Rightarrow> grub_env_var list" where
  "sorted_insert v [] = [v]"
| "sorted_insert v (p # ps) =
    (if grub_strcmp (var_name p) (var_name v) > 0 then v # p # ps else p # sorted_insert v ps)"

definition grub_env_update_get_sorted :: "env_state \<Rightarrow> grub_env_var list" where
  "grub_env_update_get_sorted st = fold (fold sorted_insert) (current st) []"

definition grub_register_variable_hook ::
    "string \<Rightarrow> read_hook option \<Rightarrow> write_hook option \<Rightarrow> env_state \<Rightarrow> grub_err_t \<times> env_state" where
  "grub_register_variable_hook name r w st =
    (let (e, st) = (case grub_env_find name (current st) of
                      None \<Rightarrow> grub_env_set name '''' st | Some _ \<Rightarrow> (GRUB_ERR_NONE, st))
     in if e \<noteq> GRUB_ERR_NONE then (e, st)
        else (GRUB_ERR_NONE, set_current (env_modify name
               (\<lambda>x. x\<lparr>var_read_hook := r, var_write_hook := w\<rparr>) (current st)) st))"

definition grub_env_export :: "string \<Rightarrow> env_state \<Rightarrow> grub_err_t \<times> env_state" where
  "grub_env_export name st =
    (let (e, st) = (case grub_env_find name (current st) of
                      None \<Rightarrow> grub_env_set name '''' st | Some _ \<Rightarrow> (GRUB_ERR_NONE, st))
     in if e \<noteq> GRUB_ERR_NONE then (e, st)
        else (GRUB_ERR_NONE, set_current (env_modify name (\<lambda>x. x\<lparr>var_global := True\<rparr>) (current st)) st))"

section \<open>Contexts and menus\<close>

definition grub_env_unset_menu :: "env_state \<Rightarrow> env_state" where
  "grub_env_unset_menu st = st\<lparr>menus := None # tl (menus st)\<rparr>"

definition grub_env_get_menu :: "env_state \<Rightarrow> grub_menu option" where
  "grub_env_get_menu st = hd (menus st)"

definition grub_env_set_menu :: "grub_menu option \<Rightarrow> env_state \<Rightarrow> env_state" where
  "grub_env_set_menu nmenu st = st\<lparr>menus := nmenu # tl (menus st)\<rparr>"

definition grub_env_context_close :: "env_state \<Rightarrow> grub_err_t \<times> env_state" where
  "grub_env_context_close st =
    (if tl (contexts st) = [] then (GRUB_ERR_BAD_ARGUMENT, st)
     else (GRUB_ERR_NONE, st\<lparr>contexts := tl (contexts st), menus := tl (menus st)\<rparr>))"

text \<open>Copying the exported variables of the previous context into the current one.\<close>

fun copy_vars :: "bool \<Rightarrow> grub_env_var list \<Rightarrow> env_state \<Rightarrow> grub_err_t \<times> env_state" where
  "copy_vars export_all [] st = (GRUB_ERR_NONE, st)"
| "copy_vars export_all (v # vs) st =
    (if var_global v \<or> export_all
     then (let (e, st) = grub_env_set (var_name v) (var_value v) st
           in if e \<noteq> GRUB_ERR_NONE then (e, snd (grub_env_context_close st))
              else let st = snd (grub_env_export (var_name v) st);
                       st = snd (grub_register_variable_hook (var_name v) (var_read_hook v)
                                   (var_write_hook v) st)
                   in copy_vars export_all vs st)
     else copy_vars export_all vs st)"

definition grub_env_new_context :: "bool \<Rightarrow> env_state \<Rightarrow> grub_err_t \<times> env_state" where
  "grub_env_new_context export_all st =
    (let (ok_context, st) = env_alloc st
     in if \<not> ok_context then (GRUB_ERR_OUT_OF_MEMORY, st)
        else let (ok_menu, st) = env_alloc st
             in if \<not> ok_menu then (GRUB_ERR_OUT_OF_MEMORY, st)
                else let prev = current st;
                         st = st\<lparr>contexts := replicate HASHSZ [] # contexts st, menus := None # menus st\<rparr>
                     in copy_vars export_all (concat prev) st)"

definition grub_env_context_open :: "env_state \<Rightarrow> grub_err_t \<times> env_state" where
  "grub_env_context_open st = grub_env_new_context False st"

definition grub_env_extractor_open :: "bool \<Rightarrow> env_state \<Rightarrow> grub_err_t \<times> env_state" where
  "grub_env_extractor_open source st =
    grub_env_new_context source (st\<lparr>grub_extractor_level := grub_extractor_level st + 1\<rparr>)"

text \<open>
  Closing an extractor context hands its menu entries over to the menu below; \<open>None\<close> is the
  access through a NULL menu when there is no menu below.
\<close>

definition grub_env_extractor_close :: "bool \<Rightarrow> env_state \<Rightarrow> (grub_err_t \<times> env_state) option" where
  "grub_env_extractor_close source st =
    (let menu = (if source then grub_env_get_menu st else None);
         st = (if source then grub_env_unset_menu st else st);
         (err, st) = grub_env_context_close st
     in map_option (\<lambda>st. (err, st\<lparr>grub_extractor_level := grub_extractor_level st - 1\<rparr>))
          (case menu of
             None \<Rightarrow> Some st
           | Some m \<Rightarrow>
               (case grub_env_get_menu st of
                  None \<Rightarrow> None
                | Some m2 \<Rightarrow> Some (grub_env_set_menu (Some \<lparr>entry_list = entry_list m2 @ entry_list m,
                                      menu_size = menu_size m2 + menu_size m\<rparr>) st))))"


section \<open>The table is a map from names to variables\<close>

lemma hashval_less [simp]: "grub_env_hashval s < HASHSZ"
proof -
  have "unat (x mod 13) < 13" for x :: u32 by (simp add: unat_mod)
  then show ?thesis by (simp add: grub_env_hashval_def)
qed

lemma strcmp_zero [simp]: "is_cstr a \<Longrightarrow> is_cstr b \<Longrightarrow> grub_strcmp a b = 0 \<longleftrightarrow> a = b"
  using strcmp_order by blast

definition names_ok :: "grub_env_var list \<Rightarrow> bool" where
  "names_ok vs \<longleftrightarrow> distinct (map var_name vs) \<and> (\<forall>v\<in>set vs. is_cstr (var_name v))"

definition by_name :: "grub_env_var list \<Rightarrow> string \<rightharpoonup> grub_env_var" where
  "by_name vs = map_of (map (\<lambda>v. (var_name v, v)) vs)"

lemma by_name_simps [simp]:
  "by_name [] = Map.empty" "by_name (v # vs) = (by_name vs)(var_name v \<mapsto> v)"
  by (simp_all add: by_name_def)

lemma by_name_None: "by_name vs n = None \<longleftrightarrow> n \<notin> var_name ` set vs"
  by (induction vs) auto

lemma by_name_Some: "by_name vs n = Some v \<Longrightarrow> v \<in> set vs \<and> var_name v = n"
  by (induction vs) (auto split: if_splits)

lemma find_var_by_name: "names_ok vs \<Longrightarrow> is_cstr n \<Longrightarrow> find_var n vs = by_name vs n"
  by (induction vs) (auto simp: names_ok_def)

lemma modify_var_names:
  assumes "\<And>v. var_name (f v) = var_name v"
  shows "map var_name (modify_var n f vs) = map var_name vs"
    "v \<in> set (modify_var n f vs) \<Longrightarrow> \<exists>w\<in>set vs. v = w \<or> v = f w"
  by (induction vs) (auto simp: assms split: if_splits)

lemma by_name_modify:
  assumes "\<And>v. var_name (f v) = var_name v" "names_ok vs" "is_cstr n"
  shows "by_name (modify_var n f vs) = (by_name vs)(n := map_option f (by_name vs n))"
  using assms(2)
proof (induction vs)
  case (Cons v vs)
  then show ?case using assms(1,3) by (auto simp: names_ok_def fun_eq_iff)
qed (simp add: fun_eq_iff)

lemma by_name_unlink:
  assumes "names_ok vs" "is_cstr n"
  shows "by_name (unlink_var n vs) = (by_name vs)(n := None)"
  using assms
proof (induction vs)
  case (Cons v vs)
  then show ?case by (auto simp: names_ok_def fun_eq_iff by_name_None)
qed (simp add: fun_eq_iff)

lemma unlink_var_sub: "set (unlink_var n vs) \<subseteq> set vs"
  by (induction vs) auto

lemma unlink_var_distinct: "distinct (map var_name vs) \<Longrightarrow> distinct (map var_name (unlink_var n vs))"
proof (induction vs)
  case (Cons v vs)
  then show ?case using unlink_var_sub[of n vs] by auto
qed simp

definition ctx_ok :: "env_context \<Rightarrow> bool" where
  "ctx_ok c \<longleftrightarrow> length c = HASHSZ
     \<and> (\<forall>i<HASHSZ. names_ok (c ! i) \<and> (\<forall>v\<in>set (c ! i). grub_env_hashval (var_name v) = i))"

lemma ctx_ok_bucket [simp]: "ctx_ok c \<Longrightarrow> names_ok (c ! grub_env_hashval n)" "ctx_ok c \<Longrightarrow> length c = HASHSZ"
  by (simp_all add: ctx_ok_def)

lemma find_by_name: "ctx_ok c \<Longrightarrow> is_cstr n \<Longrightarrow> grub_env_find n c = by_name (c ! grub_env_hashval n) n"
  by (simp add: grub_env_find_def find_var_by_name)

lemma nth_update_if: "xs[i := x] ! j = (if i = j \<and> i < length xs then x else xs ! j)"
  by (cases "i < length xs") (auto simp: nth_list_update list_update_beyond)

lemma ctx_ok_update:
  assumes "ctx_ok c" "names_ok vs" "\<forall>v\<in>set vs. grub_env_hashval (var_name v) = i"
  shows "ctx_ok (c[i := vs])"
  using assms by (auto simp: ctx_ok_def nth_update_if split: if_splits)

lemma find_update:
  assumes "ctx_ok c" "i < HASHSZ" "is_cstr n"
    and "names_ok vs" "\<forall>v\<in>set vs. grub_env_hashval (var_name v) = i"
  shows "grub_env_find n (c[i := vs]) = (if grub_env_hashval n = i then by_name vs n else grub_env_find n c)"
  using assms by (auto simp: grub_env_find_def find_var_by_name nth_update_if)

lemma modify_ok:
  assumes "\<And>v. var_name (f v) = var_name v" "ctx_ok c" "i < HASHSZ"
  shows "names_ok (modify_var n f (c ! i))"
    "\<forall>v\<in>set (modify_var n f (c ! i)). grub_env_hashval (var_name v) = i"
  using assms modify_var_names[of f, OF assms(1)]
  by (auto simp: names_ok_def ctx_ok_def, (metis assms(1))+)

lemma ctx_ok_modify [inv_intros]:
  "(\<And>v. var_name (f v) = var_name v) \<Longrightarrow> ctx_ok c \<Longrightarrow> ctx_ok (env_modify n f c)"
  unfolding env_modify_def Let_def by (intro ctx_ok_update modify_ok) auto

lemma find_modify:
  assumes "\<And>v. var_name (f v) = var_name v" "ctx_ok c" "is_cstr n" "is_cstr k"
  shows "grub_env_find k (env_modify n f c) =
    (if k = n then map_option f (grub_env_find n c) else grub_env_find k c)"
  using assms modify_ok[of f c "grub_env_hashval n" n]
  by (auto simp: env_modify_def Let_def find_update by_name_modify find_by_name)

lemma insert_ok:
  assumes "ctx_ok c" "is_cstr (var_name v)" "grub_env_find (var_name v) c = None"
  shows "names_ok (v # c ! grub_env_hashval (var_name v))"
  using assms ctx_ok_bucket(1)[OF assms(1), of "var_name v"]
  by (auto simp: find_by_name by_name_None names_ok_def)

lemma ctx_ok_insert [inv_intros]:
  assumes "ctx_ok c" "is_cstr (var_name v)" "grub_env_find (var_name v) c = None"
  shows "ctx_ok (grub_env_insert c v)"
  using insert_ok[OF assms] assms by (auto simp: grub_env_insert_def Let_def intro!: ctx_ok_update) (simp add: ctx_ok_def)

lemma find_insert:
  assumes "ctx_ok c" "is_cstr (var_name v)" "grub_env_find (var_name v) c = None" "is_cstr k"
  shows "grub_env_find k (grub_env_insert c v) = (if k = var_name v then Some v else grub_env_find k c)"
proof -
  have "\<forall>w\<in>set (v # c ! grub_env_hashval (var_name v)). grub_env_hashval (var_name w) = grub_env_hashval (var_name v)"
    using assms(1) by (auto simp: ctx_ok_def)
  then have f: "grub_env_find k (grub_env_insert c v) =
      (if grub_env_hashval k = grub_env_hashval (var_name v)
       then by_name (v # c ! grub_env_hashval (var_name v)) k else grub_env_find k c)"
    unfolding grub_env_insert_def Let_def
    by (intro find_update[OF assms(1) hashval_less assms(4) insert_ok[OF assms(1-3)]])
  show ?thesis
  proof (cases "k = var_name v")
    case False
    then show ?thesis unfolding f find_by_name[OF assms(1,4)] by simp
  qed (use f in simp)
qed

lemma remove_ok:
  assumes "ctx_ok c" "i < HASHSZ"
  shows "names_ok (unlink_var n (c ! i))"
    "\<forall>v\<in>set (unlink_var n (c ! i)). grub_env_hashval (var_name v) = i"
  using assms unlink_var_sub[of n "c ! i"] unlink_var_distinct[of "c ! i" n]
  by (auto simp: names_ok_def ctx_ok_def)

lemma ctx_ok_remove [inv_intros]: "ctx_ok c \<Longrightarrow> ctx_ok (grub_env_remove n c)"
  unfolding grub_env_remove_def Let_def by (intro ctx_ok_update remove_ok) auto

lemma find_remove:
  assumes "ctx_ok c" "is_cstr n" "is_cstr k"
  shows "grub_env_find k (grub_env_remove n c) = (if k = n then None else grub_env_find k c)"
  using assms remove_ok[of c "grub_env_hashval n" n]
  by (auto simp: grub_env_remove_def Let_def find_update by_name_unlink find_by_name)


section \<open>Setting, reading and unsetting\<close>

definition env_ok :: "env_state \<Rightarrow> bool" where
  "env_ok st \<longleftrightarrow> contexts st \<noteq> [] \<and> (\<forall>c\<in>set (contexts st). ctx_ok c)
     \<and> length (menus st) = length (contexts st)"

lemma env_ok_current [simp]: "env_ok st \<Longrightarrow> ctx_ok (current st)"
  by (cases "contexts st") (auto simp: env_ok_def current_def)

lemma set_current_simps [simp]:
  "current (set_current c st) = c" "tl (contexts (set_current c st)) = tl (contexts st)"
  "menus (set_current c st) = menus st" "alloc (set_current c st) = alloc st"
  "allocs (set_current c st) = allocs st"
  by (simp_all add: current_def set_current_def)

lemma env_ok_set_current [inv_intros]: "env_ok st \<Longrightarrow> ctx_ok c \<Longrightarrow> env_ok (set_current c st)"
  by (cases "contexts st") (auto simp: env_ok_def set_current_def)

lemma env_alloc_simps [simp]:
  "contexts (snd (env_alloc st)) = contexts st" "menus (snd (env_alloc st)) = menus st"
  "current (snd (env_alloc st)) = current st" "env_ok (snd (env_alloc st)) = env_ok st"
  "alloc (snd (env_alloc st)) = alloc st" "fst (env_alloc st) = alloc st (allocs st)"
  by (simp_all add: env_alloc_def current_def env_ok_def)

definition fresh_var :: "string \<Rightarrow> string \<Rightarrow> grub_env_var" where
  "fresh_var name val = \<lparr>var_name = name, var_value = val, var_read_hook = None,
     var_write_hook = None, var_global = False\<rparr>"

text \<open>The variable after an assignment: a new one, or the old one with the value its write hook
  makes of it.\<close>

definition assigned :: "string \<Rightarrow> string \<Rightarrow> grub_env_var option \<Rightarrow> grub_env_var" where
  "assigned name val old =
    (case old of
       None \<Rightarrow> fresh_var name val
     | Some var \<Rightarrow> var\<lparr>var_value := (case var_write_hook var of
                                       None \<Rightarrow> val | Some hook \<Rightarrow> projr (hook name val))\<rparr>)"

text \<open>A hook that refuses a value sets an error.\<close>

definition hook_reports :: "string \<Rightarrow> string \<Rightarrow> grub_env_var option \<Rightarrow> bool" where
  "hook_reports name val old =
    (case old of
       None \<Rightarrow> True
     | Some var \<Rightarrow> (case var_write_hook var of
                      None \<Rightarrow> True | Some hook \<Rightarrow> hook name val \<noteq> Inl GRUB_ERR_NONE))"

definition set_result :: "string \<Rightarrow> string \<Rightarrow> env_state \<Rightarrow> grub_err_t \<times> env_state \<Rightarrow> bool" where
  "set_result name val st r =
    (env_ok (snd r) \<and> tl (contexts (snd r)) = tl (contexts st) \<and> menus (snd r) = menus st
     \<and> alloc (snd r) = alloc st
     \<and> (if fst r = GRUB_ERR_NONE
        then \<forall>k. is_cstr k \<longrightarrow> grub_env_find k (current (snd r)) =
               (if k = name then Some (assigned name val (grub_env_find name (current st)))
                else grub_env_find k (current st))
        else contexts (snd r) = contexts st))"

lemma set_existing:
  assumes "env_ok st" "is_cstr name" "grub_env_find name (current st) = Some var"
    and "contexts st' = contexts st" "menus st' = menus st" "alloc st' = alloc st"
    and "v = (case var_write_hook var of None \<Rightarrow> val | Some hook \<Rightarrow> projr (hook name val))"
  shows "set_result name val st (GRUB_ERR_NONE,
    set_current (env_modify name (\<lambda>x. x\<lparr>var_value := v\<rparr>) (current st)) st')"
proof -
  have c: "env_ok st'" using assms by (simp add: env_ok_def)
  have "ctx_ok (env_modify name (\<lambda>x. x\<lparr>var_value := v\<rparr>) (current st))"
    using assms(1) by (intro inv_intros) auto
  then show ?thesis
    using assms c find_modify[of "\<lambda>x. x\<lparr>var_value := v\<rparr>" "current st" name]
    by (simp add: set_result_def assigned_def env_ok_set_current)
qed

lemma set_fresh:
  assumes "env_ok st" "is_cstr name" "grub_env_find name (current st) = None"
    and "contexts st' = contexts st" "menus st' = menus st" "alloc st' = alloc st"
  shows "set_result name val st (GRUB_ERR_NONE,
    set_current (grub_env_insert (current st) (fresh_var name val)) st')"
proof -
  have c: "env_ok st'" using assms by (simp add: env_ok_def)
  have "ctx_ok (grub_env_insert (current st) (fresh_var name val))"
    using assms by (intro inv_intros) (auto simp: fresh_var_def)
  then show ?thesis
    using assms c find_insert[of "current st" "fresh_var name val"]
    by (simp add: set_result_def assigned_def env_ok_set_current fresh_var_def)
qed

lemma set_failed:
  assumes "env_ok st" "e \<noteq> GRUB_ERR_NONE"
    and "contexts st' = contexts st" "menus st' = menus st" "alloc st' = alloc st"
  shows "set_result name val st (e, st')"
  using assms by (simp add: set_result_def env_ok_def)

lemma grub_env_set_result:
  assumes "env_ok st" "is_cstr name" "hook_reports name val (grub_env_find name (current st))"
  shows "set_result name val st (grub_env_set name val st)"
proof (cases "grub_env_find name (current st)")
  case None
  show ?thesis using None assms(1)
    by (simp add: grub_env_set_def fresh_var_def[symmetric] split_beta Let_def)
      (auto intro: set_fresh set_failed simp: None assms)
next
  case (Some var)
  show ?thesis
  proof (cases "var_write_hook var")
    case None
    then show ?thesis using Some assms
      by (auto simp: grub_env_set_def split_beta Let_def intro: set_existing set_failed)
  next
    case hook: (Some h)
    then show ?thesis using Some assms
      by (cases "h name val") (auto simp: grub_env_set_def hook_reports_def intro: set_existing set_failed)
  qed
qed


section \<open>The contract of a variable store\<close>

text \<open>
  What the commands of the boot loader rely on: reading gives the value written last, other
  variables keep theirs.
\<close>

datatype env_cmd = Set string string | Unset string

fun cmd_name :: "env_cmd \<Rightarrow> string" where
  "cmd_name (Set n v) = n"
| "cmd_name (Unset n) = n"

fun cmd_value :: "env_cmd \<Rightarrow> string option" where
  "cmd_value (Set n v) = Some v"
| "cmd_value (Unset n) = None"

locale variable_store =
  fixes ok :: "'s \<Rightarrow> bool"
    and get :: "string \<Rightarrow> 's \<Rightarrow> string option"
    and put :: "string \<Rightarrow> string \<Rightarrow> 's \<Rightarrow> 's"
    and del :: "string \<Rightarrow> 's \<Rightarrow> 's"
  assumes put_ok: "ok s \<Longrightarrow> is_cstr n \<Longrightarrow> ok (put n v s)"
    and get_put: "ok s \<Longrightarrow> is_cstr n \<Longrightarrow> is_cstr k \<Longrightarrow> get k (put n v s) = (if k = n then Some v else get k s)"
    and del_ok: "ok s \<Longrightarrow> is_cstr n \<Longrightarrow> ok (del n s)"
    and get_del: "ok s \<Longrightarrow> is_cstr n \<Longrightarrow> is_cstr k \<Longrightarrow> get k (del n s) = (if k = n then None else get k s)"
begin

definition exec :: "env_cmd \<Rightarrow> 's \<Rightarrow> 's" where
  "exec cmd s = (case cmd of Set n v \<Rightarrow> put n v s | Unset n \<Rightarrow> del n s)"

lemma exec_ok: "ok s \<Longrightarrow> is_cstr (cmd_name cmd) \<Longrightarrow> ok (exec cmd s)"
  by (cases cmd) (simp_all add: exec_def put_ok del_ok)

lemma get_exec: "ok s \<Longrightarrow> is_cstr (cmd_name cmd) \<Longrightarrow> is_cstr k \<Longrightarrow>
  get k (exec cmd s) = (if k = cmd_name cmd then cmd_value cmd else get k s)"
  by (cases cmd) (simp_all add: exec_def get_put get_del)

lemma get_script:
  assumes "ok s" "\<forall>cmd\<in>set cmds. is_cstr (cmd_name cmd)" "is_cstr k"
  shows "get k (fold exec cmds s) =
    (case find (\<lambda>cmd. cmd_name cmd = k) (rev cmds) of None \<Rightarrow> get k s | Some cmd \<Rightarrow> cmd_value cmd)"
proof -
  have "ok (fold exec cmds s) \<and> get k (fold exec cmds s) =
      (case find (\<lambda>cmd. cmd_name cmd = k) (rev cmds) of None \<Rightarrow> get k s | Some cmd \<Rightarrow> cmd_value cmd)"
    using assms(1,2)
  proof (induction cmds rule: rev_induct)
    case (snoc cmd cmds)
    then show ?case using assms(3) by (auto simp: exec_ok get_exec)
  qed simp
  then show ?thesis ..
qed

end

text \<open>Memory is available and the variables of the current context have no hooks.\<close>

definition hookless :: "env_state \<Rightarrow> bool" where
  "hookless st \<longleftrightarrow> env_ok st \<and> (\<forall>n. alloc st n)
     \<and> (\<forall>k var. is_cstr k \<longrightarrow> grub_env_find k (current st) = Some var \<longrightarrow>
          var_read_hook var = None \<and> var_write_hook var = None)"

lemma plain_get: "hookless st \<Longrightarrow> is_cstr k \<Longrightarrow>
  grub_env_get k st = map_option var_value (grub_env_find k (current st))"
  by (auto simp: hookless_def grub_env_get_def split: option.splits)

lemma plain_set:
  assumes "hookless st" "is_cstr n"
  shows "fst (grub_env_set n v st) = GRUB_ERR_NONE" "set_result n v st (grub_env_set n v st)"
proof -
  show "fst (grub_env_set n v st) = GRUB_ERR_NONE"
    using assms by (auto simp: grub_env_set_def hookless_def split_beta Let_def split: option.splits)
  show "set_result n v st (grub_env_set n v st)"
    using assms by (intro grub_env_set_result)
      (auto simp: hookless_def hook_reports_def split: option.splits)
qed

lemma assigned_plain:
  assumes "hookless st" "is_cstr n"
  shows "var_value (assigned n v (grub_env_find n (current st))) = v"
    "var_read_hook (assigned n v (grub_env_find n (current st))) = None"
    "var_write_hook (assigned n v (grub_env_find n (current st))) = None"
  using assms by (auto simp: assigned_def fresh_var_def hookless_def split: option.splits)

lemma hookless_set: "hookless st \<Longrightarrow> is_cstr n \<Longrightarrow> hookless (snd (grub_env_set n v st))"
  using plain_set[of st n v] assigned_plain[of st n v]
  by (auto simp: set_result_def hookless_def split: if_splits)

lemma plain_unset:
  assumes "hookless st" "is_cstr n"
  shows "hookless (grub_env_unset n st)"
    "is_cstr k \<Longrightarrow> grub_env_find k (current (grub_env_unset n st)) =
      (if k = n then None else grub_env_find k (current st))"
proof -
  have c: "ctx_ok (current st)" "env_ok st" using assms by (simp_all add: hookless_def)
  have u: "grub_env_unset n st =
      (if grub_env_find n (current st) = None then st else set_current (grub_env_remove n (current st)) st)"
    using assms by (auto simp: grub_env_unset_def hookless_def split: option.splits)
  show f: "is_cstr k \<Longrightarrow> grub_env_find k (current (grub_env_unset n st)) =
      (if k = n then None else grub_env_find k (current st))" for k
    using u assms(2) c by (simp add: find_remove)
  have "env_ok (grub_env_unset n st)" using u c by (auto intro!: inv_intros)
  moreover have "alloc (grub_env_unset n st) = alloc st" using u by simp
  ultimately show "hookless (grub_env_unset n st)"
    using assms(1) f by (auto simp: hookless_def split: if_splits)
qed

interpretation env: variable_store hookless grub_env_get "\<lambda>n v st. snd (grub_env_set n v st)" grub_env_unset
proof
  fix st n v k
  assume a: "hookless st" "is_cstr n"
  show "hookless (snd (grub_env_set n v st))" "hookless (grub_env_unset n st)"
    using a by (simp_all add: hookless_set plain_unset)
  assume k: "is_cstr k"
  show "grub_env_get k (snd (grub_env_set n v st)) = (if k = n then Some v else grub_env_get k st)"
    using a k plain_set[OF a, of v] assigned_plain[OF a, of v]
    by (simp add: plain_get hookless_set set_result_def)
  show "grub_env_get k (grub_env_unset n st) = (if k = n then None else grub_env_get k st)"
    using a k by (simp add: plain_get plain_unset)
qed


definition boot_env :: env_state where
  "boot_env = \<lparr>contexts = [replicate HASHSZ []], menus = [None], grub_extractor_level = 0,
     alloc = (\<lambda>_. True), allocs = 0\<rparr>"

lemma ctx_ok_empty [simp]: "ctx_ok (replicate HASHSZ [])"
  by (auto simp: ctx_ok_def names_ok_def)

lemma find_empty [simp]: "grub_env_find k (replicate HASHSZ []) = None"
  by (simp add: grub_env_find_def)

lemma boot_env_hookless: "hookless boot_env"
  using ctx_ok_empty find_empty
  by (simp add: hookless_def boot_env_def env_ok_def current_def)



section \<open>Listing\<close>

abbreviation name_key :: "grub_env_var \<Rightarrow> nat list" where
  "name_key v \<equiv> map uchar (var_name v)"

lemma strcmp_greater:
  assumes "is_cstr a" "is_cstr b"
  shows "grub_strcmp a b > 0 \<longleftrightarrow> map uchar b < map uchar a"
proof -
  have "map uchar a = map uchar b \<longleftrightarrow> a = b" by (simp add: inj_map_eq_map inj_def)
  then show ?thesis using strcmp_order[OF assms] by (metis less_le_not_le linorder_neqE not_less_iff_gr_or_eq)
qed

lemma mset_sorted_insert [simp]: "mset (sorted_insert v vs) = add_mset v (mset vs)"
  by (induction vs) auto

lemma set_sorted_insert [simp]: "set (sorted_insert v vs) = insert v (set vs)"
  by (induction vs) auto

lemma sorted_sorted_insert:
  assumes "sorted (map name_key vs)" "is_cstr (var_name v)" "\<forall>w\<in>set vs. is_cstr (var_name w)"
  shows "sorted (map name_key (sorted_insert v vs))"
  using assms(1,3)
proof (induction vs)
  case (Cons p ps)
  show ?case
  proof (cases "grub_strcmp (var_name p) (var_name v) > 0")
    case True
    then have "name_key v \<le> name_key p" using Cons.prems assms(2) by (simp add: strcmp_greater)
    then show ?thesis using Cons.prems True by auto
  next
    case False
    then have "name_key p \<le> name_key v" using Cons.prems assms(2) by (simp add: strcmp_greater not_less)
    then show ?thesis using Cons False by auto
  qed
qed simp

lemma fold_sorted_insert:
  assumes "sorted (map name_key acc)" "\<forall>w\<in>set acc \<union> set vs. is_cstr (var_name w)"
  shows "sorted (map name_key (fold sorted_insert vs acc))
    \<and> mset (fold sorted_insert vs acc) = mset vs + mset acc
    \<and> (\<forall>w\<in>set (fold sorted_insert vs acc). is_cstr (var_name w))"
  using assms
proof (induction vs arbitrary: acc)
  case (Cons v vs)
  have "sorted (map name_key (sorted_insert v acc))"
    using Cons.prems by (intro sorted_sorted_insert) simp_all
  from Cons.IH[OF this] Cons.prems show ?case by (simp add: ball_Un)
qed simp

text \<open>
  The sorted listing of the variables contains every variable of the current context once and
  is in the order of their names.
\<close>
theorem grub_env_update_get_sorted_correct:
  assumes "env_ok st"
  shows "mset (grub_env_update_get_sorted st) = mset (concat (current st))
    \<and> sorted (map name_key (grub_env_update_get_sorted st))"
proof -
  have c: "\<forall>b\<in>set (current st). \<forall>v\<in>set b. is_cstr (var_name v)"
    using env_ok_current[OF assms] unfolding ctx_ok_def names_ok_def
    by (metis in_set_conv_nth)
  have "sorted (map name_key (fold (fold sorted_insert) bs acc))
      \<and> mset (fold (fold sorted_insert) bs acc) = mset (concat bs) + mset acc"
    if "sorted (map name_key acc)" "\<forall>w\<in>set acc. is_cstr (var_name w)"
      "\<forall>b\<in>set bs. \<forall>v\<in>set b. is_cstr (var_name v)" for bs acc
    using that
  proof (induction bs arbitrary: acc)
    case (Cons b bs)
    have f: "sorted (map name_key (fold sorted_insert b acc))"
      "mset (fold sorted_insert b acc) = mset b + mset acc"
      "\<forall>w\<in>set (fold sorted_insert b acc). is_cstr (var_name w)"
      using fold_sorted_insert[of acc b] Cons.prems by auto
    show ?case using Cons.IH[OF f(1) f(3)] Cons.prems f(2) by simp
  qed simp
  from this[of "[]" "current st"] c show ?thesis by (simp add: grub_env_update_get_sorted_def)
qed

definition two_vars :: env_state where
  "two_vars = snd (grub_env_set ''b'' ''2'' (snd (grub_env_set ''a'' ''1'' boot_env)))"

lemma two_vars_ok: "env_ok two_vars"
  using hookless_set[OF hookless_set[OF boot_env_hookless, of "''a''" "''1''"], of "''b''" "''2''"]
  by (simp add: two_vars_def hookless_def is_cstr_def)

theorem grub_env_update_get_sorted_correct_witness:
  "sorted (map name_key (grub_env_update_get_sorted two_vars))
   \<and> size (mset (grub_env_update_get_sorted two_vars)) = length (concat (current two_vars))"
  using grub_env_update_get_sorted_correct[OF two_vars_ok] by simp


section \<open>Contexts\<close>

lemma find_current_set [simp]:
  assumes "env_ok st" "is_cstr n" "is_cstr k" "\<And>v. var_name (f v) = var_name v"
  shows "grub_env_find k (current (set_current (env_modify n f (current st)) st)) =
    (if k = n then map_option f (grub_env_find n (current st)) else grub_env_find k (current st))"
  using assms by (simp add: find_modify)

text \<open>What copying one variable leaves: the variable with all its attributes, exported.\<close>

lemma copy_one:
  assumes "env_ok st" "is_cstr (var_name v)" "grub_env_find (var_name v) (current st) = None"
    and set: "grub_env_set (var_name v) (var_value v) st = (GRUB_ERR_NONE, st1)"
    and st2: "st2 = snd (grub_env_export (var_name v) st1)"
    and st3: "st3 = snd (grub_register_variable_hook (var_name v) (var_read_hook v) (var_write_hook v) st2)"
  shows "env_ok st3 \<and> tl (contexts st3) = tl (contexts st) \<and> menus st3 = menus st
    \<and> (\<forall>k. is_cstr k \<longrightarrow> grub_env_find k (current st3) =
         (if k = var_name v then Some (v\<lparr>var_global := True\<rparr>) else grub_env_find k (current st)))"
proof -
  let ?n = "var_name v"
  have r: "set_result ?n (var_value v) st (GRUB_ERR_NONE, st1)"
    using grub_env_set_result[OF assms(1,2), of "var_value v"] assms(3) set by (simp add: hook_reports_def)
  then have s1: "env_ok st1" "tl (contexts st1) = tl (contexts st)" "menus st1 = menus st"
    "\<And>k. is_cstr k \<Longrightarrow> grub_env_find k (current st1) =
       (if k = ?n then Some (fresh_var ?n (var_value v)) else grub_env_find k (current st))"
    using assms(3) by (simp_all add: set_result_def assigned_def)
  have e2: "st2 = set_current (env_modify ?n (\<lambda>x. x\<lparr>var_global := True\<rparr>) (current st1)) st1"
    using s1(4)[OF assms(2)] by (simp add: st2 grub_env_export_def)
  have ok2: "env_ok st2" unfolding e2 using s1(1) by (intro inv_intros) auto
  have f2: "grub_env_find k (current st2) = (if k = ?n then Some ((fresh_var ?n (var_value v))\<lparr>var_global := True\<rparr>)
      else grub_env_find k (current st))" if "is_cstr k" for k
    using s1 assms(2) that by (simp add: e2 find_modify)
  let ?h = "\<lambda>x. x\<lparr>var_read_hook := var_read_hook v, var_write_hook := var_write_hook v\<rparr>"
  have e3: "st3 = set_current (env_modify ?n ?h (current st2)) st2"
    using f2[OF assms(2)] by (simp add: st3 grub_register_variable_hook_def)
  have ok3: "env_ok st3" unfolding e3 using ok2 by (intro inv_intros) auto
  have "grub_env_find k (current st3) = (if k = ?n then Some (v\<lparr>var_global := True\<rparr>)
      else grub_env_find k (current st))" if "is_cstr k" for k
    using f2[OF that] f2[OF assms(2)] ok2 assms(2) that
    by (simp add: e3 find_modify fresh_var_def)
  then show ?thesis using ok3 s1 by (simp add: e3 e2)
qed


definition exported :: "bool \<Rightarrow> grub_env_var option \<Rightarrow> grub_env_var option" where
  "exported export_all old =
    (case old of
       None \<Rightarrow> None
     | Some v \<Rightarrow> if var_global v \<or> export_all then Some (v\<lparr>var_global := True\<rparr>) else None)"

definition copy_result ::
    "bool \<Rightarrow> grub_env_var list \<Rightarrow> env_state \<Rightarrow> grub_err_t \<times> env_state \<Rightarrow> bool" where
  "copy_result export_all vs st r =
    (if fst r = GRUB_ERR_NONE
     then env_ok (snd r) \<and> tl (contexts (snd r)) = tl (contexts st) \<and> tl (menus (snd r)) = tl (menus st)
       \<and> (\<forall>k. is_cstr k \<longrightarrow> grub_env_find k (current (snd r)) =
            (case exported export_all (by_name vs k) of
               None \<Rightarrow> grub_env_find k (current st) | Some v \<Rightarrow> Some v))
     else contexts (snd r) = tl (contexts st) \<and> menus (snd r) = tl (menus st))"

lemma copy_vars_result:
  assumes "env_ok st" "tl (contexts st) \<noteq> []" "names_ok vs"
    "\<forall>v\<in>set vs. grub_env_find (var_name v) (current st) = None"
  shows "copy_result export_all vs st (copy_vars export_all vs st)"
  using assms
proof (induction vs arbitrary: st)
  case Nil
  then show ?case by (simp add: copy_result_def exported_def)
next
  case (Cons v vs)
  have v: "is_cstr (var_name v)" "grub_env_find (var_name v) (current st) = None"
    and vs: "names_ok vs" "by_name vs (var_name v) = None"
    using Cons.prems by (auto simp: names_ok_def by_name_None)
  show ?case
  proof (cases "var_global v \<or> export_all")
    case False
    then have "copy_result export_all vs st (copy_vars export_all vs st)"
      using Cons vs by simp
    then show ?thesis using False vs(2) by (auto simp: copy_result_def exported_def)
  next
    case True
    obtain e st1 where s: "grub_env_set (var_name v) (var_value v) st = (e, st1)"
      by (cases "grub_env_set (var_name v) (var_value v) st")
    have r: "set_result (var_name v) (var_value v) st (e, st1)"
      using grub_env_set_result[OF Cons.prems(1) v(1), of "var_value v"] v(2) s
      by (simp add: hook_reports_def)
    show ?thesis
    proof (cases "e = GRUB_ERR_NONE")
      case ok: True
      define st3 where "st3 = snd (grub_register_variable_hook (var_name v) (var_read_hook v)
          (var_write_hook v) (snd (grub_env_export (var_name v) st1)))"
      have c: "env_ok st3" "tl (contexts st3) = tl (contexts st)" "menus st3 = menus st"
        and f: "\<And>k. is_cstr k \<Longrightarrow> grub_env_find k (current st3) =
          (if k = var_name v then Some (v\<lparr>var_global := True\<rparr>) else grub_env_find k (current st))"
        using copy_one[OF Cons.prems(1) v s[unfolded ok] refl st3_def] by auto
      have "\<forall>w\<in>set vs. grub_env_find (var_name w) (current st3) = None"
      proof
        fix w assume w: "w \<in> set vs"
        then have "var_name w \<noteq> var_name v" using vs(2) by (metis by_name_None imageI)
        then show "grub_env_find (var_name w) (current st3) = None"
          using Cons.prems f w vs(1) by (simp add: names_ok_def)
      qed
      then have ih: "copy_result export_all vs st3 (copy_vars export_all vs st3)"
        using Cons.IH[of st3] c vs Cons.prems by simp
      have step: "copy_vars export_all (v # vs) st = copy_vars export_all vs st3"
        using True s ok by (simp add: st3_def)
      have ex: "exported export_all (by_name (v # vs) k) =
          (if k = var_name v then Some (v\<lparr>var_global := True\<rparr>) else exported export_all (by_name vs k))" for k
        using True by (simp add: exported_def)
      have "exported export_all (by_name vs (var_name v)) = None" using vs(2) by (simp add: exported_def)
      then have "(case exported export_all (by_name vs k) of
            None \<Rightarrow> grub_env_find k (current st3) | Some v \<Rightarrow> Some v) =
          (case exported export_all (by_name (v # vs) k) of
            None \<Rightarrow> grub_env_find k (current st) | Some v \<Rightarrow> Some v)" if "is_cstr k" for k
        using f[OF that] unfolding ex by (cases "k = var_name v") (simp_all split: option.split)
      then show ?thesis using ih c unfolding step copy_result_def by (simp del: by_name_simps)
    next
      case False
      then show ?thesis using s r True Cons.prems(2)
        by (simp add: copy_result_def set_result_def grub_env_context_close_def)
    qed
  qed
qed

lemma in_concat_nth: "v \<in> set (concat xs) \<Longrightarrow> \<exists>i<length xs. v \<in> set (xs ! i)"
  by (metis UN_E in_set_conv_nth set_concat)

lemma names_ok_concat:
  assumes "ctx_ok c"
  shows "names_ok (concat c)" "is_cstr k \<Longrightarrow> by_name (concat c) k = grub_env_find k c"
proof -
  have b: "i < HASHSZ \<Longrightarrow> distinct (map var_name (c ! i))"
    "i < HASHSZ \<Longrightarrow> v \<in> set (c ! i) \<Longrightarrow> is_cstr (var_name v) \<and> grub_env_hashval (var_name v) = i" for i v
    using assms by (auto simp: ctx_ok_def names_ok_def)
  have len: "length c = HASHSZ" using assms by simp
  have "distinct (map var_name (concat (take j c)))" if "j \<le> HASHSZ" for j
    using that
  proof (induction j)
    case (Suc j)
    have lt: "grub_env_hashval (var_name v) < j" if v: "v \<in> set (concat (take j c))" for v
    proof -
      obtain i where "i < j" "v \<in> set (c ! i)" using in_concat_nth[OF v] Suc.prems len by auto
      then show ?thesis using b(2)[of i v] Suc.prems by simp
    qed
    have eq: "grub_env_hashval (var_name v) = j" if "v \<in> set (c ! j)" for v
      using b(2)[of j v] that Suc.prems by simp
    have "var_name ` set (concat (take j c)) \<inter> var_name ` set (c ! j) = {}"
    proof -
      have "var_name v \<noteq> var_name w" if "v \<in> set (concat (take j c))" "w \<in> set (c ! j)" for v w
        using lt[OF that(1)] eq[OF that(2)] by auto
      then show ?thesis by blast
    qed
    then show ?case
      using Suc b(1)[of j] len by (simp add: take_Suc_conv_app_nth)
  qed simp
  from this[of HASHSZ] have d: "distinct (map var_name (concat c))" using len by simp
  have cs: "\<forall>v\<in>set (concat c). is_cstr (var_name v)"
  proof
    fix v assume "v \<in> set (concat c)"
    then obtain i where "i < HASHSZ" "v \<in> set (c ! i)" using in_concat_nth[of v c] len by auto
    then show "is_cstr (var_name v)" using b(2) by blast
  qed
  show n: "names_ok (concat c)" using d cs by (simp add: names_ok_def)
  assume k: "is_cstr k"
  show "by_name (concat c) k = grub_env_find k c"
  proof (cases "by_name (concat c) k")
    case None
    then have "k \<notin> var_name ` set (c ! grub_env_hashval k)"
    proof -
      have "c ! grub_env_hashval k \<in> set c" using hashval_less[of k] len by (intro nth_mem) simp
      then have "set (c ! grub_env_hashval k) \<subseteq> set (concat c)" by auto
      then show ?thesis using None unfolding by_name_None by blast
    qed
    then have "by_name (c ! grub_env_hashval k) k = None" unfolding by_name_None .
    then show ?thesis using None assms k by (simp add: find_by_name)
  next
    case (Some v)
    then have v: "v \<in> set (concat c)" "var_name v = k" using by_name_Some by blast+
    then obtain i where i: "i < HASHSZ" "v \<in> set (c ! i)" using in_concat_nth[of v c] len by auto
    then have "v \<in> set (c ! grub_env_hashval k)" using b(2)[OF i] v(2) by simp
    moreover have "names_ok (c ! grub_env_hashval k)" using assms by simp
    ultimately have "by_name (c ! grub_env_hashval k) k = Some v"
      using v(2) by (auto simp: by_name_def names_ok_def intro!: map_of_is_SomeI simp: comp_def)
    then show ?thesis using Some assms k by (simp add: find_by_name)
  qed
qed

text \<open>
  C25. Contexts: opening one keeps the stack below, shows exactly the exported variables of the
  context it was opened in, with value and hooks, and closing it gives back the stack as it was;
  when memory runs out nothing has changed.
\<close>
theorem context_open_close:
  assumes "env_ok st" "grub_env_context_open st = (e, st')"
  shows "if e = GRUB_ERR_NONE
    then (\<forall>k. is_cstr k \<longrightarrow> grub_env_find k (current st') =
            exported False (grub_env_find k (current st)))
      \<and> (\<exists>st''. grub_env_context_close st' = (GRUB_ERR_NONE, st'')
            \<and> contexts st'' = contexts st \<and> menus st'' = menus st)
    else contexts st' = contexts st \<and> menus st' = menus st"
proof -
  let ?a = "snd (env_alloc (snd (env_alloc st)))"
  define st0 where "st0 = ?a\<lparr>contexts := replicate HASHSZ [] # contexts ?a, menus := None # menus ?a\<rparr>"
  have c: "contexts st0 = replicate HASHSZ [] # contexts st" "menus st0 = None # menus st"
    "current st0 = replicate HASHSZ []"
    by (simp_all add: st0_def current_def)
  have ok: "env_ok st0" "tl (contexts st0) \<noteq> []"
    using assms(1) ctx_ok_empty unfolding env_ok_def c by auto
  have cur: "ctx_ok (current st)" using assms(1) by simp
  show ?thesis
  proof (cases "alloc st (allocs st) \<and> alloc st (allocs (snd (env_alloc st)))")
    case False
    then show ?thesis using assms(2)
      by (auto simp: grub_env_context_open_def grub_env_new_context_def split_beta Let_def split: if_splits)
  next
    case True
    then have r: "(e, st') = copy_vars False (concat (current st)) st0"
      using assms(2) by (simp add: grub_env_context_open_def grub_env_new_context_def split_beta Let_def st0_def)
    have res: "copy_result False (concat (current st)) st0 (e, st')"
      unfolding r using ok names_ok_concat[OF cur] c(3) find_empty by (intro copy_vars_result) auto
    have id: "(case x of None \<Rightarrow> grub_env_find k (current st0) | Some v \<Rightarrow> Some v) = x" for x k
      unfolding c(3) find_empty by (cases x) simp_all
    have "tl (contexts st') \<noteq> []" if "tl (contexts st') = contexts st"
      using assms(1) that by (simp add: env_ok_def)
    then show ?thesis
      using res names_ok_concat(2)[OF cur] c find_empty
      by (cases "e = GRUB_ERR_NONE") (simp_all add: copy_result_def grub_env_context_close_def id)
  qed
qed

theorem context_open_close_witness:
  "fst (grub_env_context_open boot_env) = GRUB_ERR_NONE
   \<and> contexts (snd (grub_env_context_close (snd (grub_env_context_open boot_env)))) = contexts boot_env"
proof -
  obtain e st' where o: "grub_env_context_open boot_env = (e, st')" by (cases "grub_env_context_open boot_env")
  have "e = GRUB_ERR_NONE"
    using o by (simp add: grub_env_context_open_def grub_env_new_context_def boot_env_def env_alloc_def
        current_def numeral_eq_Suc)
  then show ?thesis using context_open_close[OF _ o] boot_env_hookless o
    by (auto simp: hookless_def)
qed

end
