(* ===== verification/GrubBuffer.thy ===== *)
theory GrubBuffer
  imports GrubErr
begin

text \<open>
  The growing byte buffer of \<open>kern/buffer.c\<close> and \<open>include/grub/buffer.h\<close>, with 32-bit sizes.  The
  allocator is a parameter: which sizes it can provide, and what a byte holds that has never been
  written.  An array access outside the allocated data is the result \<open>None\<close>.
\<close>

record heap_env =
  can_alloc :: "u32 \<Rightarrow> bool"
  junk :: char

record grub_buffer =
  buf_data :: string
  buf_sz :: u32
  buf_pos :: u32
  buf_used :: u32

text \<open>\<open>grub_add\<close>: the sum, or None on overflow.\<close>

definition grub_add :: "u32 \<Rightarrow> u32 \<Rightarrow> u32 option" where
  "grub_add a b = (if a + b < a then None else Some (a + b))"

definition grub_buffer_new :: "heap_env \<Rightarrow> u32 \<Rightarrow> grub_buffer option" where
  "grub_buffer_new h sz =
    (if can_alloc h 16 \<and> can_alloc h sz
     then Some \<lparr>buf_data = replicate (unat sz) (junk h), buf_sz = sz, buf_pos = 0, buf_used = 0\<rparr>
     else None)"

definition grub_buffer_get_unread_bytes :: "grub_buffer \<Rightarrow> u32" where
  "grub_buffer_get_unread_bytes buf = buf_used buf - buf_pos buf"

text \<open>Doubling until the request fits; zero after the highest bit is shifted out.\<close>

function next_size :: "u32 \<Rightarrow> u32 \<Rightarrow> u32 option" where
  "next_size newsz req =
    (if newsz < req then (if newsz = 0 then None else next_size (push_bit 1 newsz) req)
     else Some newsz)"
  by auto

lemma shift_out_shrinks:
  fixes w :: u32
  assumes "w \<noteq> 0"
  shows "(LEAST n. push_bit n (push_bit 1 w) = 0) < (LEAST n. push_bit n w = 0)"
proof -
  have "push_bit 32 w = 0"
    by (rule bit_word_eqI) (simp add: bit_push_bit_iff)
  then have "(LEAST n. push_bit n w = 0) = Suc (LEAST n. push_bit (Suc n) w = 0)"
    using assms by (intro Least_Suc[where n = 32]) auto
  then show ?thesis by simp
qed

termination next_size
  by (relation "measure (\<lambda>(w, _). LEAST n. push_bit n w = 0)")
     (use shift_out_shrinks in \<open>auto simp del: push_bit_Suc\<close>)

declare next_size.simps [simp del]

definition grub_buffer_ensure_space ::
    "heap_env \<Rightarrow> grub_buffer \<Rightarrow> u32 \<Rightarrow> grub_err_t \<times> grub_buffer" where
  "grub_buffer_ensure_space h buf req =
    (if buf_sz buf \<ge> req then (GRUB_ERR_NONE, buf)
     else case next_size 1 req of
       None \<Rightarrow> (GRUB_ERR_OUT_OF_RANGE, buf)
     | Some newsz \<Rightarrow>
         if \<not> can_alloc h newsz then (GRUB_ERR_OUT_OF_MEMORY, buf)
         else (GRUB_ERR_NONE, buf\<lparr>
                buf_data := buf_data buf @ replicate (unat newsz - length (buf_data buf)) (junk h),
                buf_sz := newsz\<rparr>))"

text \<open>\<open>grub_memcpy\<close> into the data.\<close>

definition store_at :: "nat \<Rightarrow> string \<Rightarrow> string \<Rightarrow> string option" where
  "store_at i d data =
    (if i + length d \<le> length data then Some (take i data @ d @ drop (i + length d) data) else None)"

definition grub_buffer_append_data ::
    "heap_env \<Rightarrow> grub_buffer \<Rightarrow> string \<Rightarrow> (grub_err_t \<times> grub_buffer) option" where
  "grub_buffer_append_data h buf d =
    (case grub_add (buf_used buf) (of_nat (length d)) of
       None \<Rightarrow> Some (GRUB_ERR_OUT_OF_RANGE, buf)
     | Some req \<Rightarrow>
         (case grub_buffer_ensure_space h buf req of
            (e, buf) \<Rightarrow>
              if e \<noteq> GRUB_ERR_NONE then Some (e, buf)
              else map_option (\<lambda>data. (GRUB_ERR_NONE, buf\<lparr>buf_data := data, buf_used := req\<rparr>))
                     (store_at (unat (buf_used buf)) d (buf_data buf))))"

definition grub_buffer_append_char ::
    "heap_env \<Rightarrow> grub_buffer \<Rightarrow> char \<Rightarrow> (grub_err_t \<times> grub_buffer) option" where
  "grub_buffer_append_char h buf c = grub_buffer_append_data h buf [c]"

definition grub_buffer_take_data :: "grub_buffer \<Rightarrow> string \<times> grub_buffer" where
  "grub_buffer_take_data buf =
    (buf_data buf, buf\<lparr>buf_data := [], buf_sz := 0, buf_pos := 0, buf_used := 0\<rparr>)"

definition grub_buffer_reset :: "grub_buffer \<Rightarrow> grub_buffer" where
  "grub_buffer_reset buf = buf\<lparr>buf_pos := 0, buf_used := 0\<rparr>"

text \<open>A peek returns the data from the position on, as the pointer does; \<open>None\<close> is NULL.\<close>

definition grub_buffer_peek_data_at :: "grub_buffer \<Rightarrow> u32 \<Rightarrow> string option" where
  "grub_buffer_peek_data_at buf off =
    (case grub_add (buf_pos buf) off of
       None \<Rightarrow> None
     | Some off \<Rightarrow> if off \<ge> buf_used buf then None else Some (drop (unat off) (buf_data buf)))"

definition grub_buffer_peek_data :: "grub_buffer \<Rightarrow> string option" where
  "grub_buffer_peek_data buf = grub_buffer_peek_data_at buf 0"

definition grub_buffer_advance_read_pos :: "grub_buffer \<Rightarrow> u32 \<Rightarrow> grub_err_t \<times> grub_buffer" where
  "grub_buffer_advance_read_pos buf n =
    (case grub_add (buf_pos buf) n of
       None \<Rightarrow> (GRUB_ERR_OUT_OF_RANGE, buf)
     | Some newpos \<Rightarrow>
         if newpos > buf_used buf then (GRUB_ERR_OUT_OF_RANGE, buf)
         else (GRUB_ERR_NONE, buf\<lparr>buf_pos := newpos\<rparr>))"


section \<open>The buffer is a list of bytes\<close>

definition buf_ok :: "grub_buffer \<Rightarrow> bool" where
  "buf_ok b \<longleftrightarrow> length (buf_data b) = unat (buf_sz b) \<and> buf_used b \<le> buf_sz b \<and> buf_pos b \<le> buf_used b"

definition buf_written :: "grub_buffer \<Rightarrow> string" where
  "buf_written b = take (unat (buf_used b)) (buf_data b)"

definition buf_unread :: "grub_buffer \<Rightarrow> string" where
  "buf_unread b = drop (unat (buf_pos b)) (buf_written b)"

lemma grub_add_iff: "grub_add a b = (if unat a + unat b < 2 ^ 32 then Some (a + b) else None)"
  using unat_less[of a] unat_less[of b]
  by (auto simp: grub_add_def word_less_nat_alt unat_plus_if')

lemma unat_pow2: "i < 32 \<Longrightarrow> unat (2 ^ i :: u32) = 2 ^ i"
  using unat_of_nat_id[of "2 ^ i", where 'a = 32] power_strict_increasing[of i 32 "2 :: nat"] by simp

lemma next_size_pow2:
  assumes "i \<le> 32" "0 < req"
  shows "case next_size (2 ^ i) req of
           Some s \<Rightarrow> req \<le> s \<and> (\<exists>k<32. s = 2 ^ k \<and> (k = i \<or> i < k \<and> 2 ^ (k - 1) < unat req))
         | None \<Rightarrow> 2 ^ 31 < unat req \<or> i = 32"
  using assms(1)
proof (induction "32 - i" arbitrary: i)
  case 0
  then have "i = 32" by simp
  moreover have "(2 :: u32) ^ 32 = 0" by simp
  moreover have "next_size 0 req = None" using assms(2) by (simp add: next_size.simps[of 0])
  ultimately show ?case by (simp only: option.case) simp
next
  case (Suc d)
  then have i: "i < 32" by simp
  then have nz: "(2 :: u32) ^ i \<noteq> 0" using unat_pow2[of i] by (metis power_not_zero unat_0 zero_neq_numeral)
  have step: "next_size (2 ^ i) req = (if 2 ^ i < req then next_size (2 ^ Suc i) req else Some (2 ^ i))"
    using nz by (simp add: next_size.simps[of "2 ^ i"] push_bit_eq_mult mult.commute)
  show ?case
  proof (cases "2 ^ i < req")
    case True
    then have lt: "2 ^ i < unat req" using unat_pow2[OF i] by (simp add: word_less_nat_alt)
    have "next_size (2 ^ i) req = next_size (2 ^ Suc i) req" using step True by simp
    moreover have "case next_size (2 ^ Suc i) req of
           Some s \<Rightarrow> req \<le> s \<and> (\<exists>k<32. s = 2 ^ k \<and> (k = Suc i \<or> Suc i < k \<and> 2 ^ (k - 1) < unat req))
         | None \<Rightarrow> 2 ^ 31 < unat req \<or> Suc i = 32"
      using Suc.hyps(1)[of "Suc i"] Suc.hyps(2) i by simp
    moreover have "2 ^ 31 < unat req" if "Suc i = 32"
      using lt that by simp
    ultimately show ?thesis using lt i by (cases "next_size (2 ^ Suc i) req") auto
  next
    case False
    then show ?thesis unfolding step using i by auto
  qed
qed

lemma ensure_space_fits:
  assumes "buf_ok b"
  shows "case grub_buffer_ensure_space h b req of (e, b') \<Rightarrow>
    if e = GRUB_ERR_NONE
    then buf_ok b' \<and> req \<le> buf_sz b' \<and> buf_written b' = buf_written b
         \<and> buf_used b' = buf_used b \<and> buf_pos b' = buf_pos b
    else b' = b"
proof (cases "req \<le> buf_sz b")
  case True
  then show ?thesis using assms by (simp add: grub_buffer_ensure_space_def)
next
  case False
  then have pos: "0 < req" and lt: "buf_sz b < req" by (auto simp: word_neq_0_conv[symmetric])
  show ?thesis
  proof (cases "next_size 1 req")
    case None
    then show ?thesis using False by (simp add: grub_buffer_ensure_space_def)
  next
    case (Some s)
    then have s: "req \<le> s" using next_size_pow2[of 0 req] pos by simp
    then have "unat (buf_sz b) \<le> unat s" "buf_sz b \<le> s" using lt by (auto simp: word_le_nat_alt word_less_nat_alt)
    then show ?thesis
      using False Some assms s
      by (auto simp: grub_buffer_ensure_space_def buf_ok_def buf_written_def word_le_nat_alt)
  qed
qed

lemma ensure_space_fails:
  assumes "grub_buffer_ensure_space h b req = (e, b')" "e \<noteq> GRUB_ERR_NONE"
  shows "2 ^ 31 < unat req \<or> (\<exists>k<32. \<not> can_alloc h (2 ^ k))"
proof -
  have "\<not> req \<le> buf_sz b" using assms by (auto simp: grub_buffer_ensure_space_def)
  then have "0 < req" by (auto simp: word_neq_0_conv[symmetric])
  then show ?thesis
    using assms next_size_pow2[of 0 req]
    by (auto simp: grub_buffer_ensure_space_def split: option.splits if_splits)
qed

lemma append_data_cases:
  assumes "buf_ok b" "length d < 2 ^ 32"
  obtains e b' where "grub_buffer_append_data h b d = Some (e, b')" "buf_ok b'" "buf_pos b' = buf_pos b"
    "buf_written b' = (if e = GRUB_ERR_NONE then buf_written b @ d else buf_written b)"
    "e \<noteq> GRUB_ERR_NONE \<Longrightarrow> b' = b \<and>
      (2 ^ 31 < length (buf_written b) + length d \<or> (\<exists>k<32. \<not> can_alloc h (2 ^ k)))"
proof -
  have used: "length (buf_written b) = unat (buf_used b)"
    using assms(1) by (simp add: buf_written_def buf_ok_def word_le_nat_alt)
  show thesis
  proof (cases "unat (buf_used b) + length d < 2 ^ 32")
    case False
    then show thesis using assms used
      by (intro that[of GRUB_ERR_OUT_OF_RANGE b])
         (simp_all add: grub_buffer_append_data_def grub_add_iff)
  next
    case True
    define req where "req = buf_used b + of_nat (length d)"
    have req: "grub_add (buf_used b) (of_nat (length d)) = Some req" "unat req = unat (buf_used b) + length d"
      using True assms(2) by (simp_all add: grub_add_iff req_def unat_word_ariths)
    obtain e b' where eb: "grub_buffer_ensure_space h b req = (e, b')" by fastforce
    note fits = ensure_space_fits[OF assms(1), where h = h and req = req, unfolded eb prod.case]
    show thesis
    proof (cases "e = GRUB_ERR_NONE")
      case False
      then show thesis using fits assms(1) used req ensure_space_fails[OF eb]
        by (intro that[of e b]) (auto simp: grub_buffer_append_data_def eb)
    next
      case True
      then show thesis using fits req used assms(1)
        by (intro that[of e "b'\<lparr>buf_data := take (unat (buf_used b)) (buf_data b') @ d
              @ drop (unat (buf_used b) + length d) (buf_data b'), buf_used := req\<rparr>"])
           (auto simp: grub_buffer_append_data_def eb store_at_def buf_ok_def buf_written_def word_le_nat_alt)
    qed
  qed
qed

lemma length_written: "buf_ok b \<Longrightarrow> length (buf_written b) = unat (buf_used b)"
  by (simp add: buf_written_def buf_ok_def word_le_nat_alt)

lemma length_unread: "buf_ok b \<Longrightarrow> length (buf_unread b) = unat (buf_used b) - unat (buf_pos b)"
  by (simp add: buf_unread_def length_written)

lemma unread_split:
  "buf_ok b \<Longrightarrow> buf_written b = take (unat (buf_pos b)) (buf_written b) @ buf_unread b"
  by (simp add: buf_unread_def)

lemma advance_read:
  assumes "buf_ok b"
  shows "grub_buffer_advance_read_pos b n =
    (if unat n \<le> length (buf_unread b) then (GRUB_ERR_NONE, b\<lparr>buf_pos := buf_pos b + n\<rparr>)
     else (GRUB_ERR_OUT_OF_RANGE, b))"
proof -
  have le: "unat (buf_pos b) \<le> unat (buf_used b)" using assms by (simp add: buf_ok_def word_le_nat_alt)
  have "unat (buf_pos b) + unat n < 2 ^ 32" if "unat n \<le> unat (buf_used b) - unat (buf_pos b)"
    using that le unat_less[of "buf_used b"] by simp
  then show ?thesis using le
    by (auto simp: grub_buffer_advance_read_pos_def grub_add_iff length_unread[OF assms]
        word_less_nat_alt unat_plus_if')
qed

lemma advance_unread:
  assumes "buf_ok b" "unat n \<le> length (buf_unread b)"
  shows "buf_ok (b\<lparr>buf_pos := buf_pos b + n\<rparr>)"
    and "buf_unread (b\<lparr>buf_pos := buf_pos b + n\<rparr>) = drop (unat n) (buf_unread b)"
proof -
  have le: "unat (buf_pos b) \<le> unat (buf_used b)" using assms by (simp add: buf_ok_def word_le_nat_alt)
  then have "unat (buf_pos b + n) = unat (buf_pos b) + unat n"
    using assms unat_less[of "buf_used b"] by (simp add: length_unread unat_plus_if')
  then show "buf_ok (b\<lparr>buf_pos := buf_pos b + n\<rparr>)"
    and "buf_unread (b\<lparr>buf_pos := buf_pos b + n\<rparr>) = drop (unat n) (buf_unread b)"
    using assms le
    by (simp_all add: length_unread buf_ok_def buf_unread_def buf_written_def word_le_nat_alt add.commute)
qed

lemma drop_take_rest:
  assumes "k \<le> n" "n \<le> length xs"
  shows "drop k xs = drop k (take n xs) @ drop n xs"
proof -
  have "drop k (take n xs @ drop n xs) = drop k (take n xs) @ drop n xs"
    unfolding drop_append using assms by simp
  then show ?thesis by simp
qed

lemma peek_at:
  assumes "buf_ok b"
  shows "grub_buffer_peek_data_at b off =
    (if unat off < length (buf_unread b)
     then Some (drop (unat off) (buf_unread b) @ drop (unat (buf_used b)) (buf_data b)) else None)"
proof (cases "unat off < length (buf_unread b)")
  case True
  then have sum: "unat (buf_pos b) + unat off < unat (buf_used b)"
    by (simp add: length_unread[OF assms])
  then have "unat (buf_pos b + off) = unat (buf_pos b) + unat off"
    using unat_less[of "buf_used b"] by (simp add: unat_plus_if')
  moreover have "drop (unat (buf_pos b) + unat off) (buf_data b) =
      drop (unat off) (buf_unread b) @ drop (unat (buf_used b)) (buf_data b)"
    using sum assms drop_take_rest[of "unat (buf_pos b) + unat off" "unat (buf_used b)" "buf_data b"]
    by (simp add: buf_unread_def buf_written_def buf_ok_def word_le_nat_alt add.commute)
  ultimately show ?thesis
    using True sum unat_less[of "buf_used b"]
    by (simp add: grub_buffer_peek_data_at_def grub_add_iff word_le_nat_alt)
next
  case False
  then show ?thesis
    using unat_less[of "buf_used b"]
    by (auto simp: grub_buffer_peek_data_at_def grub_add_iff word_le_nat_alt length_unread[OF assms] unat_plus_if')
qed

lemma peek_first:
  "buf_ok b \<Longrightarrow> grub_buffer_peek_data b =
    (if buf_unread b = [] then None else Some (buf_unread b @ drop (unat (buf_used b)) (buf_data b)))"
  by (simp add: grub_buffer_peek_data_def peek_at)


section \<open>The contract of a byte buffer\<close>

text \<open>What a client relies on: an append is total, adds the bytes at the end or leaves the buffer
  as it is, and a reset empties it.\<close>

locale byte_buffer =
  fixes inv :: "'b \<Rightarrow> bool" and bytes :: "'b \<Rightarrow> string"
    and app :: "'b \<Rightarrow> string \<Rightarrow> (grub_err_t \<times> 'b) option" and reset :: "'b \<Rightarrow> 'b"
  assumes app_result: "inv b \<Longrightarrow> length d < 2 ^ 32 \<Longrightarrow>
      \<exists>e b'. app b d = Some (e, b') \<and> inv b' \<and> bytes b' = (if e = GRUB_ERR_NONE then bytes b @ d else bytes b)"
    and reset_result: "inv b \<Longrightarrow> inv (reset b) \<and> bytes (reset b) = []"
begin

primrec app_all :: "'b \<Rightarrow> string list \<Rightarrow> (grub_err_t \<times> 'b) option" where
  "app_all b [] = Some (GRUB_ERR_NONE, b)"
| "app_all b (d # ds) =
    (case app b d of None \<Rightarrow> None
     | Some (e, b') \<Rightarrow> if e = GRUB_ERR_NONE then app_all b' ds else Some (e, b'))"

lemma app_all_result:
  assumes "inv b" "\<forall>d \<in> set ds. length d < 2 ^ 32"
  shows "\<exists>e b' n. app_all b ds = Some (e, b') \<and> inv b' \<and> bytes b' = bytes b @ concat (take n ds)
    \<and> (e = GRUB_ERR_NONE \<longrightarrow> n = length ds)"
  using assms
proof (induction ds arbitrary: b)
  case (Cons d ds)
  obtain e b' where b': "app b d = Some (e, b')" "inv b'"
      "bytes b' = (if e = GRUB_ERR_NONE then bytes b @ d else bytes b)"
    using app_result[of b d] Cons.prems by auto
  show ?case
  proof (cases "e = GRUB_ERR_NONE")
    case True
    obtain e' b'' n where "app_all b' ds = Some (e', b'')" "inv b''"
        "bytes b'' = bytes b' @ concat (take n ds)" "e' = GRUB_ERR_NONE \<longrightarrow> n = length ds"
      using Cons.IH[OF b'(2)] Cons.prems by auto
    then show ?thesis using True b' by (intro exI[of _ e'] exI[of _ b''] exI[of _ "Suc n"]) simp
  next
    case False
    then show ?thesis using b' by (intro exI[of _ e] exI[of _ b'] exI[of _ 0]) simp
  qed
qed simp

end

lemma append_data_result:
  assumes "buf_ok b" "length d < 2 ^ 32"
  shows "\<exists>e b'. grub_buffer_append_data h b d = Some (e, b') \<and> buf_ok b'
    \<and> buf_written b' = (if e = GRUB_ERR_NONE then buf_written b @ d else buf_written b)"
  using append_data_cases[OF assms, of h] by metis

interpretation buf: byte_buffer buf_ok buf_written "grub_buffer_append_data h" grub_buffer_reset for h
  by unfold_locales
     (rule append_data_result, assumption+,
      simp add: grub_buffer_reset_def buf_ok_def buf_written_def)

text \<open>C13. The growing buffer is a queue of bytes: an append never writes outside the allocated data,
  and it either adds its bytes after the ones written before, keeping the read position, or fails and
  changes nothing, which happens only above two gigabytes or when memory runs out; peeking shows the
  unread bytes, and advancing drops that many of them, refusing to go beyond the written data.\<close>

theorem grub_buffer_queue:
  assumes "buf_ok b" and "length d < 2 ^ 32"
  shows "(\<exists>e b'. grub_buffer_append_data h b d = Some (e, b') \<and> buf_ok b' \<and>
            (if e = GRUB_ERR_NONE then buf_unread b' = buf_unread b @ d
             else b' = b \<and> (2 ^ 31 < length (buf_written b) + length d \<or> (\<exists>k<32. \<not> can_alloc h (2 ^ k)))))
    \<and> (grub_buffer_peek_data b = None \<longleftrightarrow> buf_unread b = [])
    \<and> map_option (take (length (buf_unread b) - unat n)) (grub_buffer_peek_data_at b n) =
        (if unat n < length (buf_unread b) then Some (drop (unat n) (buf_unread b)) else None)
    \<and> (case grub_buffer_advance_read_pos b n of (e, b') \<Rightarrow> buf_ok b' \<and>
        (if unat n \<le> length (buf_unread b) then e = GRUB_ERR_NONE \<and> buf_unread b' = drop (unat n) (buf_unread b)
         else e = GRUB_ERR_OUT_OF_RANGE \<and> b' = b))"
    (is "?app \<and> ?peek \<and> ?at \<and> ?adv")
proof (intro conjI)
  have "unat (buf_pos b) \<le> length (buf_written b)"
    using assms(1) by (simp add: length_written) (simp add: buf_ok_def word_le_nat_alt)
  then show ?app
    using append_data_cases[OF assms, of h] by (metis buf_unread_def drop_append diff_is_0_eq drop_0)
  show ?peek using assms(1) by (simp add: peek_first)
  show ?at using assms(1) by (simp add: peek_at)
  show ?adv using assms(1) by (auto simp: advance_read advance_unread)
qed

theorem grub_buffer_queue_witness:
  "\<exists>e b'. grub_buffer_append_data \<lparr>can_alloc = \<lambda>_. True, junk = CHR ''?''\<rparr>
      \<lparr>buf_data = ''ab?'', buf_sz = 3, buf_pos = 1, buf_used = 2\<rparr> ''cd'' = Some (e, b')
    \<and> buf_unread b' = ''bcd''"
proof -
  let ?b = "\<lparr>buf_data = ''ab?'', buf_sz = 3, buf_pos = 1, buf_used = 2\<rparr>"
  have "buf_ok ?b" "buf_unread ?b = ''b''" "buf_written ?b = ''ab''"
    by (simp_all add: buf_ok_def buf_unread_def buf_written_def)
  then show ?thesis
    using grub_buffer_queue[of ?b "''cd''" "\<lparr>can_alloc = \<lambda>_. True, junk = CHR ''?''\<rparr>" 0]
    by (auto split: if_splits)
qed

end
