(* ===== verification/GrubParser.thy ===== *)
theory GrubParser
  imports GrubEnv GrubBuffer
begin

text \<open>
  The command-line parser of \<open>kern/parser.c\<close>: the state machine for quotes, escapes and variables,
  and \<open>grub_parser_split_cmdline\<close>, which splits a line into arguments with two growing buffers
  (\<open>GrubBuffer\<close>) and the environment (\<open>GrubEnv\<close>).  An access outside a buffer is the result \<open>None\<close>.
  The callback that gives continuation lines is modelled by the list of lines it will give.
\<close>


section \<open>The command-line state machine\<close>

datatype grub_parser_state_t =
  STATE_TEXT | STATE_ESC | STATE_QUOTE | STATE_DQUOTE | STATE_VAR | STATE_VARNAME | STATE_VARNAME2
| STATE_QVAR | STATE_QVARNAME | STATE_QVARNAME2

text \<open>The transitions: from, to, the input (NUL for any) and whether the input is kept.\<close>

definition state_transitions :: "(grub_parser_state_t \<times> grub_parser_state_t \<times> char \<times> bool) list" where
  "state_transitions =
    [(STATE_TEXT, STATE_QUOTE, CHR 39, False),
     (STATE_TEXT, STATE_DQUOTE, CHR 34, False),
     (STATE_TEXT, STATE_VAR, CHR ''$'', False),
     (STATE_TEXT, STATE_ESC, CHR 92, False),
     (STATE_ESC, STATE_TEXT, NUL, True),
     (STATE_QUOTE, STATE_TEXT, CHR 39, False),
     (STATE_DQUOTE, STATE_TEXT, CHR 34, False),
     (STATE_DQUOTE, STATE_QVAR, CHR ''$'', False),
     (STATE_VAR, STATE_VARNAME2, CHR ''{'', False),
     (STATE_VAR, STATE_VARNAME, NUL, True),
     (STATE_VARNAME, STATE_TEXT, CHR '' '', True),
     (STATE_VARNAME, STATE_TEXT, CHR 9, True),
     (STATE_VARNAME2, STATE_TEXT, CHR ''}'', False),
     (STATE_QVAR, STATE_QVARNAME2, CHR ''{'', False),
     (STATE_QVAR, STATE_QVARNAME, NUL, True),
     (STATE_QVARNAME, STATE_TEXT, CHR 34, False),
     (STATE_QVARNAME, STATE_DQUOTE, CHR '' '', True),
     (STATE_QVARNAME, STATE_DQUOTE, CHR 9, True),
     (STATE_QVARNAME2, STATE_DQUOTE, CHR ''}'', False)]"

definition transition_matches :: "grub_parser_state_t \<Rightarrow> char \<Rightarrow> grub_parser_state_t \<Rightarrow> char \<Rightarrow> bool" where
  "transition_matches state c from input \<longleftrightarrow>
    from = state \<and>
    (input = c
     \<or> grub_isspace (schar input) \<and> \<not> grub_isalpha (schar c) \<and> \<not> grub_isdigit (schar c) \<and> c \<noteq> CHR ''_''
     \<or> input = NUL)"

text \<open>The next state, and the character to use (NUL when the input is dropped).\<close>

definition grub_parser_cmdline_state :: "grub_parser_state_t \<Rightarrow> char \<Rightarrow> grub_parser_state_t \<times> char" where
  "grub_parser_cmdline_state state c =
    (case find (\<lambda>(from, to, input, keep). transition_matches state c from input) state_transitions of
       None \<Rightarrow> (state, c)
     | Some (from, to, input, keep) \<Rightarrow> (to, if keep then c else NUL))"

fun check_varstate :: "grub_parser_state_t \<Rightarrow> bool" where
  "check_varstate STATE_VARNAME = True"
| "check_varstate STATE_VARNAME2 = True"
| "check_varstate STATE_QVARNAME = True"
| "check_varstate STATE_QVARNAME2 = True"
| "check_varstate _ = False"


section \<open>Splitting a command line\<close>

text \<open>The local variables of \<open>grub_parser_split_cmdline\<close>.\<close>

record split_state =
  sp_buffer :: grub_buffer
  sp_varname :: grub_buffer
  sp_state :: grub_parser_state_t
  sp_argc :: int

text \<open>The C string a pointer into a buffer denotes; without a terminator there is none.\<close>

definition cstr_in :: "string \<Rightarrow> string option" where
  "cstr_in data = (if NUL \<in> set data then Some (takeWhile (\<lambda>c. c \<noteq> NUL) data) else None)"

definition add_var ::
    "heap_env \<Rightarrow> env_state \<Rightarrow> grub_buffer \<Rightarrow> grub_buffer \<Rightarrow> grub_parser_state_t \<Rightarrow> grub_parser_state_t
      \<Rightarrow> (grub_err_t \<times> grub_buffer \<times> grub_buffer) option" where
  "add_var h env varname buf state newstate =
    (if \<not> (check_varstate state \<and> \<not> check_varstate newstate) then Some (GRUB_ERR_NONE, varname, buf)
     else case grub_buffer_append_char h varname NUL of
       None \<Rightarrow> None
     | Some (e, varname) \<Rightarrow>
         if e \<noteq> GRUB_ERR_NONE then Some (e, varname, buf)
         else (case Option.bind (grub_buffer_peek_data varname) cstr_in of
                 None \<Rightarrow> None
               | Some name \<Rightarrow>
                   (let varname = grub_buffer_reset varname
                    in case grub_env_get name env of
                         None \<Rightarrow> Some (GRUB_ERR_NONE, varname, buf)
                       | Some val \<Rightarrow> map_option (\<lambda>(e, buf). (e, varname, buf))
                                      (grub_buffer_append_data h buf val))))"

definition terminate_arg ::
    "heap_env \<Rightarrow> grub_buffer \<Rightarrow> int \<Rightarrow> (grub_err_t \<times> grub_buffer \<times> int) option" where
  "terminate_arg h buffer argc =
    (let unread = grub_buffer_get_unread_bytes buffer
     in if unread = 0 then Some (GRUB_ERR_NONE, buffer, argc)
        else case grub_buffer_peek_data_at buffer (unread - 1) of
          None \<Rightarrow> None
        | Some [] \<Rightarrow> None
        | Some (c # _) \<Rightarrow>
            if c = NUL then Some (GRUB_ERR_NONE, buffer, argc)
            else map_option (\<lambda>(e, buffer). if e \<noteq> GRUB_ERR_NONE then (e, buffer, argc)
                                            else (GRUB_ERR_NONE, buffer, argc + 1))
                   (grub_buffer_append_char h buffer NUL))"

definition process_char ::
    "heap_env \<Rightarrow> env_state \<Rightarrow> char \<Rightarrow> split_state \<Rightarrow> (grub_err_t \<times> split_state) option" where
  "process_char h env c ps =
    (case grub_parser_cmdline_state (sp_state ps) c of
       (newstate, use) \<Rightarrow>
         (case add_var h env (sp_varname ps) (sp_buffer ps) (sp_state ps) newstate of
            None \<Rightarrow> None
          | Some (e, varname, buffer) \<Rightarrow>
              (let ps' = ps\<lparr>sp_varname := varname, sp_buffer := buffer, sp_state := newstate\<rparr>
               in if e \<noteq> GRUB_ERR_NONE then Some (e, ps')
                  else if check_varstate newstate
                  then (if use \<noteq> NUL
                        then map_option (\<lambda>(e, b). (e, ps'\<lparr>sp_varname := b\<rparr>))
                               (grub_buffer_append_char h varname use)
                        else Some (GRUB_ERR_NONE, ps'))
                  else if newstate = STATE_TEXT \<and> sp_state ps \<noteq> STATE_ESC \<and> grub_isspace (schar use)
                  then map_option (\<lambda>(e, b, argc). (e, ps'\<lparr>sp_buffer := b, sp_argc := argc\<rparr>))
                         (terminate_arg h buffer (sp_argc ps))
                  else if use \<noteq> NUL
                  then map_option (\<lambda>(e, b). (e, ps'\<lparr>sp_buffer := b\<rparr>))
                         (grub_buffer_append_char h buffer use)
                  else Some (GRUB_ERR_NONE, ps'))))"

text \<open>The characters of one line.\<close>

primrec process_line ::
    "heap_env \<Rightarrow> env_state \<Rightarrow> string \<Rightarrow> split_state \<Rightarrow> (grub_err_t \<times> split_state) option" where
  "process_line h env [] ps = Some (GRUB_ERR_NONE, ps)"
| "process_line h env (c # cs) ps =
    (case process_char h env c ps of
       None \<Rightarrow> None
     | Some (e, ps) \<Rightarrow> if e \<noteq> GRUB_ERR_NONE then Some (e, ps) else process_line h env cs ps)"

definition more_input :: "grub_parser_state_t \<Rightarrow> bool" where
  "more_input s \<longleftrightarrow> s \<noteq> STATE_TEXT \<and> \<not> check_varstate s"

text \<open>The loop over the lines after the first: \<open>lines\<close> are the ones \<open>getline\<close> will give.\<close>

fun more_lines ::
    "heap_env \<Rightarrow> env_state \<Rightarrow> string list \<Rightarrow> split_state \<Rightarrow> (grub_err_t \<times> split_state) option" where
  "more_lines h env [] ps = Some (GRUB_ERR_NONE, ps)"
| "more_lines h env (line # lines) ps =
    (case process_line h env line ps of
       None \<Rightarrow> None
     | Some (e, ps) \<Rightarrow>
         if e \<noteq> GRUB_ERR_NONE then Some (e, ps)
         else if more_input (sp_state ps) then more_lines h env lines ps
         else Some (GRUB_ERR_NONE, ps))"

text \<open>The whole loop; a missing \<open>getline\<close> is one that has no line to give.\<close>

definition split_loop ::
    "heap_env \<Rightarrow> env_state \<Rightarrow> string \<Rightarrow> string list \<Rightarrow> split_state \<Rightarrow> (grub_err_t \<times> split_state) option" where
  "split_loop h env cmdline lines ps =
    (if cmdline = [] then more_lines h env lines ps else more_lines h env (cmdline # lines) ps)"

text \<open>The pointers of \<open>argv\<close>, as the strings they point to.\<close>

function fill_argv :: "int \<Rightarrow> int \<Rightarrow> grub_err_t \<Rightarrow> grub_buffer \<Rightarrow> (grub_err_t + string list) option" where
  "fill_argv i argc errno buffer =
    (if \<not> i < argc then Some (Inr [])
     else case (if i > 0 then grub_buffer_advance_read_pos buffer 1 else (GRUB_ERR_NONE, buffer)) of
       (e, buffer) \<Rightarrow>
         if e \<noteq> GRUB_ERR_NONE then Some (Inl e)
         else case grub_buffer_peek_data buffer of
           None \<Rightarrow> Some (Inl errno)
         | Some data \<Rightarrow>
             (case cstr_in data of
                None \<Rightarrow> None
              | Some arg \<Rightarrow>
                  (case grub_buffer_advance_read_pos buffer (of_nat (length arg)) of
                     (e, buffer) \<Rightarrow>
                       if e \<noteq> GRUB_ERR_NONE then Some (Inl e)
                       else map_option (map_sum id ((#) arg)) (fill_argv (i + 1) argc errno buffer))))"
  by pat_completeness auto

termination fill_argv
  by (relation "measure (\<lambda>(i, argc, _). nat (argc - i))") auto

declare fill_argv.simps [simp del]

text \<open>The part after the loop, with the overflow check of \<open>grub_calloc\<close>.\<close>

definition split_finish ::
    "heap_env \<Rightarrow> env_state \<Rightarrow> grub_err_t \<Rightarrow> split_state \<Rightarrow> (grub_err_t + string list) option" where
  "split_finish h env errno ps =
    (case add_var h env (sp_varname ps) (sp_buffer ps) (sp_state ps) STATE_TEXT of
       None \<Rightarrow> None
     | Some (e, _, buffer) \<Rightarrow>
         if e \<noteq> GRUB_ERR_NONE then Some (Inl e)
         else case terminate_arg h buffer (sp_argc ps) of
           None \<Rightarrow> None
         | Some (e, buffer, argc) \<Rightarrow>
             if e \<noteq> GRUB_ERR_NONE then Some (Inl e)
             else if argc = 0 then Some (Inr [])
             else if 2 ^ 32 \<le> (argc + 1) * 4 then Some (Inl GRUB_ERR_OUT_OF_RANGE)
             else if \<not> can_alloc h (of_int ((argc + 1) * 4)) then Some (Inl GRUB_ERR_OUT_OF_MEMORY)
             else fill_argv 0 argc errno buffer)"

definition grub_parser_split_cmdline ::
    "heap_env \<Rightarrow> env_state \<Rightarrow> grub_err_t \<Rightarrow> string \<Rightarrow> string list \<Rightarrow> (grub_err_t + string list) option" where
  "grub_parser_split_cmdline h env errno cmdline lines =
    (case (grub_buffer_new h 1024, grub_buffer_new h 200) of
       (Some buffer, Some varname) \<Rightarrow>
         (case split_loop h env cmdline lines
                 \<lparr>sp_buffer = buffer, sp_varname = varname, sp_state = STATE_TEXT, sp_argc = 0\<rparr> of
            None \<Rightarrow> None
          | Some (e, ps) \<Rightarrow> if e \<noteq> GRUB_ERR_NONE then Some (Inl e) else split_finish h env errno ps)
     | _ \<Rightarrow> Some (Inl GRUB_ERR_OUT_OF_MEMORY))"

text \<open>\<open>grub_parser_execute_getline\<close> over the rest of the source; \<open>ok\<close> is whether the copy succeeds.\<close>

definition grub_parser_execute_getline :: "bool \<Rightarrow> string option \<Rightarrow> string option \<times> string option" where
  "grub_parser_execute_getline ok source =
    (case source of
       None \<Rightarrow> (None, None)
     | Some src \<Rightarrow>
         (case dropWhile (\<lambda>c. c \<noteq> CHR 10) src of
            [] \<Rightarrow> (if ok then Some src else None, None)
          | _ # p \<Rightarrow> (if ok then Some (takeWhile (\<lambda>c. c \<noteq> CHR 10) src) else None, Some p)))"


section \<open>What the buffers hold\<close>

text \<open>The parser over lists: the finished words, the current word, and the variable name being read.\<close>

record words_state =
  ws_state :: grub_parser_state_t
  ws_words :: "string list"
  ws_cur :: string
  ws_name :: string

definition kept :: "char \<Rightarrow> string" where
  "kept use = (if use = NUL then [] else [use])"

definition value_of :: "env_state \<Rightarrow> string \<Rightarrow> string" where
  "value_of env name = (case grub_env_get name env of None \<Rightarrow> [] | Some v \<Rightarrow> v)"

definition expand_name :: "env_state \<Rightarrow> grub_parser_state_t \<Rightarrow> words_state \<Rightarrow> words_state" where
  "expand_name env q' a =
    (if check_varstate (ws_state a) \<and> \<not> check_varstate q'
     then a\<lparr>ws_cur := ws_cur a @ value_of env (ws_name a), ws_name := []\<rparr> else a)"

definition end_word :: "words_state \<Rightarrow> words_state" where
  "end_word a = (if ws_cur a = [] then a else a\<lparr>ws_words := ws_words a @ [ws_cur a], ws_cur := []\<rparr>)"

definition word_step :: "env_state \<Rightarrow> char \<Rightarrow> words_state \<Rightarrow> words_state" where
  "word_step env c a =
    (case grub_parser_cmdline_state (ws_state a) c of
       (q', use) \<Rightarrow>
         (let a' = (expand_name env q' a)\<lparr>ws_state := q'\<rparr>
          in if check_varstate q' then a'\<lparr>ws_name := ws_name a' @ kept use\<rparr>
             else if q' = STATE_TEXT \<and> ws_state a \<noteq> STATE_ESC \<and> grub_isspace (schar use) then end_word a'
             else a'\<lparr>ws_cur := ws_cur a' @ kept use\<rparr>))"

fun word_lines :: "env_state \<Rightarrow> string list \<Rightarrow> words_state \<Rightarrow> words_state" where
  "word_lines env [] a = a"
| "word_lines env (l # ls) a =
    (let a = fold (word_step env) l a in if more_input (ws_state a) then word_lines env ls a else a)"

definition words_start :: words_state where
  "words_start = \<lparr>ws_state = STATE_TEXT, ws_words = [], ws_cur = [], ws_name = []\<rparr>"

text \<open>The arguments a command line and its continuation lines stand for.\<close>

definition command_words :: "env_state \<Rightarrow> string \<Rightarrow> string list \<Rightarrow> string list" where
  "command_words env cmdline lines =
    ws_words (end_word (expand_name env STATE_TEXT
      (word_lines env (if cmdline = [] then lines else cmdline # lines) words_start)))"

definition arg_bytes :: "string list \<Rightarrow> string" where
  "arg_bytes ws = concat (map (\<lambda>w. w @ [NUL]) ws)"

definition holds_words :: "split_state \<Rightarrow> words_state \<Rightarrow> bool" where
  "holds_words ps a \<longleftrightarrow>
    buf_ok (sp_buffer ps) \<and> buf_pos (sp_buffer ps) = 0 \<and>
    buf_written (sp_buffer ps) = arg_bytes (ws_words a) @ ws_cur a \<and>
    buf_ok (sp_varname ps) \<and> buf_pos (sp_varname ps) = 0 \<and> buf_written (sp_varname ps) = ws_name a \<and>
    sp_state ps = ws_state a \<and> sp_argc ps = int (length (ws_words a)) \<and>
    (\<forall>w \<in> set (ws_words a). w \<noteq> [] \<and> NUL \<notin> set w) \<and> NUL \<notin> set (ws_cur a) \<and> NUL \<notin> set (ws_name a)"

text \<open>The memory is too small for a buffer of that size.\<close>

definition starved :: "heap_env \<Rightarrow> nat \<Rightarrow> bool" where
  "starved h n \<longleftrightarrow> 2 ^ 31 < n \<or> (\<exists>k<32. \<not> can_alloc h (2 ^ k))"

definition env_values_ok :: "env_state \<Rightarrow> bool" where
  "env_values_ok env \<longleftrightarrow> (\<forall>n v. is_cstr n \<longrightarrow> grub_env_get n env = Some v \<longrightarrow> NUL \<notin> set v \<and> length v < 2 ^ 32)"

lemma starved_mono: "starved h n \<Longrightarrow> n \<le> m \<Longrightarrow> starved h m"
  by (auto simp: starved_def)

lemma kept_no_NUL [simp]: "NUL \<notin> set (kept c)"
  by (simp add: kept_def)

lemma append_from_start:
  assumes "buf_ok b" "buf_pos b = 0" "length d < 2 ^ 32"
  obtains e b' where "grub_buffer_append_data h b d = Some (e, b')"
    "e = GRUB_ERR_NONE \<Longrightarrow> buf_ok b' \<and> buf_pos b' = 0 \<and> buf_written b' = buf_written b @ d"
    "e \<noteq> GRUB_ERR_NONE \<Longrightarrow> starved h (length (buf_written b) + length d)"
  using append_data_cases[OF assms(1,3), of h] assms(2) unfolding starved_def by metis

lemma append_char_from_start:
  assumes "buf_ok b" "buf_pos b = 0"
  obtains e b' where "grub_buffer_append_char h b c = Some (e, b')"
    "e = GRUB_ERR_NONE \<Longrightarrow> buf_ok b' \<and> buf_pos b' = 0 \<and> buf_written b' = buf_written b @ [c]"
    "e \<noteq> GRUB_ERR_NONE \<Longrightarrow> starved h (length (buf_written b) + 1)"
  using append_from_start[OF assms, of "[c]" h] unfolding grub_buffer_append_char_def by auto

lemma unread_from_start: "buf_pos b = 0 \<Longrightarrow> buf_unread b = buf_written b"
  by (simp add: buf_unread_def)

lemma cstr_in_NUL: "NUL \<notin> set s \<Longrightarrow> cstr_in (s @ NUL # r) = Some s"
proof -
  assume "NUL \<notin> set s"
  then have "takeWhile (\<lambda>c. c \<noteq> NUL) (s @ NUL # r) = s" by (induction s) auto
  then show ?thesis by (simp add: cstr_in_def)
qed

lemma add_var_words:
  assumes ok: "buf_ok v" "buf_pos v = 0" "buf_written v = ws_name a" "NUL \<notin> set (ws_name a)"
    and okb: "buf_ok b" "buf_pos b = 0" "buf_written b = pre @ ws_cur a" and env: "env_values_ok env"
  obtains e v' b' where "add_var h env v b (ws_state a) q' = Some (e, v', b')"
    "e = GRUB_ERR_NONE \<Longrightarrow> buf_ok v' \<and> buf_pos v' = 0 \<and> buf_written v' = ws_name (expand_name env q' a) \<and>
       buf_ok b' \<and> buf_pos b' = 0 \<and> buf_written b' = pre @ ws_cur (expand_name env q' a)"
    "e \<noteq> GRUB_ERR_NONE \<Longrightarrow> starved h (length (ws_name a) + 1)
       \<or> starved h (length (pre @ ws_cur (expand_name env q' a)))"
proof (cases "check_varstate (ws_state a) \<and> \<not> check_varstate q'")
  case False
  then show thesis using ok okb by (intro that[of GRUB_ERR_NONE v b]) (auto simp: add_var_def expand_name_def)
next
  case True
  obtain e v' where v': "grub_buffer_append_char h v NUL = Some (e, v')"
      "e = GRUB_ERR_NONE \<Longrightarrow> buf_ok v' \<and> buf_pos v' = 0 \<and> buf_written v' = ws_name a @ [NUL]"
      "e \<noteq> GRUB_ERR_NONE \<Longrightarrow> starved h (length (ws_name a) + 1)"
    using append_char_from_start[OF ok(1,2), of h NUL] ok(3) by metis
  show thesis
  proof (cases "e = GRUB_ERR_NONE")
    case False
    then show thesis using v' True by (intro that[of e v' b]) (auto simp: add_var_def)
  next
    case e: True
    have name: "Option.bind (grub_buffer_peek_data v') cstr_in = Some (ws_name a)"
      using v'(2)[OF e] ok(4) by (simp add: peek_first unread_from_start cstr_in_NUL)
    have res: "buf_ok (grub_buffer_reset v')" "buf_pos (grub_buffer_reset v') = 0"
        "buf_written (grub_buffer_reset v') = []"
      using v'(2)[OF e] by (auto simp: grub_buffer_reset_def buf_ok_def buf_written_def)
    show thesis
    proof (cases "grub_env_get (ws_name a) env")
      case None
      then show thesis using True v' e name res okb
        by (intro that[of e "grub_buffer_reset v'" b])
           (simp_all add: add_var_def expand_name_def value_of_def)
    next
      case (Some val)
      then have "length val < 2 ^ 32" using env using ok(4) by (auto simp: env_values_ok_def is_cstr_def)
      then obtain e' b' where "grub_buffer_append_data h b val = Some (e', b')"
        "e' = GRUB_ERR_NONE \<Longrightarrow> buf_ok b' \<and> buf_pos b' = 0 \<and> buf_written b' = buf_written b @ val"
        "e' \<noteq> GRUB_ERR_NONE \<Longrightarrow> starved h (length (buf_written b) + length val)"
        using append_from_start[OF okb(1,2), of val h] by metis
      then show thesis using True v' e name res okb Some
        by (intro that[of e' "grub_buffer_reset v'" b'])
           (simp_all add: add_var_def expand_name_def value_of_def add.assoc)
    qed
  qed
qed


lemma arg_bytes_snoc [simp]: "arg_bytes (ws @ [w]) = arg_bytes ws @ w @ [NUL]"
  by (simp add: arg_bytes_def)

lemma arg_bytes_last: "ws \<noteq> [] \<Longrightarrow> arg_bytes ws \<noteq> [] \<and> last (arg_bytes ws) = NUL"
  by (cases ws rule: rev_cases) auto

lemma arg_bytes_empty [simp]: "arg_bytes [] = []"
  by (simp add: arg_bytes_def)

lemma peek_last:
  assumes "buf_ok b" "buf_pos b = 0" "buf_written b \<noteq> []"
  obtains r where "grub_buffer_peek_data_at b (grub_buffer_get_unread_bytes b - 1) = Some (last (buf_written b) # r)"
    "grub_buffer_get_unread_bytes b \<noteq> 0"
proof -
  have len: "length (buf_written b) = unat (buf_used b)" using assms(1) by (rule length_written)
  then have pos: "0 < unat (buf_used b)" using assms(3) by (metis length_greater_0_conv)
  then have last: "unat (buf_used b - 1) = unat (buf_used b) - 1"
    by (metis gr_implies_not0 unat_0 unat_minus_one)
  have "drop (unat (buf_used b) - 1) (buf_written b) = [last (buf_written b)]"
    using assms(3) len append_butlast_last_id[OF assms(3)]
    by (metis append_eq_conv_conj length_butlast)
  then show thesis
    using assms pos last len
    by (intro that) (simp_all add: grub_buffer_get_unread_bytes_def peek_at unread_from_start word_gt_0 unat_gt_0)
qed

lemma terminate_arg_words:
  assumes ok: "buf_ok b" "buf_pos b = 0" "buf_written b = arg_bytes (ws_words a) @ ws_cur a"
    and nul: "NUL \<notin> set (ws_cur a)"
  obtains e b' argc' where "terminate_arg h b (int (length (ws_words a))) = Some (e, b', argc')"
    "e = GRUB_ERR_NONE \<Longrightarrow> buf_ok b' \<and> buf_pos b' = 0
       \<and> buf_written b' = arg_bytes (ws_words (end_word a)) @ ws_cur (end_word a)
       \<and> argc' = int (length (ws_words (end_word a)))"
    "e \<noteq> GRUB_ERR_NONE \<Longrightarrow> starved h (length (arg_bytes (ws_words (end_word a)) @ ws_cur (end_word a)))"
proof (cases "buf_written b = []")
  case True
  then have "ws_words a = []" "ws_cur a = []" using ok(3) arg_bytes_last[of "ws_words a"] by auto
  moreover have "grub_buffer_get_unread_bytes b = 0"
    using True length_written[OF ok(1)] ok(2) by (simp add: grub_buffer_get_unread_bytes_def unat_eq_0)
  ultimately show thesis using ok
    by (intro that[of GRUB_ERR_NONE b 0]) (simp_all add: terminate_arg_def end_word_def)
next
  case False
  then obtain r where r: "grub_buffer_peek_data_at b (grub_buffer_get_unread_bytes b - 1) = Some (last (buf_written b) # r)"
      "grub_buffer_get_unread_bytes b \<noteq> 0"
    using peek_last[OF ok(1,2)] by metis
  show thesis
  proof (cases "ws_cur a = []")
    case True
    then have "ws_words a \<noteq> []" using False ok(3) by auto
    then have "last (buf_written b) = NUL" using True ok(3) arg_bytes_last[of "ws_words a"] by simp
    then show thesis using r True ok
      by (intro that[of GRUB_ERR_NONE b "int (length (ws_words a))"]) (simp_all add: terminate_arg_def end_word_def)
  next
    case cur: False
    then have "last (buf_written b) \<noteq> NUL" using nul ok(3) by (metis last_appendR last_in_set)
    then have t: "terminate_arg h b n = map_option (\<lambda>(e, buffer). if e \<noteq> GRUB_ERR_NONE then (e, buffer, n)
          else (GRUB_ERR_NONE, buffer, n + 1)) (grub_buffer_append_char h b NUL)" for n
      using r by (simp add: terminate_arg_def)
    obtain e b' where "grub_buffer_append_char h b NUL = Some (e, b')"
        "e = GRUB_ERR_NONE \<Longrightarrow> buf_ok b' \<and> buf_pos b' = 0 \<and> buf_written b' = buf_written b @ [NUL]"
        "e \<noteq> GRUB_ERR_NONE \<Longrightarrow> starved h (length (buf_written b) + 1)"
      using append_char_from_start[OF ok(1,2), of h NUL] by metis
    then show thesis using cur ok t
      by (intro that[of e b' "if e \<noteq> GRUB_ERR_NONE then int (length (ws_words a)) else int (length (ws_words a)) + 1"])
         (simp_all add: end_word_def)
  qed
qed

definition words_size :: "words_state \<Rightarrow> nat" where
  "words_size a = length (arg_bytes (ws_words a) @ ws_cur a)"

definition step_result :: "heap_env \<Rightarrow> nat \<Rightarrow> nat \<Rightarrow> (grub_err_t \<times> split_state) option \<Rightarrow> words_state \<Rightarrow> bool" where
  "step_result h n m r a \<longleftrightarrow>
    (\<exists>e ps. r = Some (e, ps) \<and> (if e = GRUB_ERR_NONE then holds_words ps a else starved h n \<or> starved h m))"

lemma expand_name_simps [simp]:
  "ws_state (expand_name env q' a) = ws_state a" "ws_words (expand_name env q' a) = ws_words a"
  by (simp_all add: expand_name_def)

lemma expand_name_no_NUL:
  "env_values_ok env \<Longrightarrow> NUL \<notin> set (ws_cur a) \<Longrightarrow> NUL \<notin> set (ws_name a) \<Longrightarrow>
    NUL \<notin> set (ws_cur (expand_name env q' a)) \<and> NUL \<notin> set (ws_name (expand_name env q' a))"
  by (auto simp: expand_name_def value_of_def env_values_ok_def is_cstr_def split: option.splits)

lemma expand_name_length: "length (ws_name (expand_name env q' a)) \<le> length (ws_name a)"
  by (simp add: expand_name_def)

text \<open>What happens to a character after the variable before it has been expanded.\<close>

lemma step_branches:
  assumes H: "holds_words ps' y" and b': "sp_buffer ps' = b'" and v': "sp_varname ps' = v'"
    and "ws_state y = q'"
  shows "step_result h
    (words_size (if check_varstate q' then y\<lparr>ws_name := ws_name y @ kept use\<rparr>
       else if q' = STATE_TEXT \<and> spc then end_word y else y\<lparr>ws_cur := ws_cur y @ kept use\<rparr>))
    (length (ws_name y) + 1)
    (if check_varstate q'
       then (if use \<noteq> NUL then map_option (\<lambda>(e, b). (e, ps'\<lparr>sp_varname := b\<rparr>)) (grub_buffer_append_char h v' use)
             else Some (GRUB_ERR_NONE, ps'))
       else if q' = STATE_TEXT \<and> spc
       then map_option (\<lambda>(e, b, argc). (e, ps'\<lparr>sp_buffer := b, sp_argc := argc\<rparr>)) (terminate_arg h b' (sp_argc ps'))
       else if use \<noteq> NUL then map_option (\<lambda>(e, b). (e, ps'\<lparr>sp_buffer := b\<rparr>)) (grub_buffer_append_char h b' use)
       else Some (GRUB_ERR_NONE, ps'))
    (if check_varstate q' then y\<lparr>ws_name := ws_name y @ kept use\<rparr>
     else if q' = STATE_TEXT \<and> spc then end_word y else y\<lparr>ws_cur := ws_cur y @ kept use\<rparr>)"
proof -
  note Hs = H[unfolded holds_words_def b' v']
  consider (name) "check_varstate q'" | (space) "\<not> check_varstate q'" "q' = STATE_TEXT \<and> spc"
    | (other) "\<not> check_varstate q'" "\<not> (q' = STATE_TEXT \<and> spc)"
    by blast
  then show ?thesis
  proof cases
    case name
    obtain e b where "grub_buffer_append_char h v' use = Some (e, b)"
        "e = GRUB_ERR_NONE \<Longrightarrow> buf_ok b \<and> buf_pos b = 0 \<and> buf_written b = buf_written v' @ [use]"
        "e \<noteq> GRUB_ERR_NONE \<Longrightarrow> starved h (length (buf_written v') + 1)"
      using append_char_from_start[of v' h use] Hs by metis
    then show ?thesis using name H Hs b' v'
      by (auto simp: step_result_def kept_def holds_words_def)
  next
    case space
    obtain e b argc where "terminate_arg h b' (int (length (ws_words y))) = Some (e, b, argc)"
        "e = GRUB_ERR_NONE \<Longrightarrow> buf_ok b \<and> buf_pos b = 0
          \<and> buf_written b = arg_bytes (ws_words (end_word y)) @ ws_cur (end_word y)
          \<and> argc = int (length (ws_words (end_word y)))"
        "e \<noteq> GRUB_ERR_NONE \<Longrightarrow> starved h (length (arg_bytes (ws_words (end_word y)) @ ws_cur (end_word y)))"
      using terminate_arg_words[of b' y h] Hs by metis
    then show ?thesis using space H Hs b' v'
      by (auto simp: step_result_def words_size_def holds_words_def end_word_def)
  next
    case other
    obtain e b where "grub_buffer_append_char h b' use = Some (e, b)"
        "e = GRUB_ERR_NONE \<Longrightarrow> buf_ok b \<and> buf_pos b = 0 \<and> buf_written b = buf_written b' @ [use]"
        "e \<noteq> GRUB_ERR_NONE \<Longrightarrow> starved h (length (buf_written b') + 1)"
      using append_char_from_start[of b' h use] Hs by metis
    then show ?thesis using other H Hs b' v'
      by (auto simp: step_result_def words_size_def kept_def holds_words_def)
  qed
qed

lemma process_char_words:
  assumes H: "holds_words ps a" and env: "env_values_ok env"
  shows "step_result h (words_size (word_step env c a)) (length (ws_name a) + 1)
           (process_char h env c ps) (word_step env c a)"
proof -
  obtain q' use where q': "grub_parser_cmdline_state (ws_state a) c = (q', use)" by fastforce
  define x where "x = expand_name env q' a"
  define pre where "pre = arg_bytes (ws_words a)"
  note Hs = H[unfolded holds_words_def]
  have st: "sp_state ps = ws_state a" using Hs by simp
  obtain e v' b' where av: "add_var h env (sp_varname ps) (sp_buffer ps) (ws_state a) q' = Some (e, v', b')"
    "e = GRUB_ERR_NONE \<Longrightarrow> buf_ok v' \<and> buf_pos v' = 0 \<and> buf_written v' = ws_name x \<and>
       buf_ok b' \<and> buf_pos b' = 0 \<and> buf_written b' = pre @ ws_cur x"
    "e \<noteq> GRUB_ERR_NONE \<Longrightarrow> starved h (length (ws_name a) + 1) \<or> starved h (length (pre @ ws_cur x))"
    using add_var_words[of "sp_varname ps" a "sp_buffer ps" pre env h q' thesis] Hs env
    unfolding x_def pre_def by blast
  define ps' where "ps' = ps\<lparr>sp_varname := v', sp_buffer := b', sp_state := q'\<rparr>"
  have size: "length (pre @ ws_cur x) \<le> words_size (word_step env c a)"
    by (simp add: word_step_def q' words_size_def Let_def x_def pre_def end_word_def)
  show ?thesis
  proof (cases "e = GRUB_ERR_NONE")
    case False
    then have "process_char h env c ps = Some (e, ps')"
      using av(1) by (simp add: process_char_def st q' ps'_def Let_def)
    then show ?thesis using False av(3)[OF False] starved_mono[OF _ size]
      by (auto simp: step_result_def)
  next
    case e: True
    have hx: "holds_words ps' (x\<lparr>ws_state := q'\<rparr>)"
      using av(2)[OF e] Hs expand_name_no_NUL[OF env, of a q'] by (simp add: holds_words_def ps'_def x_def pre_def)
    have pc: "process_char h env c ps =
      (if check_varstate q'
       then (if use \<noteq> NUL then map_option (\<lambda>(e, b). (e, ps'\<lparr>sp_varname := b\<rparr>)) (grub_buffer_append_char h v' use)
             else Some (GRUB_ERR_NONE, ps'))
       else if q' = STATE_TEXT \<and> ws_state a \<noteq> STATE_ESC \<and> grub_isspace (schar use)
       then map_option (\<lambda>(e, b, argc). (e, ps'\<lparr>sp_buffer := b, sp_argc := argc\<rparr>)) (terminate_arg h b' (sp_argc ps'))
       else if use \<noteq> NUL then map_option (\<lambda>(e, b). (e, ps'\<lparr>sp_buffer := b\<rparr>)) (grub_buffer_append_char h b' use)
       else Some (GRUB_ERR_NONE, ps'))"
      using av(1) e by (simp add: process_char_def st q' ps'_def Let_def)
    have "step_result h (words_size (word_step env c a)) (length (ws_name (x\<lparr>ws_state := q'\<rparr>)) + 1)
           (process_char h env c ps) (word_step env c a)"
      unfolding pc word_step_def q' prod.case x_def[symmetric] Let_def
      by (rule step_branches[OF hx]) (simp_all add: ps'_def)
    then show ?thesis
      using expand_name_length[of env q' a] starved_mono[of h "length (ws_name x) + 1" "length (ws_name a) + 1"]
      unfolding step_result_def x_def by fastforce
  qed
qed


lemma step_result_mono:
  "step_result h n m r a \<Longrightarrow> n \<le> n' \<Longrightarrow> m \<le> m' \<Longrightarrow> step_result h n' m' r a"
  unfolding step_result_def using starved_mono by (metis (full_types))

lemma word_step_size: "words_size a \<le> words_size (word_step env c a)"
  by (simp add: word_step_def words_size_def Let_def end_word_def expand_name_def split: prod.split)

lemma word_step_name: "length (ws_name (word_step env c a)) \<le> length (ws_name a) + 1"
  by (simp add: word_step_def Let_def end_word_def expand_name_def kept_def split: prod.split)

lemma fold_step_size: "words_size a \<le> words_size (fold (word_step env) l a)"
  by (induction l arbitrary: a) (auto intro: order.trans[OF word_step_size])

lemma fold_step_name: "length (ws_name (fold (word_step env) l a)) \<le> length (ws_name a) + length l"
proof (induction l arbitrary: a)
  case (Cons c l)
  show ?case using Cons.IH[of "word_step env c a"] word_step_name[of env c a] by simp
qed simp

lemma word_lines_size: "words_size a \<le> words_size (word_lines env ls a)"
proof (induction ls arbitrary: a)
  case (Cons l ls)
  then show ?case
    using fold_step_size[of a env l] order.trans[OF fold_step_size[of a env l] Cons.IH[of "fold (word_step env) l a"]]
    by (simp add: Let_def)
qed simp

lemma process_line_words:
  assumes "holds_words ps a" "env_values_ok env"
  shows "step_result h (words_size (fold (word_step env) l a)) (length (ws_name a) + length l + 1)
           (process_line h env l ps) (fold (word_step env) l a)"
  using assms(1)
proof (induction l arbitrary: ps a)
  case Nil
  then show ?case by (simp add: step_result_def)
next
  case (Cons c l)
  have step: "step_result h (words_size (word_step env c a)) (length (ws_name a) + 1)
      (process_char h env c ps) (word_step env c a)"
    using Cons.prems assms(2) by (rule process_char_words)
  then obtain e ps' where e: "process_char h env c ps = Some (e, ps')" unfolding step_result_def by blast
  show ?case
  proof (cases "e = GRUB_ERR_NONE")
    case True
    then have "holds_words ps' (word_step env c a)" using step e by (simp add: step_result_def)
    from Cons.IH[OF this] show ?thesis
      using e True word_step_name[of env c a]
      by (auto intro: step_result_mono)
  next
    case False
    have "step_result h (words_size (fold (word_step env) l (word_step env c a))) (length (ws_name a) + length (c # l) + 1)
      (Some (e, ps')) (word_step env c a)"
      using step unfolding e by (rule step_result_mono) (use fold_step_size in simp_all)
    then show ?thesis using False e by (simp add: step_result_def)
  qed
qed

lemma more_lines_words:
  assumes "holds_words ps a" "env_values_ok env"
  shows "step_result h (words_size (word_lines env ls a)) (length (ws_name a) + length (concat ls) + 1)
           (more_lines h env ls ps) (word_lines env ls a)"
  using assms(1)
proof (induction ls arbitrary: ps a)
  case Nil
  then show ?case by (simp add: step_result_def)
next
  case (Cons l ls)
  let ?a = "fold (word_step env) l a"
  have line: "step_result h (words_size ?a) (length (ws_name a) + length l + 1) (process_line h env l ps) ?a"
    using Cons.prems assms(2) by (rule process_line_words)
  then obtain e ps' where e: "process_line h env l ps = Some (e, ps')" unfolding step_result_def by blast
  show ?case
  proof (cases "e = GRUB_ERR_NONE")
    case True
    then have h': "holds_words ps' ?a" using line e by (simp add: step_result_def)
    then have st: "sp_state ps' = ws_state ?a" by (simp add: holds_words_def)
    have "step_result h (words_size (word_lines env ls ?a)) (length (ws_name a) + length (concat (l # ls)) + 1)
       (more_lines h env ls ps') (word_lines env ls ?a)"
      using Cons.IH[OF h'] by (rule step_result_mono) (use fold_step_name[of env l a] in simp_all)
    then show ?thesis using e True h' st by (simp add: Let_def step_result_def)
  next
    case False
    have "step_result h (words_size (word_lines env (l # ls) a)) (length (ws_name a) + length (concat (l # ls)) + 1)
      (Some (e, ps')) ?a"
      using line unfolding e
      by (rule step_result_mono) (use word_lines_size[of ?a env ls] in \<open>simp_all add: Let_def\<close>)
    then show ?thesis using False e by (simp add: step_result_def)
  qed
qed

lemma fill_argv_words:
  assumes "buf_ok b" "0 \<le> i" "argc = i + int (length ws)"
    "buf_unread b = (if 0 < i \<and> ws \<noteq> [] then NUL # arg_bytes ws else if 0 < i then [NUL] else arg_bytes ws)"
    "\<forall>w \<in> set ws. NUL \<notin> set w"
  shows "fill_argv i argc errno b = Some (Inr ws)"
  using assms
proof (induction ws arbitrary: i b)
  case Nil
  then show ?case by (simp add: fill_argv.simps[of i])
next
  case (Cons w ws)
  define r where "r = arg_bytes ws"
  have bytes: "arg_bytes (w # ws) = w @ NUL # r" by (simp add: arg_bytes_def r_def)
  obtain b1 where b1: "(if i > 0 then grub_buffer_advance_read_pos b 1 else (GRUB_ERR_NONE, b)) = (GRUB_ERR_NONE, b1)"
      "buf_ok b1" "buf_unread b1 = w @ NUL # r"
    using Cons.prems(1,2,4) bytes by (cases "0 < i") (auto simp: advance_read advance_unread)
  have len: "unat (of_nat (length w) :: u32) = length w"
    using length_unread[OF b1(2)] b1(3) unat_less[of "buf_used b1"] by (intro unat_of_nat_id) simp
  define b2 where "b2 = b1\<lparr>buf_pos := buf_pos b1 + of_nat (length w)\<rparr>"
  have b2: "grub_buffer_advance_read_pos b1 (of_nat (length w)) = (GRUB_ERR_NONE, b2)" "buf_ok b2"
      "buf_unread b2 = NUL # r"
    using b1 len by (simp_all add: advance_read b2_def advance_unread)
  have arg: "grub_buffer_peek_data b1 = Some (w @ NUL # (r @ drop (unat (buf_used b1)) (buf_data b1)))"
    using b1 by (simp add: peek_first)
  have "fill_argv (i + 1) argc errno b2 = Some (Inr ws)"
    using Cons.prems b2 by (intro Cons.IH) (auto simp: r_def)
  then show ?case
    using Cons.prems b1(1) b2(1) arg by (simp add: fill_argv.simps[of i] cstr_in_NUL)
qed


lemma arg_bytes_argc: "\<forall>w \<in> set ws. w \<noteq> [] \<Longrightarrow> 2 * length ws \<le> length (arg_bytes ws)"
proof (induction ws)
  case (Cons w ws)
  then show ?case by (cases w) (auto simp: arg_bytes_def)
qed simp

lemma expand_size: "words_size a \<le> words_size (expand_name env q a)"
  by (simp add: words_size_def expand_name_def)

lemma end_word_size: "words_size a \<le> words_size (end_word a)"
  by (simp add: words_size_def end_word_def)

lemma end_word_cur [simp]: "ws_cur (end_word a) = []"
  by (simp add: end_word_def)

definition enough_memory :: "heap_env \<Rightarrow> nat \<Rightarrow> bool" where
  "enough_memory h n \<longleftrightarrow> (\<forall>s. can_alloc h s) \<and> n \<le> 2 ^ 30"

lemma not_starved: "enough_memory h n \<Longrightarrow> m \<le> n + 2 \<Longrightarrow> \<not> starved h m"
  by (auto simp: enough_memory_def starved_def)

lemma enough_memory_less: "enough_memory h n \<Longrightarrow> m \<le> n \<Longrightarrow> enough_memory h m"
  by (auto simp: enough_memory_def)

lemma word_lines_name: "length (ws_name (word_lines env ls a)) \<le> length (ws_name a) + length (concat ls)"
proof (induction ls arbitrary: a)
  case (Cons l ls)
  show ?case
    using Cons.IH[of "fold (word_step env) l a"] fold_step_name[of env l a] by (simp add: Let_def)
qed simp

lemma split_finish_words:
  assumes H: "holds_words ps a" and env: "env_values_ok env"
  defines "W \<equiv> ws_words (end_word (expand_name env STATE_TEXT a))"
  obtains r where "split_finish h env errno ps = Some r"
    "r = Inr W \<or> (\<exists>e. r = Inl e \<and> \<not> enough_memory h (max (length (arg_bytes W)) (length (ws_name a))))"
proof -
  note Hs = H[unfolded holds_words_def]
  define x where "x = expand_name env STATE_TEXT a"
  define n where "n = max (length (arg_bytes W)) (length (ws_name a))"
  have size: "length (arg_bytes (ws_words a) @ ws_cur x) \<le> length (arg_bytes W)"
    using end_word_size[of x] by (simp add: words_size_def W_def x_def)
  have nul: "NUL \<notin> set (ws_cur x)" using Hs expand_name_no_NUL[OF env] by (simp add: x_def)
  have wok: "\<forall>w \<in> set W. w \<noteq> [] \<and> NUL \<notin> set w"
    using Hs nul by (auto simp: W_def x_def[symmetric] end_word_def) (auto simp: x_def)
  obtain e v b where av: "add_var h env (sp_varname ps) (sp_buffer ps) (sp_state ps) STATE_TEXT = Some (e, v, b)"
    "e = GRUB_ERR_NONE \<Longrightarrow> buf_ok b \<and> buf_pos b = 0 \<and> buf_written b = arg_bytes (ws_words x) @ ws_cur x"
    "e \<noteq> GRUB_ERR_NONE \<Longrightarrow> starved h (length (ws_name a) + 1) \<or> starved h (length (arg_bytes (ws_words a) @ ws_cur x))"
    using add_var_words[of "sp_varname ps" a "sp_buffer ps" "arg_bytes (ws_words a)" env h STATE_TEXT thesis] Hs env
    unfolding x_def expand_name_simps by (metis (no_types, lifting))
  show thesis
  proof (cases "e = GRUB_ERR_NONE")
    case False
    then show thesis using av(1) av(3)[OF False] size not_starved[of h n] unfolding n_def
      by (intro that[of "Inl e"]) (auto simp: split_finish_def)
  next
    case True
    obtain e' b' argc where ta: "terminate_arg h b (int (length (ws_words x))) = Some (e', b', argc)"
      "e' = GRUB_ERR_NONE \<Longrightarrow> buf_ok b' \<and> buf_pos b' = 0 \<and> buf_written b' = arg_bytes W \<and> argc = int (length W)"
      "e' \<noteq> GRUB_ERR_NONE \<Longrightarrow> starved h (length (arg_bytes W))"
      using terminate_arg_words[of b x h thesis] av(2)[OF True] nul
      unfolding W_def x_def[symmetric] by (metis append_Nil2 end_word_cur)
    have argc: "sp_argc ps = int (length (ws_words x))" using Hs by (simp add: x_def)
    show thesis
    proof (cases "e' = GRUB_ERR_NONE")
      case False
      then have "\<not> enough_memory h n"
        using ta(3)[OF False] not_starved[of h n "length (arg_bytes W)"]
        by (metis le_add1 le_trans max.cobounded1 n_def)
      then show thesis using False av(1) ta(1) True argc unfolding n_def
        by (intro that[of "Inl e'"]) (simp_all add: split_finish_def)
    next
      case e': True
      then have "fill_argv 0 argc errno b' = Some (Inr W)"
        using ta(2) wok by (intro fill_argv_words) (auto simp: unread_from_start)
      moreover have "(argc + 1) * 4 < 2 ^ 32" if "enough_memory h n"
        using that ta(2)[OF e'] arg_bytes_argc[of W] wok by (simp add: enough_memory_def n_def)
      ultimately show thesis
        using av(1) ta True argc e'
        by (intro that[of "if argc = 0 then Inr [] else if 2 ^ 32 \<le> (argc + 1) * 4 then Inl GRUB_ERR_OUT_OF_RANGE
              else if \<not> can_alloc h (of_int ((argc + 1) * 4)) then Inl GRUB_ERR_OUT_OF_MEMORY else Inr W"])
           (auto simp: split_finish_def n_def[symmetric] enough_memory_def)
    qed
  qed
qed

lemma new_holds_start:
  assumes "grub_buffer_new h 1024 = Some b" "grub_buffer_new h 200 = Some v"
  shows "holds_words \<lparr>sp_buffer = b, sp_varname = v, sp_state = STATE_TEXT, sp_argc = 0\<rparr> words_start"
  using assms
  by (auto simp: grub_buffer_new_def holds_words_def words_start_def buf_ok_def buf_written_def split: if_splits)

lemma split_cmdline_words:
  assumes "env_values_ok env"
  shows "\<exists>r. grub_parser_split_cmdline h env errno cmdline lines = Some r \<and>
    (r = Inr (command_words env cmdline lines)
     \<or> (\<exists>e. r = Inl e \<and>
          \<not> enough_memory h (length (arg_bytes (command_words env cmdline lines)) + length (concat (cmdline # lines)))))"
proof (cases "grub_buffer_new h 1024 = None \<or> grub_buffer_new h 200 = None")
  case True
  then have "\<not> (\<forall>s. can_alloc h s)" by (auto simp: grub_buffer_new_def split: if_splits)
  then show ?thesis using True
    by (auto simp: grub_parser_split_cmdline_def enough_memory_def split: option.split)
next
  case False
  then obtain b v where bv: "grub_buffer_new h 1024 = Some b" "grub_buffer_new h 200 = Some v" by auto
  let ?ps = "\<lparr>sp_buffer = b, sp_varname = v, sp_state = STATE_TEXT, sp_argc = 0\<rparr>"
  define ls where "ls = (if cmdline = [] then lines else cmdline # lines)"
  define a where "a = word_lines env ls words_start"
  define W where "W = command_words env cmdline lines"
  define n where "n = length (arg_bytes W) + length (concat (cmdline # lines))"
  have W: "W = ws_words (end_word (expand_name env STATE_TEXT a))"
    by (simp add: W_def command_words_def a_def ls_def)
  have "step_result h (words_size a) (length (concat ls) + 1) (more_lines h env ls ?ps) a"
    using more_lines_words[OF new_holds_start[OF bv] assms, of h ls] by (simp add: a_def words_start_def)
  then obtain e ps where e: "split_loop h env cmdline lines ?ps = Some (e, ps)"
      "if e = GRUB_ERR_NONE then holds_words ps a else starved h (words_size a) \<or> starved h (length (concat ls) + 1)"
    unfolding step_result_def split_loop_def ls_def by (auto split: if_splits)
  have size: "words_size a \<le> n" "length (concat ls) \<le> n"
    using order.trans[OF expand_size[of a env STATE_TEXT] end_word_size] W
    by (auto simp: n_def words_size_def ls_def)
  show ?thesis
  proof (cases "e = GRUB_ERR_NONE")
    case False
    then have "\<not> enough_memory h n" using e(2) size not_starved[of h n] by (auto split: if_splits)
    then show ?thesis using False e(1) bv by (auto simp: grub_parser_split_cmdline_def n_def W_def)
  next
    case True
    have "length (ws_name a) \<le> n"
      using word_lines_name[of env ls words_start] size(2) by (simp add: a_def words_start_def)
    then have less: "max (length (arg_bytes W)) (length (ws_name a)) \<le> n" by (simp add: n_def)
    obtain r where "split_finish h env errno ps = Some r"
        "r = Inr W \<or> (\<exists>e. r = Inl e \<and> \<not> enough_memory h (max (length (arg_bytes W)) (length (ws_name a))))"
      using split_finish_words[of ps a env h errno thesis] e True assms unfolding W by auto
    moreover have "grub_parser_split_cmdline h env errno cmdline lines = split_finish h env errno ps"
      using True e(1) bv by (simp add: grub_parser_split_cmdline_def)
    ultimately show ?thesis
      using enough_memory_less[of h n, OF _ less] unfolding n_def W_def by (intro exI[of _ r]) auto
  qed
qed


section \<open>The language of command lines\<close>

text \<open>A word is a sequence of pieces: plain text, a single-quoted string, a double-quoted sequence of
  text and braced variables, a braced variable, or an escaped character.\<close>

datatype dpiece = DText string | DVar string
datatype piece = Plain string | Quoted string | DQuoted "dpiece list" | Var string | Escaped char

fun plain_char :: "char \<Rightarrow> bool" where
  "plain_char c \<longleftrightarrow> c \<notin> {NUL, CHR 39, CHR 34, CHR ''$'', CHR 92} \<and> \<not> grub_isspace (schar c)"

fun dpiece_ok :: "dpiece \<Rightarrow> bool" where
  "dpiece_ok (DText s) \<longleftrightarrow> (\<forall>c \<in> set s. c \<notin> {NUL, CHR 34, CHR ''$''})"
| "dpiece_ok (DVar n) \<longleftrightarrow> (\<forall>c \<in> set n. c \<notin> {NUL, CHR ''}''})"

fun piece_ok :: "piece \<Rightarrow> bool" where
  "piece_ok (Plain s) \<longleftrightarrow> (\<forall>c \<in> set s. plain_char c)"
| "piece_ok (Quoted s) \<longleftrightarrow> (\<forall>c \<in> set s. c \<notin> {NUL, CHR 39})"
| "piece_ok (DQuoted ds) \<longleftrightarrow> (\<forall>d \<in> set ds. dpiece_ok d)"
| "piece_ok (Var n) \<longleftrightarrow> (\<forall>c \<in> set n. c \<notin> {NUL, CHR ''}''})"
| "piece_ok (Escaped c) \<longleftrightarrow> c \<noteq> NUL"

fun dprint :: "dpiece \<Rightarrow> string" where
  "dprint (DText s) = s"
| "dprint (DVar n) = ''${'' @ n @ ''}''"

fun pprint :: "piece \<Rightarrow> string" where
  "pprint (Plain s) = s"
| "pprint (Quoted s) = CHR 39 # s @ [CHR 39]"
| "pprint (DQuoted ds) = CHR 34 # concat (map dprint ds) @ [CHR 34]"
| "pprint (Var n) = ''${'' @ n @ ''}''"
| "pprint (Escaped c) = [CHR 92, c]"

fun dmeaning :: "env_state \<Rightarrow> dpiece \<Rightarrow> string" where
  "dmeaning env (DText s) = s"
| "dmeaning env (DVar n) = value_of env n"

fun pmeaning :: "env_state \<Rightarrow> piece \<Rightarrow> string" where
  "pmeaning env (Plain s) = s"
| "pmeaning env (Quoted s) = s"
| "pmeaning env (DQuoted ds) = concat (map (dmeaning env) ds)"
| "pmeaning env (Var n) = value_of env n"
| "pmeaning env (Escaped c) = [c]"

definition word_text :: "piece list \<Rightarrow> string" where
  "word_text ps = concat (map pprint ps)"

definition word_meaning :: "env_state \<Rightarrow> piece list \<Rightarrow> string" where
  "word_meaning env ps = concat (map (pmeaning env) ps)"

text \<open>A command line: its words with blanks after each.\<close>

definition line_text :: "piece list list \<Rightarrow> string" where
  "line_text ws = concat (map (\<lambda>w. word_text w @ '' '') ws)"

lemma next_state:
  "grub_parser_cmdline_state STATE_TEXT c =
    (if c = CHR 39 then (STATE_QUOTE, NUL) else if c = CHR 34 then (STATE_DQUOTE, NUL)
     else if c = CHR ''$'' then (STATE_VAR, NUL) else if c = CHR 92 then (STATE_ESC, NUL) else (STATE_TEXT, c))"
  "grub_parser_cmdline_state STATE_ESC c = (STATE_TEXT, c)"
  "grub_parser_cmdline_state STATE_QUOTE c = (if c = CHR 39 then (STATE_TEXT, NUL) else (STATE_QUOTE, c))"
  "grub_parser_cmdline_state STATE_DQUOTE c =
    (if c = CHR 34 then (STATE_TEXT, NUL) else if c = CHR ''$'' then (STATE_QVAR, NUL) else (STATE_DQUOTE, c))"
  "grub_parser_cmdline_state STATE_VAR c =
    (if c = CHR ''{'' then (STATE_VARNAME2, NUL) else (STATE_VARNAME, c))"
  "grub_parser_cmdline_state STATE_VARNAME2 c =
    (if c = CHR ''}'' then (STATE_TEXT, NUL) else (STATE_VARNAME2, c))"
  "grub_parser_cmdline_state STATE_QVAR c =
    (if c = CHR ''{'' then (STATE_QVARNAME2, NUL) else (STATE_QVARNAME, c))"
  "grub_parser_cmdline_state STATE_QVARNAME2 c =
    (if c = CHR ''}'' then (STATE_DQUOTE, NUL) else (STATE_QVARNAME2, c))"
  by (simp_all add: grub_parser_cmdline_state_def state_transitions_def transition_matches_def
      grub_isspace_def schar_def eq_commute[of _ c])

lemmas parser_steps = word_step_def next_state expand_name_def kept_def

abbreviation "in_text s W w \<equiv> \<lparr>ws_state = s, ws_words = W, ws_cur = w, ws_name = []\<rparr>"

lemma fold_chars:
  assumes "\<And>c w. c \<in> set s \<Longrightarrow> word_step env c (in_text q W w) = in_text q W (w @ [c])"
  shows "fold (word_step env) s (in_text q W w) = in_text q W (w @ s)"
  using assms by (induction s arbitrary: w) auto

lemma fold_plain: "\<forall>c \<in> set s. plain_char c \<Longrightarrow>
    fold (word_step env) s (in_text STATE_TEXT W w) = in_text STATE_TEXT W (w @ s)"
  by (rule fold_chars) (auto simp: parser_steps)

lemma fold_quoted: "\<forall>c \<in> set s. c \<notin> {NUL, CHR 39} \<Longrightarrow>
    fold (word_step env) s (in_text STATE_QUOTE W w) = in_text STATE_QUOTE W (w @ s)"
  by (rule fold_chars) (auto simp: parser_steps)

lemma fold_dquoted: "\<forall>c \<in> set s. c \<notin> {NUL, CHR 34, CHR ''$''} \<Longrightarrow>
    fold (word_step env) s (in_text STATE_DQUOTE W w) = in_text STATE_DQUOTE W (w @ s)"
  by (rule fold_chars) (auto simp: parser_steps)

lemma step_name:
  assumes "q = STATE_VARNAME2 \<or> q = STATE_QVARNAME2" "c \<notin> {NUL, CHR ''}''}"
  shows "word_step env c \<lparr>ws_state = q, ws_words = W, ws_cur = w, ws_name = n\<rparr> =
    \<lparr>ws_state = q, ws_words = W, ws_cur = w, ws_name = n @ [c]\<rparr>"
  using assms by (elim disjE) (simp_all add: parser_steps)

lemma fold_name:
  assumes "q = STATE_VARNAME2 \<or> q = STATE_QVARNAME2" "\<forall>c \<in> set s. c \<notin> {NUL, CHR ''}''}"
  shows "fold (word_step env) s \<lparr>ws_state = q, ws_words = W, ws_cur = w, ws_name = n\<rparr> =
    \<lparr>ws_state = q, ws_words = W, ws_cur = w, ws_name = n @ s\<rparr>"
  using assms(2)
proof (induction s arbitrary: n)
  case (Cons c s)
  then show ?case using step_name[OF assms(1), of c] by simp
qed simp

lemma step_special:
  "word_step env (CHR 39) (in_text STATE_TEXT W w) = in_text STATE_QUOTE W w"
  "word_step env (CHR 39) (in_text STATE_QUOTE W w) = in_text STATE_TEXT W w"
  "word_step env (CHR 34) (in_text STATE_TEXT W w) = in_text STATE_DQUOTE W w"
  "word_step env (CHR 34) (in_text STATE_DQUOTE W w) = in_text STATE_TEXT W w"
  "word_step env (CHR ''$'') (in_text STATE_TEXT W w) = in_text STATE_VAR W w"
  "word_step env (CHR ''$'') (in_text STATE_DQUOTE W w) = in_text STATE_QVAR W w"
  "word_step env (CHR ''{'') (in_text STATE_VAR W w) = in_text STATE_VARNAME2 W w"
  "word_step env (CHR ''{'') (in_text STATE_QVAR W w) = in_text STATE_QVARNAME2 W w"
  "word_step env (CHR 92) (in_text STATE_TEXT W w) = in_text STATE_ESC W w"
  "word_step env (CHR '' '') (in_text STATE_TEXT W w) = in_text STATE_TEXT (if w = [] then W else W @ [w]) []"
  by (simp_all add: parser_steps schar_def end_word_def grub_isspace_def)

lemma step_escaped: "c \<noteq> NUL \<Longrightarrow> word_step env c (in_text STATE_ESC W w) = in_text STATE_TEXT W (w @ [c])"
  by (simp add: parser_steps)

lemma step_brace:
  "word_step env (CHR ''}'') \<lparr>ws_state = STATE_VARNAME2, ws_words = W, ws_cur = w, ws_name = n\<rparr> =
    in_text STATE_TEXT W (w @ value_of env n)"
  "word_step env (CHR ''}'') \<lparr>ws_state = STATE_QVARNAME2, ws_words = W, ws_cur = w, ws_name = n\<rparr> =
    in_text STATE_DQUOTE W (w @ value_of env n)"
  by (simp_all add: parser_steps schar_def grub_isspace_def)

lemma fold_dpieces: "\<forall>d \<in> set ds. dpiece_ok d \<Longrightarrow>
    fold (word_step env) (concat (map dprint ds)) (in_text STATE_DQUOTE W w) =
    in_text STATE_DQUOTE W (w @ concat (map (dmeaning env) ds))"
proof (induction ds arbitrary: w)
  case (Cons d ds)
  then show ?case by (cases d) (simp_all add: fold_dquoted fold_name step_special step_brace)
qed simp

lemma fold_piece: "piece_ok p \<Longrightarrow>
    fold (word_step env) (pprint p) (in_text STATE_TEXT W w) = in_text STATE_TEXT W (w @ pmeaning env p)"
  by (cases p)
     (simp_all add: fold_plain fold_quoted fold_dpieces fold_name step_special step_brace step_escaped)

lemma fold_word: "\<forall>p \<in> set ps. piece_ok p \<Longrightarrow>
    fold (word_step env) (word_text ps) (in_text STATE_TEXT W w) = in_text STATE_TEXT W (w @ word_meaning env ps)"
proof (induction ps arbitrary: w)
  case (Cons p ps)
  then show ?case using fold_piece[of p env W w] by (simp add: word_text_def word_meaning_def)
qed (simp add: word_text_def word_meaning_def)

lemma fold_line: "\<forall>ps \<in> set ws. \<forall>p \<in> set ps. piece_ok p \<Longrightarrow>
    fold (word_step env) (line_text ws) (in_text STATE_TEXT W []) =
    in_text STATE_TEXT (W @ filter (\<lambda>w. w \<noteq> []) (map (word_meaning env) ws)) []"
proof (induction ws arbitrary: W)
  case (Cons w ws)
  then show ?case by (simp add: line_text_def fold_word step_special)
qed (simp add: line_text_def)

lemma command_words_line:
  assumes "\<forall>ps \<in> set ws. \<forall>p \<in> set ps. piece_ok p"
  shows "command_words env (line_text ws) [] = filter (\<lambda>w. w \<noteq> []) (map (word_meaning env) ws)"
  using fold_line[OF assms, of env "[]"]
  by (cases "line_text ws = []")
     (simp_all add: command_words_def words_start_def more_input_def expand_name_def end_word_def)

text \<open>C8. Splitting a command line never reads or writes outside its buffers, and it gives exactly the
  words that the quoting and expansion rules assign to the line and its continuation lines; it can fail only for lack of memory or beyond a gigabyte of text.\<close>

theorem grub_parser_split_cmdline_correct:
  assumes "env_values_ok env"
  shows "\<exists>r. grub_parser_split_cmdline h env errno cmdline lines = Some r \<and>
    (r = Inr (command_words env cmdline lines)
     \<or> (\<exists>e. r = Inl e \<and>
          \<not> enough_memory h (length (arg_bytes (command_words env cmdline lines)) + length (concat (cmdline # lines)))))"
  using assms by (rule split_cmdline_words)

text \<open>C9. The parser reads back what the quoting rules print: a line of words, each a sequence of plain,
  quoted and escaped pieces and of braced variables, is split into the meanings of the words that are
  not empty, with every variable replaced by its value and every quoted blank kept.\<close>

theorem split_reads_words:
  assumes "\<forall>ps \<in> set ws. \<forall>p \<in> set ps. piece_ok p" and "env_values_ok env" and "\<forall>s. can_alloc h s"
    and "length (arg_bytes (filter (\<lambda>w. w \<noteq> []) (map (word_meaning env) ws))) + length (line_text ws) \<le> 2 ^ 30"
  shows "grub_parser_split_cmdline h env errno (line_text ws) [] =
    Some (Inr (filter (\<lambda>w. w \<noteq> []) (map (word_meaning env) ws)))"
  using split_cmdline_words[OF assms(2), of h errno "line_text ws" "[]"] assms(3,4)
  by (auto simp: command_words_line[OF assms(1)] enough_memory_def)


definition root_env :: env_state where
  "root_env = snd (grub_env_set ''root'' ''hd 0'' boot_env)"

lemma root_env_get: "is_cstr k \<Longrightarrow> grub_env_get k root_env = (if k = ''root'' then Some ''hd 0'' else None)"
  using env.get_put[OF boot_env_hookless, of "''root''" k "''hd 0''"] plain_get[OF boot_env_hookless, of k] find_empty
  by (simp add: root_env_def is_cstr_def boot_env_def current_def)

lemma root_env_ok: "env_values_ok root_env"
  by (auto simp: env_values_ok_def root_env_get split: if_splits)

theorem grub_parser_split_cmdline_correct_witness:
  "\<exists>r. grub_parser_split_cmdline \<lparr>can_alloc = \<lambda>_. True, junk = CHR ''?''\<rparr> root_env GRUB_ERR_NONE ''ls  '' [] = Some r
    \<and> r = Inr [''ls'']"
proof -
  have "command_words root_env ''ls  '' [] = [''ls'']"
    by (simp add: command_words_def words_start_def parser_steps more_input_def end_word_def schar_def grub_isspace_def)
  then show ?thesis
    using grub_parser_split_cmdline_correct[OF root_env_ok,
        of "\<lparr>can_alloc = \<lambda>_. True, junk = CHR ''?''\<rparr>" GRUB_ERR_NONE "''ls  ''" "[]"]
    by (simp add: enough_memory_def arg_bytes_def)
qed

theorem split_reads_words_witness:
  "grub_parser_split_cmdline \<lparr>can_alloc = \<lambda>_. True, junk = CHR ''?''\<rparr> root_env GRUB_ERR_NONE
      (line_text [[Plain ''set''], [Quoted ''a b'', Var ''root''], [DQuoted [DText ''x '', DVar ''root'']], [Quoted []]]) []
    = Some (Inr [''set'', ''a bhd 0'', ''x hd 0''])"
proof -
  let ?ws = "[[Plain ''set''], [Quoted ''a b'', Var ''root''], [DQuoted [DText ''x '', DVar ''root'']], [Quoted []]]"
  have "filter (\<lambda>w. w \<noteq> []) (map (word_meaning root_env) ?ws) = [''set'', ''a bhd 0'', ''x hd 0'']"
    by (simp add: word_meaning_def value_of_def root_env_get is_cstr_def)
  moreover have "\<forall>ps \<in> set ?ws. \<forall>p \<in> set ps. piece_ok p"
    by (simp add: schar_def grub_isspace_def)
  ultimately show ?thesis
    using split_reads_words[OF _ root_env_ok, of ?ws "\<lparr>can_alloc = \<lambda>_. True, junk = CHR ''?''\<rparr>" GRUB_ERR_NONE]
    by (simp add: arg_bytes_def line_text_def word_text_def)
qed

end
