(* ===== verification/GrubDatetime.thy ===== *)
theory GrubDatetime
  imports GrubNumber "HOL-Library.Signed_Division"
begin

text \<open>
  Calendar arithmetic: \<open>lib/datetime.c\<close> and \<open>grub_datetime2unixtime\<close> of \<open>include/grub/datetime.h\<close>.
  The conversion from Unix time works on words of the source's widths.  In the other direction every
  intermediate value is small (the year has 16 bits), and integers are used.
\<close>

record grub_datetime =
  dt_year :: u16
  dt_month :: u8
  dt_day :: u8
  dt_hour :: u8
  dt_minute :: u8
  dt_second :: u8

definition grub_weekday_names :: "string list" where
  "grub_weekday_names =
    [''Sunday'', ''Monday'', ''Tuesday'', ''Wednesday'', ''Thursday'', ''Friday'', ''Saturday'']"

definition grub_get_weekday :: "grub_datetime \<Rightarrow> u32" where
  "grub_get_weekday datetime =
    (let a = if dt_month datetime \<le> 2 then 1 else 0;
         y = ucast (dt_year datetime) - a;
         m = ucast (dt_month datetime) + 12 * a - 2
     in (ucast (dt_day datetime) + y + y div 4 - y div 100 + y div 400 + 31 * m div 12) mod 7)"

definition grub_get_weekday_name :: "grub_datetime \<Rightarrow> string" where
  "grub_get_weekday_name datetime = grub_weekday_names ! unat (grub_get_weekday datetime)"

definition month_days :: "nat list" where
  "month_days = [31, 28, 31, 30, 31, 30, 31, 31, 30, 31, 30, 31]"

definition month_len :: "bool \<Rightarrow> nat \<Rightarrow> nat" where
  "month_len bisextile i = (if i = 1 \<and> bisextile then 29 else month_days ! i)"

text \<open>The loop over the months: the index of the month and the days left in it.\<close>

function month_loop :: "bool \<Rightarrow> nat \<Rightarrow> u32 \<Rightarrow> nat \<times> u32" where
  "month_loop bisextile i days =
    (if i < 12 \<and> days \<ge> of_nat (month_len bisextile i)
     then month_loop bisextile (i + 1) (days - of_nat (month_len bisextile i))
     else (i, days))"
  by pat_completeness auto

termination month_loop
  by (relation "measure (\<lambda>(b, i, d). 12 - i)") auto

declare month_loop.simps [simp del]

text \<open>The year, and the days into it.\<close>

definition split_year :: "u32 \<Rightarrow> u16 \<times> u32" where
  "split_year days =
    (let year = ucast (1 + 400 * (days div 146097)) :: u16;
         days = days mod 146097;
         (year, days) =
           (if days div 36524 = 4 then (year + 396, days - (396 * 365 + 96))
            else (year + ucast (100 * (days div 36524)), days mod 36524));
         year = year + ucast (4 * (days div 1461));
         days = days mod 1461
     in if days div 365 = 4 then (year + 3, days - 3 * 365)
        else (year + ucast (days div 365), days mod 365))"

text \<open>Days since the epoch, rounded down; the negation is of the unsigned quotient.\<close>

definition epoch_days :: "u64 \<Rightarrow> u32 option" where
  "epoch_days nix =
    (if nix <s 0
     then map_option (\<lambda>(q, _). ucast (- q)) (grub_divmod64 (86400 - nix - 1) 86400)
     else map_option (\<lambda>(q, _). ucast q) (grub_divmod64 nix 86400))"

definition grub_unixtime2datetime :: "u64 \<Rightarrow> grub_datetime option" where
  "grub_unixtime2datetime nix =
    (case epoch_days nix of
       None \<Rightarrow> None
     | Some days_epoch \<Rightarrow>
         (let secs_in_day = ucast (nix - scast (days_epoch * 86400)) :: u32;
              days = 4 * 146097 + 369 * 365 + 3 * 24 + 17 + days_epoch;
              (year, days) = split_year days;
              bisextile = (year mod 4 = 0 \<and> (year mod 100 \<noteq> 0 \<or> year mod 400 = 0));
              (i, days) = month_loop bisextile 0 days;
              hour = secs_in_day div 3600;
              secs_in_day = secs_in_day mod 3600
          in Some \<lparr>dt_year = year, dt_month = of_nat (i + 1), dt_day = ucast (1 + days),
               dt_hour = ucast hour, dt_minute = ucast (secs_in_day div 60),
               dt_second = ucast (secs_in_day mod 60)\<rparr>))"

definition monthssum :: "int list" where
  "monthssum = [0, 31, 59, 90, 120, 151, 181, 212, 243, 273, 304, 334]"

definition grub_datetime2unixtime :: "grub_datetime \<Rightarrow> int option" where
  "grub_datetime2unixtime datetime =
    (let year = uint (dt_year datetime); month = unat (dt_month datetime); day = uint (dt_day datetime) in
     if month > 12 \<or> month < 1 then None
     else
       (let ret = 3 * 31536000 + 86400;
            y4 = drop_bit 2 (year - 1) - 1973 div 4;
            ay = year - 1973 - 4 * y4;
            ret = ret + y4 * 126230400 + ay * 31536000;
            ret = ret - ((year - 1) sdiv 100 - (year - 1) sdiv 400 - 15) * 86400;
            ret = ret + monthssum ! (month - 1) * 86400;
            bisextile = (ay = 3 \<and> (year mod 100 \<noteq> 0 \<or> year mod 400 = 0));
            ret = (if bisextile \<and> month \<ge> 3 then ret + 86400 else ret);
            ret = ret + (day - 1) * 86400
        in if (day > int (month_days ! (month - 1)) \<and> \<not> (bisextile \<and> month = 2 \<and> day = 29)) \<or> day < 1 then None
        else
          (let ret = ret + uint (dt_hour datetime) * 3600
           in if dt_hour datetime > 23 then None
           else
             (let ret = ret + uint (dt_minute datetime) * 60
              in if dt_minute datetime > 59 then None
              else
                (let ret = ret + uint (dt_second datetime)
                 in if dt_second datetime > 60 then None
                 else if year > 1980 \<and> ret < 0 \<or> year < 1960 \<and> ret > 0 then None
                 else Some ret)))))"


section \<open>Days\<close>

text \<open>Days before a year, in the Gregorian calendar, from the first of January of year 1.\<close>

definition leap :: "nat \<Rightarrow> bool" where
  "leap y \<longleftrightarrow> y mod 4 = 0 \<and> (y mod 100 \<noteq> 0 \<or> y mod 400 = 0)"

definition days_before_year :: "nat \<Rightarrow> nat" where
  "days_before_year y = 365 * (y - 1) + (y - 1) div 4 + (y - 1) div 400 - (y - 1) div 100"

definition days_before_month :: "nat \<Rightarrow> nat \<Rightarrow> nat" where
  "days_before_month y i = (\<Sum>j<i. month_len (leap y) j)"

lemma word_of_nat_div:
  "a < 2 ^ LENGTH('a) \<Longrightarrow> b < 2 ^ LENGTH('a) \<Longrightarrow> (of_nat a :: 'a::len word) div of_nat b = of_nat (a div b)"
  by (simp add: word_arith_nat_div)

lemma word_of_nat_mod:
  "a < 2 ^ LENGTH('a) \<Longrightarrow> b < 2 ^ LENGTH('a) \<Longrightarrow> (of_nat a :: 'a::len word) mod of_nat b = of_nat (a mod b)"
  by (simp add: word_arith_nat_mod)

lemma ucast_of_nat: "LENGTH('b) \<le> LENGTH('a) \<Longrightarrow> ucast (of_nat n :: 'a::len word) = (of_nat n :: 'b::len word)"
  by (rule bit_word_eqI) (simp add: bit_simps)

text \<open>The decomposition into centuries, four-year periods and years, on numbers.\<close>

definition year_parts :: "nat \<Rightarrow> nat \<times> nat" where
  "year_parts D =
    (let q = D div 146097; r = D mod 146097;
         (y, r) = (if r div 36524 = 4 then (1 + 400 * q + 396, r - 144636)
                   else (1 + 400 * q + 100 * (r div 36524), r mod 36524));
         y = y + 4 * (r div 1461); r = r mod 1461
     in if r div 365 = 4 then (y + 3, r - 1095) else (y + r div 365, r mod 365))"

lemma nat_div_unique: "a = d * k + r \<Longrightarrow> r < d \<Longrightarrow> a div d = k \<and> a mod d = (r :: nat)"
  by simp

lemma year_of_parts:
  assumes "c \<le> 3" "f \<le> 24" "g \<le> 3" "y = 1 + 400 * q + 100 * c + 4 * f + g"
  shows "days_before_year y = 146097 * q + 36524 * c + 1461 * f + 365 * g"
    and "leap y \<longleftrightarrow> g = 3 \<and> (f \<noteq> 24 \<or> c = 3)"
proof -
  have y: "y - 1 = 400 * q + 100 * c + 4 * f + g" using assms(4) by simp
  have "(y - 1) div 4 = 100 * q + 25 * c + f"
    using nat_div_unique[of "y - 1" 4 "100 * q + 25 * c + f" g] assms(3) y by simp
  moreover have "(y - 1) div 100 = 4 * q + c"
    using nat_div_unique[of "y - 1" 100 "4 * q + c" "4 * f + g"] assms(2,3) y by simp
  moreover have "(y - 1) div 400 = q"
    using nat_div_unique[of "y - 1" 400 q "100 * c + 4 * f + g"] assms(1-3) y by simp
  ultimately show "days_before_year y = 146097 * q + 36524 * c + 1461 * f + 365 * g"
    unfolding days_before_year_def y by simp
  have wrap: "(d * k + r) mod d = 0 \<longleftrightarrow> r = d" if "0 < r" "r \<le> d" for d k r :: nat
    using that by (cases "r = d") simp_all
  have "y mod 4 = 0 \<longleftrightarrow> g = 3"
    using wrap[of "g + 1" 4 "100 * q + 25 * c + f"] assms(3,4) by (simp add: algebra_simps)
  moreover have "y mod 100 = 0 \<longleftrightarrow> f = 24 \<and> g = 3"
    using wrap[of "4 * f + g + 1" 100 "4 * q + c"] assms(2-4) by (simp add: algebra_simps) linarith
  moreover have "y mod 400 = 0 \<longleftrightarrow> c = 3 \<and> f = 24 \<and> g = 3"
    using wrap[of "100 * c + 4 * f + g + 1" 400 q] assms by (simp add: algebra_simps) linarith
  ultimately show "leap y \<longleftrightarrow> g = 3 \<and> (f \<noteq> 24 \<or> c = 3)" by (auto simp: leap_def)
qed

lemma year_parts_decompose:
  assumes "year_parts D = (y, r)"
  obtains q c f g where "c \<le> 3" "f \<le> 24" "g \<le> 3" "y = 1 + 400 * q + 100 * c + 4 * f + g"
    "D = 146097 * q + 36524 * c + 1461 * f + 365 * g + r" "r < 365 \<or> r = 365 \<and> g = 3 \<and> (f \<noteq> 24 \<or> c = 3)"
proof -
  define q s where "q = D div 146097" and "s = D mod 146097"
  have D: "D = 146097 * q + s" "s < 146097" by (simp_all add: q_def s_def)
  show thesis
  proof (cases "s div 36524 = 4")
    case True
    then have "s = 146096" using D(2) by linarith
    then have "y = 1 + 400 * q + 396 + 3" "r = 365"
      using assms by (simp_all add: year_parts_def q_def[symmetric] s_def[symmetric])
    then show thesis using D(1) \<open>s = 146096\<close> by (intro that[of 3 24 3 q]) simp_all
  next
    case False
    define c t where "c = s div 36524" and "t = s mod 36524"
    have ct: "s = 36524 * c + t" "t < 36524" by (simp_all add: c_def t_def)
    have c: "c \<le> 3" using False D(2) c_def by linarith
    define f u where "f = t div 1461" and "u = t mod 1461"
    have fu: "t = 1461 * f + u" "u < 1461" by (simp_all add: f_def u_def)
    have f: "f \<le> 24" "f = 24 \<longrightarrow> u < 1460" using fu ct(2) by linarith+
    have yr: "(y, r) = (if u div 365 = 4 then (1 + 400 * q + 100 * c + 4 * f + 3, u - 1095)
        else (1 + 400 * q + 100 * c + 4 * f + u div 365, u mod 365))"
      using assms False unfolding c_def[symmetric] f_def u_def
      by (simp add: year_parts_def q_def[symmetric] s_def[symmetric] c_def[symmetric] t_def[symmetric]
          Let_def split: if_splits)
    show thesis
    proof (cases "u div 365 = 4")
      case True
      then have "u = 1460" using fu(2) by linarith
      then show thesis using yr True D ct fu c f by (intro that[of c f 3 q]) auto
    next
      case False
      then have "u div 365 \<le> 3" using fu(2) by linarith
      then show thesis using yr False D(1) ct(1) fu(1) c f
        by (intro that[of c f "u div 365" q]) simp_all
    qed
  qed
qed

lemma year_parts_correct:
  assumes "year_parts D = (y, r)"
  shows "1 \<le> y \<and> D = days_before_year y + r \<and> r < (if leap y then 366 else 365)"
proof -
  obtain q c f g where "c \<le> 3" "f \<le> 24" "g \<le> 3" "y = 1 + 400 * q + 100 * c + 4 * f + g"
    "D = 146097 * q + 36524 * c + 1461 * f + 365 * g + r" "r < 365 \<or> r = 365 \<and> g = 3 \<and> (f \<noteq> 24 \<or> c = 3)"
    using year_parts_decompose[OF assms] .
  then show ?thesis using year_of_parts[of c f g y q] by auto
qed


lemma days_before_year_Suc:
  "1 \<le> y \<Longrightarrow> days_before_year (Suc y) = days_before_year y + (if leap y then 366 else 365)"
proof -
  assume "1 \<le> y"
  then obtain k where y: "y = Suc k" by (cases y) auto
  have "k div 100 \<le> k div 4" by (simp add: div_le_mono2)
  moreover have "Suc k mod 400 = 0 \<longrightarrow> Suc k mod 100 = 0" "Suc k mod 100 = 0 \<longrightarrow> Suc k mod 4 = 0"
    using dvd_trans[of 100 400 "Suc k"] dvd_trans[of 4 100 "Suc k"] by (simp_all only: mod_eq_0_iff_dvd) simp_all
  ultimately show ?thesis unfolding y days_before_year_def leap_def
    by (simp add: div_Suc) (auto simp: algebra_simps)
qed

lemma days_before_year_mono: "y \<le> z \<Longrightarrow> 1 \<le> y \<Longrightarrow> days_before_year y \<le> days_before_year z"
proof (induction z rule: dec_induct)
  case (step z)
  then show ?case using days_before_year_Suc[of z] by auto
qed simp

definition last_day :: nat where "last_day = 23936166"

lemma last_day_year: "1 \<le> y \<Longrightarrow> days_before_year y < last_day \<Longrightarrow> y < 65536"
  using days_before_year_mono[of 65536 y] by (auto simp: days_before_year_def last_day_def not_less[symmetric])

lemma word_of_nat_div32 [simp]:
  "a < 2 ^ 32 \<Longrightarrow> numeral k < (2 ^ 32 :: nat) \<Longrightarrow> (of_nat a :: u32) div numeral k = of_nat (a div numeral k)"
  using word_of_nat_div[of a "numeral k", where 'a = 32] by simp

lemma word_of_nat_mod32 [simp]:
  "a < 2 ^ 32 \<Longrightarrow> numeral k < (2 ^ 32 :: nat) \<Longrightarrow> (of_nat a :: u32) mod numeral k = of_nat (a mod numeral k)"
  using word_of_nat_mod[of a "numeral k", where 'a = 32] by simp

lemma word_of_nat_eq32 [simp]:
  assumes "a < 2 ^ 32" "numeral k < (2 ^ 32 :: nat)"
  shows "(of_nat a :: u32) = numeral k \<longleftrightarrow> a = numeral k"
proof
  assume "(of_nat a :: u32) = numeral k"
  then have "unat (of_nat a :: u32) = unat (of_nat (numeral k) :: u32)" by simp
  moreover have "unat (of_nat a :: u32) = a" using assms(1) by simp
  moreover have "unat (of_nat (numeral k) :: u32) = numeral k" by (rule unat_of_nat_id) (use assms(2) in simp)
  ultimately show "a = numeral k" by (simp only:)
qed simp

lemma ucast_sums:
  "ucast (1 + 400 * of_nat q :: u32) = (of_nat (1 + 400 * q) :: u16)"
  "ucast (numeral k * of_nat q :: u32) = (of_nat (numeral k * q) :: u16)"
  "ucast (of_nat q :: u32) = (of_nat q :: u16)"
  using ucast_of_nat[where 'a = 32 and 'b = 16, of "1 + 400 * q"]
    ucast_of_nat[where 'a = 32 and 'b = 16, of "numeral k * q"] ucast_of_nat[where 'a = 32 and 'b = 16, of q]
  by simp_all

lemma split_year_parts:
  assumes "D < last_day" "year_parts D = (y, r)"
  shows "split_year (of_nat D) = (of_nat y, of_nat r)"
proof -
  have D: "D < 2 ^ 32" using assms(1) by (simp add: last_day_def)
  define q s where "q = D div 146097" and "s = D mod 146097"
  have s: "s < 146097" by (simp add: s_def)
  have start: "split_year (of_nat D) =
    (let (year, days) =
           (if (of_nat s :: u32) div 36524 = 4 then (of_nat (1 + 400 * q) + 396, of_nat s - 144636)
            else (of_nat (1 + 400 * q) + ucast (100 * ((of_nat s :: u32) div 36524)), of_nat s mod 36524));
         year = year + ucast (4 * (days div 1461));
         days = days mod 1461
     in if days div 365 = 4 then (year + 3, days - 1095)
        else (year + ucast (days div 365), days mod 365))"
    using D unfolding split_year_def Let_def
    by (simp add: q_def s_def ucast_sums(1))
  show ?thesis
  proof (cases "s div 36524 = 4")
    case True
    then have s': "s = 146096" using s by linarith
    then have "y = 1 + 400 * q + 399" "r = 365"
      using assms(2) by (simp_all add: year_parts_def q_def[symmetric] s_def[symmetric])
    then show ?thesis unfolding start s' by simp
  next
    case False
    define t where "t = s mod 36524"
    define u where "u = t mod 1461"
    have b: "s < 2 ^ 32" "s div 36524 < 2 ^ 32" "t < 2 ^ 32" "u < 2 ^ 32" "u div 365 < 2 ^ 32"
      using s mod_less_divisor[of 36524 s] mod_less_divisor[of 1461 t] unfolding t_def[symmetric] u_def[symmetric]
      by simp_all
    have yr: "(y, r) = (if u div 365 = 4 then (1 + 400 * q + 100 * (s div 36524) + 4 * (t div 1461) + 3, u - 1095)
        else (1 + 400 * q + 100 * (s div 36524) + 4 * (t div 1461) + u div 365, u mod 365))"
      using assms(2) False unfolding u_def t_def
      by (simp add: year_parts_def q_def[symmetric] s_def[symmetric] Let_def split: if_splits)
    have "split_year (of_nat D) = (if u div 365 = 4
        then (of_nat (1 + 400 * q) + of_nat (100 * (s div 36524)) + of_nat (4 * (t div 1461)) + 3, of_nat u - 1095)
        else (of_nat (1 + 400 * q) + of_nat (100 * (s div 36524)) + of_nat (4 * (t div 1461)) + of_nat (u div 365),
              of_nat (u mod 365)))"
      unfolding start using False b by (simp add: t_def[symmetric] u_def[symmetric] ucast_sums(2,3) del: of_nat_mult)
    then show ?thesis using yr by (auto split: if_splits simp: of_nat_diff)
  qed
qed

lemma month_loop_days:
  assumes "d < (\<Sum>j\<in>{i..<12}. month_len b j)" "i < 12"
  shows "\<exists>k d'. month_loop b i (of_nat d) = (k, of_nat d') \<and> i \<le> k \<and> k < 12 \<and>
    d = (\<Sum>j\<in>{i..<k}. month_len b j) + d' \<and> d' < month_len b k"
  using assms
proof (induction "12 - i" arbitrary: i d)
  case (Suc n)
  have small: "month_len b j \<le> 31" if "j < 12" for j
    using that by (auto simp: month_len_def month_days_def nth_Cons' numeral_eq_Suc less_Suc_eq)
  have "(\<Sum>j\<in>{i..<12}. month_len b j) \<le> (\<Sum>j\<in>{i..<12}. 31)" using small by (intro sum_mono) simp
  then have d: "d < 2 ^ 32" using Suc.prems by simp
  have ge: "of_nat d \<ge> (of_nat (month_len b i) :: u32) \<longleftrightarrow> month_len b i \<le> d"
    using d small[OF Suc.prems(2)] by (simp add: word_le_nat_alt)
  show ?case
  proof (cases "month_len b i \<le> d")
    case True
    have split: "(\<Sum>j\<in>{i..<m}. month_len b j) = month_len b i + (\<Sum>j\<in>{Suc i..<m}. month_len b j)" if "i < m" for m
      using that by (simp add: sum.atLeast_Suc_lessThan)
    have lt: "d - month_len b i < (\<Sum>j\<in>{Suc i..<12}. month_len b j)"
      using Suc.prems True split[OF Suc.prems(2)] by simp
    then have "Suc i < 12" using Suc.prems(2) by (cases "Suc i = 12") auto
    then obtain k d' where "month_loop b (Suc i) (of_nat (d - month_len b i)) = (k, of_nat d')" "Suc i \<le> k" "k < 12"
      "d - month_len b i = (\<Sum>j\<in>{Suc i..<k}. month_len b j) + d'" "d' < month_len b k"
      using Suc.hyps(1)[OF _ lt] Suc.hyps(2) by (metis diff_Suc_Suc Suc_diff_Suc Suc_inject Suc.prems(2))
    moreover have "month_loop b i (of_nat d) = month_loop b (Suc i) (of_nat (d - month_len b i))"
      using True ge Suc.prems(2) by (simp add: month_loop.simps[of b i] of_nat_diff)
    ultimately have "month_loop b i (of_nat d) = (k, of_nat d') \<and> i \<le> k \<and> k < 12 \<and>
      d = (\<Sum>j\<in>{i..<k}. month_len b j) + d' \<and> d' < month_len b k"
      using True split[of k] by simp
    then show ?thesis by blast
  next
    case False
    then have "month_loop b i (of_nat d) = (i, of_nat d)" using ge by (simp add: month_loop.simps[of b i])
    then show ?thesis using False Suc.prems(2) by fastforce
  qed
qed simp

lemma year_length: "(\<Sum>j\<in>{0..<12}. month_len b j) = (if b then 366 else 365)"
  by (simp add: month_len_def month_days_def numeral_eq_Suc)


definition epoch_day :: int where "epoch_day = 719162"

definition in_calendar :: "u64 \<Rightarrow> bool" where
  "in_calendar nix \<longleftrightarrow> 0 \<le> epoch_day + sint nix div 86400 \<and> epoch_day + sint nix div 86400 < int last_day"

lemma ucast_scast_same: "ucast (scast (w :: u32) :: u64) = w"
  by (rule bit_word_eqI) (simp add: bit_simps)

lemma ucast_diff64: "ucast (a - b :: u64) = (ucast a - ucast b :: u32)"
proof -
  have "ucast (of_int (uint a) - of_int (uint b) :: u64) = (ucast (of_int (uint a) :: u64) - ucast (of_int (uint b) :: u64) :: u32)"
    unfolding of_int_diff[symmetric] ucast_of_int64 by simp
  then show ?thesis by simp
qed

lemma word_of_int_div64:
  assumes "0 \<le> x" "x < 2 ^ 64"
  shows "(of_int x :: u64) div 86400 = of_int (x div 86400)"
proof -
  have "(of_int x :: u64) div 86400 = of_int (uint (of_int x :: u64) div uint (86400 :: u64))"
    by (metis word_of_int_uint uint_div)
  then show ?thesis using assms by (simp add: uint_of_int_id)
qed

lemma epoch_days_div: "epoch_days nix = Some (of_int (sint nix div 86400))"
proof -
  have n: "nix = of_int (sint nix)" by (simp add: of_int_sint64)
  have r: "- (2 ^ 63) \<le> sint nix" "sint nix < 2 ^ 63" using sint_ge[of nix] sint_less[of nix] by simp_all
  show ?thesis
  proof (cases "sint nix < 0")
    case True
    have "(86400 - nix - 1 :: u64) = of_int (86399 - sint nix)"
      by (subst n) (simp only: of_int_diff of_int_numeral, simp)
    moreover have "0 \<le> 86399 - sint nix" "86399 - sint nix < 2 ^ 64" using r True by simp_all
    ultimately have "(86400 - nix - 1) div 86400 = (of_int ((86399 - sint nix) div 86400) :: u64)"
      using word_of_int_div64 by metis
    moreover have "- ((86399 - sint nix) div 86400) = sint nix div 86400" by linarith
    ultimately have "ucast (- ((86400 - nix - 1) div 86400)) = (of_int (sint nix div 86400) :: u32)"
      by (metis of_int_minus ucast_of_int64)
    then show ?thesis using True by (simp add: epoch_days_def divmod64_div_mod word_sless_alt)
  next
    case False
    then have "nix div 86400 = of_int (sint nix div 86400)"
      using word_of_int_div64[of "sint nix"] n r by simp
    then show ?thesis using False by (simp add: epoch_days_def divmod64_div_mod word_sless_alt ucast_of_int64)
  qed
qed

lemma seconds_of_day: "(ucast ((nix :: u64) - scast (of_int (sint nix div 86400) * 86400 :: u32)) :: u32) = of_int (sint nix mod 86400)"
proof -
  have "ucast nix = (of_int (sint nix) :: u32)" using ucast_of_int64[of "sint nix"] by (simp only: of_int_sint64)
  then have "ucast (nix - scast (of_int (sint nix div 86400) * 86400 :: u32)) =
      (of_int (sint nix) - of_int (sint nix div 86400) * 86400 :: u32)"
    by (simp add: ucast_diff64 ucast_scast_same)
  also have "\<dots> = of_int (sint nix - sint nix div 86400 * 86400)" by simp
  finally show ?thesis by (simp add: minus_div_mult_eq_mod)
qed

definition date_fields :: "nat \<Rightarrow> nat \<Rightarrow> nat \<Rightarrow> nat \<Rightarrow> grub_datetime" where
  "date_fields y k d s = \<lparr>dt_year = of_nat y, dt_month = of_nat (k + 1), dt_day = of_nat (d + 1),
     dt_hour = of_nat (s div 3600), dt_minute = of_nat (s mod 3600 div 60), dt_second = of_nat (s mod 60)\<rparr>"

lemma ucast32_8: "ucast (of_nat q :: u32) = (of_nat q :: u8)"
  using ucast_of_nat[where 'a = 32 and 'b = 8, of q] by simp

lemma year_leap: "y < 65536 \<Longrightarrow>
    ((of_nat y :: u16) mod 4 = 0 \<and> ((of_nat y :: u16) mod 100 \<noteq> 0 \<or> (of_nat y :: u16) mod 400 = 0)) = leap y"
proof -
  assume y: "y < 65536"
  have m: "(of_nat y :: u16) mod numeral k = 0 \<longleftrightarrow> y mod numeral k = 0" if "numeral k < (2 ^ 16 :: nat)" for k
  proof -
    have "(of_nat y :: u16) mod numeral k = of_nat (y mod numeral k)"
      using word_of_nat_mod[of y "numeral k", where 'a = 16] y that by simp
    moreover have "unat (of_nat (y mod numeral k) :: u16) = y mod numeral k"
      using y by (intro unat_of_nat_id) (simp add: le_less_trans[OF mod_less_eq_dividend])
    ultimately show ?thesis by (metis unat_eq_0 unat_0)
  qed
  show ?thesis using m[of "Num.Bit0 (Num.Bit0 num.One)"] unfolding leap_def by (simp add: m)
qed

lemma unixtime_fields:
  assumes "in_calendar nix"
  obtains y k d where
    "grub_unixtime2datetime nix = Some (date_fields y k d (nat (sint nix mod 86400)))"
    "1 \<le> y" "y < 65536" "k < 12" "d < month_len (leap y) k"
    "epoch_day + sint nix div 86400 = int (days_before_year y + (\<Sum>j<k. month_len (leap y) j) + d)"
proof -
  define D where "D = nat (epoch_day + sint nix div 86400)"
  define s where "s = nat (sint nix mod 86400)"
  have D: "int D = epoch_day + sint nix div 86400" "D < last_day"
    using assms by (simp_all add: in_calendar_def D_def nat_less_iff)
  have days: "(4 * 146097 + 369 * 365 + 3 * 24 + 17 + of_int (sint nix div 86400) :: u32) = of_nat D"
    using arg_cong[OF D(1), of "of_int :: int \<Rightarrow> u32"] by (simp add: epoch_day_def)
  obtain y r where yr: "year_parts D = (y, r)" by fastforce
  note y = year_parts_correct[OF yr]
  then have y16: "y < 65536" using D(2) last_day_year[of y] by simp
  obtain k d where k: "month_loop (leap y) 0 (of_nat r) = (k, of_nat d)" "k < 12"
      "r = (\<Sum>j\<in>{0..<k}. month_len (leap y) j) + d" "d < month_len (leap y) k"
    using month_loop_days[where d = r and i = 0 and b = "leap y"] y by (auto simp: year_length)
  have secs: "(of_int (sint nix mod 86400) :: u32) = of_nat s" by (simp add: s_def)
  have s: "s < 2 ^ 32" "s mod 3600 < 2 ^ 32"
    by (simp_all add: s_def less_trans[of _ 3600] pos_mod_bound[THEN less_trans])
  have day: "ucast (1 + of_nat d :: u32) = (1 + of_nat d :: u8)" using ucast32_8[of "1 + d"] by simp
  have "grub_unixtime2datetime nix = Some (date_fields y k d s)"
    using s unfolding grub_unixtime2datetime_def epoch_days_div option.case Let_def days seconds_of_day secs
      split_year_parts[OF D(2) yr] prod.case year_leap[OF y16] k(1)
    by (simp add: date_fields_def ucast32_8 mod_mod_cancel day)
  then show thesis
    using that[of y k d] y y16 k D by (simp add: s_def lessThan_atLeast0)
qed


lemma small8: "a < 256 \<Longrightarrow> unat (of_nat a :: u8) = a" 
  by (rule unat_of_nat_id) simp
lemma small8u: assumes "a < 256" shows "uint (of_nat a :: u8) = int a" 
  by (rule trans[OF of_nat_unat[symmetric]]) (simp only: small8[OF assms])
lemma small16u: assumes "a < 65536" shows "uint (of_nat a :: u16) = int a" 
proof -
  have "unat (of_nat a :: u16) = a" by (rule unat_of_nat_id) (use assms in simp)
  then show ?thesis using of_nat_unat[of "of_nat a :: u16", where 'a = int] by simp
qed

lemma month_cases: "k < 12 \<Longrightarrow> k \<in> {0, 1, 2, 3, 4, 5, 6, 7, 8, 9, 10, 11 :: nat}"
  by simp presburger

lemma monthssum_before:
  assumes "k < 12"
  shows "int (\<Sum>j<k. month_len b j) = monthssum ! k + (if b \<and> 3 \<le> k + 1 then 1 else 0)"
  using month_cases[OF assms]
  by (elim insertE emptyE) (simp_all add: month_len_def month_days_def monthssum_def numeral_eq_Suc)

lemma month_len_bounds: "k < 12 \<Longrightarrow> 28 \<le> month_len b k \<and> month_len b k \<le> 31"
  using month_cases by (fastforce simp: month_len_def month_days_def)

lemma date_field_values:
  assumes "y < 65536" "k < 12" "d < month_len b k" "s < 86400"
  shows "uint (dt_year (date_fields y k d s)) = int y" "unat (dt_month (date_fields y k d s)) = k + 1"
    "uint (dt_day (date_fields y k d s)) = int d + 1"
    "uint (dt_hour (date_fields y k d s)) = int (s div 3600)"
    "uint (dt_minute (date_fields y k d s)) = int (s mod 3600 div 60)"
    "uint (dt_second (date_fields y k d s)) = int (s mod 60)"
    "dt_hour (date_fields y k d s) \<le> 23" "dt_minute (date_fields y k d s) \<le> 59"
    "dt_second (date_fields y k d s) \<le> 60"
proof -
  have b: "d + 1 < 256" "s div 3600 \<le> 23" "s mod 3600 div 60 \<le> 59" "s mod 60 \<le> 59"
  proof -
    show "d + 1 < 256" using month_len_bounds[OF assms(2), of b] assms(3) by simp
    show "s div 3600 \<le> 23" using less_mult_imp_div_less[of s 24 3600] assms(4) by simp
    show "s mod 3600 div 60 \<le> 59"
      using less_mult_imp_div_less[of "s mod 3600" 60 60] mod_less_divisor[of 3600 s] by simp
    show "s mod 60 \<le> 59" using mod_less_divisor[of 60 s] by linarith
  qed
  show "uint (dt_year (date_fields y k d s)) = int y"
    using small16u[OF assms(1)] by (simp only: date_fields_def grub_datetime.select_convs)
  show "unat (dt_month (date_fields y k d s)) = k + 1" "uint (dt_day (date_fields y k d s)) = int d + 1"
    using small8[of "k + 1"] small8u[of "d + 1"] b assms(2) by (simp_all add: date_fields_def)
  show "uint (dt_hour (date_fields y k d s)) = int (s div 3600)"
    "uint (dt_minute (date_fields y k d s)) = int (s mod 3600 div 60)"
    "uint (dt_second (date_fields y k d s)) = int (s mod 60)"
    using b small8u[of "s div 3600"] small8u[of "s mod 3600 div 60"] small8u[of "s mod 60"]
    unfolding date_fields_def grub_datetime.select_convs by linarith+
  show "dt_hour (date_fields y k d s) \<le> 23" "dt_minute (date_fields y k d s) \<le> 59"
    "dt_second (date_fields y k d s) \<le> 60"
    using b small8[of "s div 3600"] small8[of "s mod 3600 div 60"] small8[of "s mod 60"]
    unfolding date_fields_def grub_datetime.select_convs word_le_nat_alt by simp_all
qed

lemma days_before_year_int:
  "int (days_before_year y) = 365 * int (y - 1) + int (y - 1) div 4 + int (y - 1) div 400 - int (y - 1) div 100"
proof -
  have "(y - 1) div 100 \<le> (y - 1) div 4" by (rule div_le_mono2) simp_all
  then show ?thesis by (simp add: days_before_year_def of_nat_diff zdiv_int)
qed

lemma unixtime_sign:
  assumes "1 \<le> y" "D < days_before_year (Suc y)" "days_before_year y \<le> D" "s < 86400"
  defines "n \<equiv> (int D - epoch_day) * 86400 + int s"
  shows "\<not> (1980 < int y \<and> n < 0 \<or> int y < 1960 \<and> n > 0)"
proof -
  have "int D \<ge> epoch_day" if "1980 < y"
    using that days_before_year_mono[of 1980 y] assms(3) by (simp add: days_before_year_def epoch_day_def)
  moreover have "int D < epoch_day" if "y < 1960"
    using that days_before_year_mono[of "Suc y" 1960] assms(2) by (simp add: days_before_year_def epoch_day_def)
  ultimately show ?thesis using assms(4) unfolding n_def by auto
qed

lemma seconds_split: "int (s div 3600) * 3600 + int (s mod 3600 div 60) * 60 + int (s mod 60) = int s"
proof -
  have "s = s div 3600 * 3600 + s mod 3600" by simp
  moreover have "s mod 3600 = s mod 3600 div 60 * 60 + s mod 60"
    using div_mult_mod_eq[of "s mod 3600" 60] by (simp add: mod_mod_cancel)
  ultimately show ?thesis by (metis add.assoc of_nat_add of_nat_mult of_nat_numeral)
qed

lemma year_in_four: "(Y :: int) - 1973 - 4 * (drop_bit 2 (Y - 1) - 1973 div 4) = (Y - 1) mod 4"
  by (simp add: drop_bit_eq_div minus_mult_div_eq_mod[symmetric])

lemma leap_int: "((int y - 1) mod 4 = 3 \<and> (int y mod 100 \<noteq> 0 \<or> int y mod 400 = 0)) = leap y"
proof -
  have "int y mod 4 = int (y mod 4)" "int y mod 100 = int (y mod 100)" "int y mod 400 = int (y mod 400)"
    by (simp_all add: zmod_int)
  moreover have "(int y - 1) mod 4 = 3 \<longleftrightarrow> int y mod 4 = 0" by presburger
  ultimately show ?thesis unfolding leap_def by (simp only: of_nat_eq_0_iff)
qed

text \<open>The sum the code computes, with the quotients as unknowns.\<close>

lemma ret_arith:
  fixes A B C E M d D s s1 s2 s3 A' :: int
  assumes "D = 1461 * A + 365 * B + E - C + (M + (if P then 1 else 0)) + d" "A' = A"
    "s1 * 3600 + s2 * 60 + s3 = s"
  shows "(if P
       then 3 * 31536000 + 86400 + (A' - 1973 div 4) * 126230400 + B * 31536000
         - (C - E - 15) * 86400 + M * 86400 + 86400
       else 3 * 31536000 + 86400 + (A' - 1973 div 4) * 126230400 + B * 31536000
         - (C - E - 15) * 86400 + M * 86400)
       + (d + 1 - 1) * 86400 + s1 * 3600 + s2 * 60 + s3
     = (D - 719162) * 86400 + s"
  using assms by (cases P) simp_all

lemma unixtime_of_fields:
  assumes "1 \<le> y" "y < 65536" "k < 12" "d < month_len (leap y) k" "s < 86400"
    "D = days_before_year y + (\<Sum>j<k. month_len (leap y) j) + d" "D < days_before_year (Suc y)"
  shows "grub_datetime2unixtime (date_fields y k d s) = Some ((int D - epoch_day) * 86400 + int s)"
proof -
  define M where "M = monthssum ! k"
  have M: "int (\<Sum>j<k. month_len (leap y) j) = M + (if leap y \<and> 3 \<le> k + 1 then 1 else 0)"
    using monthssum_before[OF assms(3)] by (simp add: M_def)
  have day: "((int d + 1 > int (month_days ! k) \<and> \<not> (leap y \<and> k + 1 = 2 \<and> int d + 1 = 29)) \<or> int d + 1 < 1) = False"
    using assms(4) by (auto simp: month_len_def month_days_def split: if_splits)
  have tests: "(k + 1 > 12 \<or> k + 1 < 1) = False" "k + 1 - 1 = k" using assms(3) by simp_all
  have sd: "(int y - 1) sdiv 100 = (int y - 1) div 100" "(int y - 1) sdiv 400 = (int y - 1) div 400"
    using assms(1) by (cases "y = 1"; simp add: signed_divide_int_def)+
  let ?dt = "date_fields y k d s"
  have h: "(dt_hour ?dt > 23) = False" "(dt_minute ?dt > 59) = False" "(dt_second ?dt > 60) = False"
    using date_field_values(7-9)[OF assms(2-5)] by (simp_all add: not_less)
  have ret: "(if leap y \<and> 3 \<le> k + 1
       then 3 * 31536000 + 86400 + (drop_bit 2 (int y - 1) - 1973 div 4) * 126230400 + (int y - 1) mod 4 * 31536000
         - ((int y - 1) div 100 - (int y - 1) div 400 - 15) * 86400 + M * 86400 + 86400
       else 3 * 31536000 + 86400 + (drop_bit 2 (int y - 1) - 1973 div 4) * 126230400 + (int y - 1) mod 4 * 31536000
         - ((int y - 1) div 100 - (int y - 1) div 400 - 15) * 86400 + M * 86400)
       + (int d + 1 - 1) * 86400 + int (s div 3600) * 3600 + int (s mod 3600 div 60) * 60 + int (s mod 60)
     = (int D - epoch_day) * 86400 + int s"
  proof -
    have "int (days_before_year y) = 365 * (int y - 1) + (int y - 1) div 4 + (int y - 1) div 400 - (int y - 1) div 100"
      using days_before_year_int[of y] assms(1) by (simp add: of_nat_diff)
    moreover have "int y - 1 = 4 * ((int y - 1) div 4) + (int y - 1) mod 4" by simp
    moreover have "D = 365 * Y + a + e - c \<Longrightarrow> Y = 4 * a + b \<Longrightarrow> D = 1461 * a + 365 * b + e - c"
      for D Y a b c e :: int by simp
    ultimately have "int (days_before_year y) = 1461 * ((int y - 1) div 4) + 365 * ((int y - 1) mod 4)
        + (int y - 1) div 400 - (int y - 1) div 100"
      by blast
    then show ?thesis using M seconds_split[of s] assms(6) unfolding drop_bit_eq_div epoch_day_def
      by (intro ret_arith[of _ "(int y - 1) div 4"]) (simp_all only: of_nat_add, simp_all)
  qed
  show ?thesis
    unfolding grub_datetime2unixtime_def Let_def date_field_values[OF assms(2-5)] tests if_False year_in_four
    unfolding leap_int sd M_def[symmetric]
    unfolding day h if_False ret
    using unixtime_sign[OF assms(1,7) _ assms(5)] assms(6) by simp
qed


lemma days_in_year:
  assumes "1 \<le> y" "k < 12" "d < month_len (leap y) k"
  shows "days_before_year y + (\<Sum>j<k. month_len (leap y) j) + d < days_before_year (Suc y)"
proof -
  have "(\<Sum>j<Suc k. month_len (leap y) j) \<le> (\<Sum>j<12. month_len (leap y) j)"
    using assms(2) by (intro sum_mono2) auto
  then show ?thesis
    using assms days_before_year_Suc[OF assms(1)] year_length[of "leap y"] by (simp add: lessThan_atLeast0)
qed

definition weekday_sum :: "nat \<Rightarrow> nat \<Rightarrow> nat \<Rightarrow> nat" where
  "weekday_sum day y m = day + y + y div 4 - y div 100 + y div 400 + 31 * m div 12"

lemma weekday_sum_days:
  "weekday_sum day y m + 7 * (52 * y) = day + days_before_year (Suc y) + 31 * m div 12"
proof -
  have "y div 100 \<le> y" by simp
  then show ?thesis by (simp add: weekday_sum_def days_before_year_def add_ac)
qed

lemma month_offset:
  assumes "k < 12" "2 \<le> k" "int S = monthssum ! k + (if b \<and> 3 \<le> k + 1 then 1 else 0)"
  shows "((if b then 366 else 365) + 31 * (k - 1) div 12) mod 7 = S mod 7"
proof -
  have "S = nat (monthssum ! k + (if b \<and> 3 \<le> k + 1 then 1 else 0))" using assms(3) by (metis nat_int)
  then show ?thesis
    using month_cases[OF assms(1)] assms(2) by (elim insertE emptyE; cases b) (simp_all add: monthssum_def)
qed

text \<open>The first of January of year 1 is a Monday.\<close>

lemma weekday_days:
  assumes "1 \<le> y" "k < 12"
  shows "(if k < 2 then weekday_sum (d + 1) (y - 1) (k + 11) else weekday_sum (d + 1) y (k - 1)) mod 7 =
    (days_before_year y + (\<Sum>j<k. month_len (leap y) j) + d + 1) mod 7"
proof (cases "k < 2")
  case True
  then have k: "k = 0 \<or> k = 1" by auto
  have "weekday_sum (d + 1) (y - 1) (k + 11) mod 7 = (d + 1 + days_before_year y + 31 * (k + 11) div 12) mod 7"
    using weekday_sum_days[of "d + 1" "y - 1" "k + 11"] assms(1) by (metis Suc_diff_1 mod_mult_self2 less_eq_Suc_le One_nat_def)
  also have "\<dots> = (d + 1 + days_before_year y + (\<Sum>j<k. month_len (leap y) j)) mod 7"
  proof (rule mod_add_cong[OF refl])
    show "(31 * (k + 11) div 12) mod 7 = (\<Sum>j<k. month_len (leap y) j) mod 7"
      using k by (auto simp: month_len_def month_days_def)
  qed
  finally show ?thesis using True by (simp add: add_ac)
next
  case False
  have "weekday_sum (d + 1) y (k - 1) mod 7 = (d + 1 + days_before_year (Suc y) + 31 * (k - 1) div 12) mod 7"
    using weekday_sum_days[of "d + 1" y "k - 1"] by (metis mod_mult_self2)
  also have "\<dots> = (d + 1 + days_before_year y + ((if leap y then 366 else 365) + 31 * (k - 1) div 12)) mod 7"
    using days_before_year_Suc[OF assms(1)] by (simp add: add_ac)
  also have "\<dots> = (d + 1 + days_before_year y + (\<Sum>j<k. month_len (leap y) j)) mod 7"
  proof (rule mod_add_cong[OF refl])
    show "((if leap y then 366 else 365) + 31 * (k - 1) div 12) mod 7 = (\<Sum>j<k. month_len (leap y) j) mod 7"
      using month_offset[OF assms(2) _ monthssum_before[OF assms(2)]] False by simp
  qed
  finally show ?thesis using False by (simp add: add_ac)
qed

lemma word_of_nat_sub: "b \<le> a \<Longrightarrow> (of_nat a :: 'a::len word) - of_nat b = of_nat (a - b)"
  by (simp add: of_nat_diff)

lemma weekday_words:
  assumes "day < 256" "y < 65536" "m < 24"
  shows "((of_nat day + of_nat y + of_nat y div 4 - of_nat y div 100 + of_nat y div 400 + 31 * of_nat m div 12) mod 7 :: u32)
    = of_nat (weekday_sum day y m mod 7)"
proof -
  have b: "y < 2 ^ 32" "31 * m < 2 ^ 32" "weekday_sum day y m < 2 ^ 32"
    using assms div_le_dividend[of y 4] div_le_dividend[of y 400] div_le_dividend[of "31 * m" 12]
    by (simp_all add: weekday_sum_def)
  have "y div 100 \<le> day + y + y div 4" using div_le_dividend[of y 100] by linarith
  then have "(of_nat day + of_nat y + of_nat y div 4 - of_nat y div 100 + of_nat y div 400 + 31 * of_nat m div 12 :: u32)
      = of_nat (weekday_sum day y m)"
    using b(1,2) word_of_nat_div32[of "31 * m" "num.Bit0 (num.Bit0 (num.Bit1 num.One))"]
    by (simp add: weekday_sum_def of_nat_diff)
  then show ?thesis using b(3) by simp
qed

lemma weekday_fields:
  assumes "1 \<le> y" "y < 65536" "k < 12" "d < month_len (leap y) k"
  shows "unat (grub_get_weekday (date_fields y k d s)) =
    (if k < 2 then weekday_sum (d + 1) (y - 1) (k + 11) else weekday_sum (d + 1) y (k - 1)) mod 7"
proof -
  define a :: nat where "a = (if k < 2 then 1 else 0)"
  have up: "ucast (of_nat n :: u8) = (of_nat n :: u32)" if "n < 256" for n
    by (metis of_nat_unat small8 that)
  have y16: "unat (of_nat y :: u16) = y" using assms(2) by (intro unat_of_nat_id) simp
  have y: "ucast (of_nat y :: u16) = (of_nat y :: u32)"
by (metis of_nat_unat y16)
  have "month_len (leap y) k \<le> 31" using month_len_bounds[OF assms(3)] by simp
  then have d: "d + 1 < 256" using assms(4) by simp
  have m: "(of_nat (k + 1) :: u8) \<le> 2 \<longleftrightarrow> k < 2"
    using small8[of "k + 1"] assms(3) by (simp add: word_le_nat_alt) linarith
  have "grub_get_weekday (date_fields y k d s) = of_nat (weekday_sum (d + 1) (y - a) (k + 1 + 12 * a - 2) mod 7)"
  proof -
    have "1 \<le> k + 12 * a" "a \<le> y" using assms(1) by (auto simp: a_def)
    then have sub: "(of_nat y - of_nat a :: u32) = of_nat (y - a)"
      "(of_nat (k + 1) + 12 * of_nat a - 2 :: u32) = of_nat (k + 1 + 12 * a - 2)"
      by (simp_all add: of_nat_diff)
    have a: "(if (of_nat (k + 1) :: u8) \<le> 2 then 1 else 0) = (of_nat a :: u32)" using m by (simp add: a_def)
    have k: "k + 1 < 256" using assms(3) by simp
    have "grub_get_weekday (date_fields y k d s) = (of_nat (d + 1) + of_nat (y - a) + of_nat (y - a) div 4
        - of_nat (y - a) div 100 + of_nat (y - a) div 400 + 31 * of_nat (k + 1 + 12 * a - 2) div 12) mod 7"
      unfolding grub_get_weekday_def date_fields_def grub_datetime.select_convs Let_def
        up[OF d] up[OF k] y a sub ..
    also have "\<dots> = of_nat (weekday_sum (d + 1) (y - a) (k + 1 + 12 * a - 2) mod 7)"
      using assms(2,3) by (intro weekday_words[OF d]) (auto simp: a_def)
    finally show ?thesis .
  qed
  then have "unat (grub_get_weekday (date_fields y k d s)) = weekday_sum (d + 1) (y - a) (k + 1 + 12 * a - 2) mod 7"
    by (simp add: less_trans[of _ 7])
  then show ?thesis by (simp add: a_def add.commute)
qed

text \<open>C18. Converting a Unix time to a date and back gives the time again, for every time from the first
  second of year 1 to the last of year 65535, before and after 2038 alike; and the weekday of the date
  is the one that follows from counting days from Thursday, the first of January 1970.\<close>

theorem unixtime_roundtrip:
  assumes "in_calendar nix"
  shows "\<exists>dt. grub_unixtime2datetime nix = Some dt \<and> grub_datetime2unixtime dt = Some (sint nix)
    \<and> int (unat (grub_get_weekday dt)) = (sint nix div 86400 + 4) mod 7"
proof -
  obtain y k d where f: "grub_unixtime2datetime nix = Some (date_fields y k d (nat (sint nix mod 86400)))"
    "1 \<le> y" "y < 65536" "k < 12" "d < month_len (leap y) k"
    "epoch_day + sint nix div 86400 = int (days_before_year y + (\<Sum>j<k. month_len (leap y) j) + d)"
    using unixtime_fields[OF assms] .
  define s where "s = nat (sint nix mod 86400)"
  define D where "D = days_before_year y + (\<Sum>j<k. month_len (leap y) j) + d"
  have s: "s < 86400" "int s = sint nix mod 86400" by (simp_all add: s_def nat_less_iff)
  have D: "int D = epoch_day + sint nix div 86400" using f(6) by (simp add: D_def)
  have "grub_datetime2unixtime (date_fields y k d s) = Some ((int D - epoch_day) * 86400 + int s)"
    using unixtime_of_fields[OF f(2-5) s(1) D_def] days_in_year[OF f(2,4,5)] by (simp add: D_def)
  moreover have "(int D - epoch_day) * 86400 + int s = sint nix" using D s(2) by simp
  moreover have "int (unat (grub_get_weekday (date_fields y k d s))) = int ((D + 1) mod 7)"
    using weekday_fields[OF f(2-5), of s] weekday_days[OF f(2,4), of d] by (simp add: D_def)
  moreover have "int ((D + 1) mod 7) = (sint nix div 86400 + 4) mod 7"
  proof -
    have "int D + 1 = sint nix div 86400 + 4 + 7 * 102737" using D by (simp add: epoch_day_def)
    then show ?thesis by (metis mod_mult_self2 of_nat_1 of_nat_add of_nat_numeral zmod_int)
  qed
  ultimately show ?thesis using f(1) by (simp add: s_def)
qed


lemma sums_unique:
  fixes f :: "nat \<Rightarrow> nat"
  assumes "(\<Sum>j<k. f j) + d = (\<Sum>j<k'. f j) + d'" "d < f k" "d' < f k'"
  shows "k = k' \<and> d = d'"
proof -
  have le: "k' \<le> k" if "(\<Sum>j<k. f j) + d = (\<Sum>j<k'. f j) + d'" "d < f k" for k d k' d'
  proof (rule ccontr)
    assume "\<not> k' \<le> k"
    then have "(\<Sum>j<Suc k. f j) \<le> (\<Sum>j<k'. f j)" by (intro sum_mono2) auto
    then show False using that by simp
  qed
  have "k = k'" using le[OF assms(1,2)] le[OF assms(1)[symmetric] assms(3)] by simp
  then show ?thesis using assms(1) by simp
qed

lemma years_unique:
  assumes "1 \<le> y" "1 \<le> y'" "days_before_year y \<le> D" "D < days_before_year (Suc y)"
    "days_before_year y' \<le> D" "D < days_before_year (Suc y')"
  shows "y = y'"
proof (rule ccontr)
  assume "y \<noteq> y'"
  then have "Suc y \<le> y' \<or> Suc y' \<le> y" by auto
  then show False
    using assms days_before_year_mono[of "Suc y" y'] days_before_year_mono[of "Suc y'" y] by auto
qed

lemma date_fields_unique:
  assumes "1 \<le> y" "k < 12" "d < month_len (leap y) k" "1 \<le> y'" "k' < 12" "d' < month_len (leap y') k'"
    "days_before_year y + (\<Sum>j<k. month_len (leap y) j) + d = days_before_year y' + (\<Sum>j<k'. month_len (leap y') j) + d'"
  shows "y = y' \<and> k = k' \<and> d = d'"
proof -
  have y: "y = y'"
    using days_in_year[OF assms(1-3)] days_in_year[OF assms(4-6)] assms(7)
    by (intro years_unique[OF assms(1,4), of "days_before_year y + (\<Sum>j<k. month_len (leap y) j) + d"]) simp_all
  then show ?thesis using sums_unique[where k = k and k' = k' and f = "month_len (leap y)" and d = d and d' = d'] assms by simp
qed

lemma seconds_join:
  assumes "h \<le> 23" "m \<le> 59" "sec \<le> 59"
  shows "(h * 3600 + m * 60 + sec) div 3600 = (h :: nat)" "(h * 3600 + m * 60 + sec) mod 3600 div 60 = m"
    "(h * 3600 + m * 60 + sec) mod 60 = sec" "h * 3600 + m * 60 + sec < 86400"
proof -
  have r: "m * 60 + sec < 3600" using assms by simp
  show "(h * 3600 + m * 60 + sec) div 3600 = h"
    using nat_div_unique[of "h * 3600 + m * 60 + sec" 3600 h "m * 60 + sec"] r by simp
  have "(h * 3600 + m * 60 + sec) mod 3600 = m * 60 + sec"
    using nat_div_unique[of "h * 3600 + m * 60 + sec" 3600 h "m * 60 + sec"] r by simp
  then show "(h * 3600 + m * 60 + sec) mod 3600 div 60 = m"
    using nat_div_unique[of "m * 60 + sec" 60 m sec] assms by simp
  show "(h * 3600 + m * 60 + sec) mod 60 = sec"
    using nat_div_unique[of "h * 3600 + m * 60 + sec" 60 "h * 60 + m" sec] assms by simp
  show "h * 3600 + m * 60 + sec < 86400" using assms by simp
qed

text \<open>What the conversion accepts, as fields.\<close>

lemma accepted_fields:
  assumes "grub_datetime2unixtime dt = Some n" "1 \<le> dt_year dt" "dt_second dt \<le> 59"
  obtains y k d s where "dt = date_fields y k d s" "1 \<le> y" "y < 65536" "k < 12" "d < month_len (leap y) k" "s < 86400"
proof -
  define y k d where "y = unat (dt_year dt)" and "k = unat (dt_month dt) - 1" and "d = unat (dt_day dt) - 1"
  define h m sec where "h = unat (dt_hour dt)" and "m = unat (dt_minute dt)" and "sec = unat (dt_second dt)"
  define s where "s = h * 3600 + m * 60 + sec"
  have y: "uint (dt_year dt) = int y" by (simp add: y_def)
  have yb: "1 \<le> y" "y < 65536" using assms(2) unat_less[of "dt_year dt"] by (simp_all add: y_def word_le_nat_alt)
  have month: "1 \<le> unat (dt_month dt)" "unat (dt_month dt) \<le> 12"
    using assms(1) by (auto simp: grub_datetime2unixtime_def Let_def split: if_splits)
  have tm: "h \<le> 23" "m \<le> 59" "sec \<le> 59"
    using assms by (auto simp: grub_datetime2unixtime_def Let_def h_def m_def sec_def word_le_nat_alt
        word_less_nat_alt not_less split: if_splits)
  have day: "1 \<le> unat (dt_day dt)" "d < month_len (leap y) k"
  proof -
    have "(uint (dt_day dt) \<le> int (month_days ! k) \<or> leap y \<and> unat (dt_month dt) = 2 \<and> uint (dt_day dt) = 29)
        \<and> 1 \<le> uint (dt_day dt)"
      using assms(1) unfolding grub_datetime2unixtime_def Let_def y year_in_four
      unfolding leap_int k_def by (auto split: if_splits)
    moreover obtain N where N: "unat (dt_day dt) = N" "uint (dt_day dt) = int N" by simp
    ultimately have "(N \<le> month_days ! k \<or> leap y \<and> unat (dt_month dt) = 2 \<and> N = 29) \<and> 1 \<le> N"
      by simp
    then show "1 \<le> unat (dt_day dt)" "d < month_len (leap y) k"
      using month unfolding d_def N(1) by (auto simp: k_def month_len_def month_days_def)
  qed
  have "dt = date_fields y k d s"
    using month day seconds_join[OF tm]
    by (cases dt) (simp add: date_fields_def y_def k_def d_def s_def h_def m_def sec_def)
  then show thesis using that yb month day seconds_join(4)[OF tm] by (simp add: k_def s_def)
qed

lemma sint_of_int64: "- (2 ^ 63) \<le> z \<Longrightarrow> z < 2 ^ 63 \<Longrightarrow> sint (of_int z :: u64) = z"
  by (simp add: signed_of_int signed_take_bit_int_eq_self)

text \<open>C28. Every date the conversion to Unix time accepts, from year 1 on and apart from a leap second,
  comes back unchanged from the conversion to a date.\<close>

theorem datetime_roundtrip:
  assumes "grub_datetime2unixtime dt = Some n" "1 \<le> dt_year dt" "dt_second dt \<le> 59"
  shows "grub_unixtime2datetime (of_int n) = Some dt"
proof -
  obtain y k d s where f: "dt = date_fields y k d s" "1 \<le> y" "y < 65536" "k < 12" "d < month_len (leap y) k" "s < 86400"
    using accepted_fields[OF assms] .
  define D where "D = days_before_year y + (\<Sum>j<k. month_len (leap y) j) + d"
  have Dy: "D < days_before_year (Suc y)" using days_in_year[OF f(2,4,5)] by (simp add: D_def)
  then have n: "n = (int D - epoch_day) * 86400 + int s"
    using unixtime_of_fields[OF f(2-6) D_def] assms(1) f(1) by simp
  have D: "D < last_day"
    using Dy days_before_year_mono[of "Suc y" 65536] f(3) by (simp add: last_day_def days_before_year_def)
  have sn: "sint (of_int n :: u64) = n"
    using D f(6) unfolding n last_day_def epoch_day_def by (intro sint_of_int64) simp_all
  have "n = int s + 86400 * (int D - epoch_day)" using n by simp
  then have parts: "n div 86400 = int D - epoch_day" "n mod 86400 = int s"
    using f(6) div_mult_self2[of 86400 "int s" "int D - epoch_day"] mod_mult_self2[of "int s" 86400 "int D - epoch_day"]
    by simp_all
  then have cal: "in_calendar (of_int n)" using D sn by (simp add: in_calendar_def)
  obtain y' k' d' where g: "grub_unixtime2datetime (of_int n) = Some (date_fields y' k' d' s)"
    "1 \<le> y'" "y' < 65536" "k' < 12" "d' < month_len (leap y') k'"
    "int D = int (days_before_year y' + (\<Sum>j<k'. month_len (leap y') j) + d')"
    using unixtime_fields[OF cal] parts sn by auto
  have "y = y' \<and> k = k' \<and> d = d'"
    using date_fields_unique[OF f(2,4,5) g(2,4,5)] g(6) unfolding D_def of_nat_eq_iff .
  then show ?thesis using g(1) f(1) by simp
qed

text \<open>The first second that a signed 32-bit counter cannot hold.\<close>

theorem unixtime_roundtrip_witness:
  "\<exists>dt. grub_unixtime2datetime 0x80000000 = Some dt \<and> grub_datetime2unixtime dt = Some 0x80000000
    \<and> int (unat (grub_get_weekday dt)) = 2"
proof -
  have "sint (0x80000000 :: u64) = 0x80000000" using sint_of_int64[of "0x80000000"] by simp
  moreover have "in_calendar 0x80000000"
    unfolding in_calendar_def calculation by (simp add: epoch_day_def last_day_def)
  ultimately show ?thesis using unixtime_roundtrip[of "0x80000000"] by simp
qed

theorem datetime_roundtrip_witness:
  "grub_datetime2unixtime \<lparr>dt_year = 2024, dt_month = 2, dt_day = 29, dt_hour = 23, dt_minute = 59, dt_second = 59\<rparr>
     = Some 1709251199
   \<and> grub_unixtime2datetime (of_int 1709251199)
     = Some \<lparr>dt_year = 2024, dt_month = 2, dt_day = 29, dt_hour = 23, dt_minute = 59, dt_second = 59\<rparr>"
proof -
  have "grub_datetime2unixtime \<lparr>dt_year = 2024, dt_month = 2, dt_day = 29, dt_hour = 23, dt_minute = 59, dt_second = 59\<rparr>
     = Some 1709251199"
    by (simp add: grub_datetime2unixtime_def monthssum_def month_days_def signed_divide_int_def drop_bit_eq_div)
  then show ?thesis using datetime_roundtrip[of "\<lparr>dt_year = 2024, dt_month = 2, dt_day = 29, dt_hour = 23,
      dt_minute = 59, dt_second = 59\<rparr>" 1709251199] by simp
qed

end
