(* ===== verification/GrubPQueue.thy ===== *)
theory GrubPQueue
  imports GrubErr "HOL-Library.Multiset"
begin

text \<open>
  The priority queue of \<open>lib/priority_queue.c\<close>: a binary heap in a growing array, with the greatest
  element of the caller's comparison on top.  An element is a block of \<open>elsize\<close> bytes that is only
  copied and compared, so blocks are values of a type variable.  Indices are natural numbers; the size
  of a reallocation is written modulo \<open>2 ^ 32\<close>.  Access outside the array is the result \<open>None\<close>.
\<close>

record 'a grub_priority_queue =
  pq_elsize :: nat
  pq_allocated :: nat
  pq_used :: nat
  pq_cmp :: "'a \<Rightarrow> 'a \<Rightarrow> int"
  pq_els :: "'a list"

definition swap_els :: "'a list \<Rightarrow> nat \<Rightarrow> nat \<Rightarrow> 'a list" where
  "swap_els els m n = els[m := els ! n, n := els ! m]"

definition parent :: "nat \<Rightarrow> nat" where "parent v = (v - 1) div 2"

definition left_child :: "nat \<Rightarrow> nat" where "left_child v = 2 * v + 1"

definition right_child :: "nat \<Rightarrow> nat" where "right_child v = 2 * v + 2"

definition grub_priority_queue_top :: "'a grub_priority_queue \<Rightarrow> 'a option" where
  "grub_priority_queue_top pq = (if pq_used pq = 0 then None else Some (pq_els pq ! 0))"

text \<open>\<open>ok\<close> tells which sizes can be allocated, \<open>zero\<close> is an element of zero bytes.\<close>

definition grub_priority_queue_new ::
    "(nat \<Rightarrow> bool) \<Rightarrow> 'a \<Rightarrow> nat \<Rightarrow> ('a \<Rightarrow> 'a \<Rightarrow> int) \<Rightarrow> 'a grub_priority_queue option" where
  "grub_priority_queue_new ok zero elsize cmp =
    (if 2 ^ 32 \<le> 8 * elsize \<or> \<not> ok (8 * elsize) \<or> \<not> ok 20 then None
     else Some \<lparr>pq_elsize = elsize, pq_allocated = 8, pq_used = 0, pq_cmp = cmp, pq_els = replicate 8 zero\<rparr>)"

text \<open>The loop that moves a new element up.\<close>

function sift_up :: "('a \<Rightarrow> 'a \<Rightarrow> int) \<Rightarrow> 'a list \<Rightarrow> nat \<Rightarrow> 'a list" where
  "sift_up cmp els p =
    (if p = 0 then els
     else if cmp (els ! p) (els ! parent p) \<le> 0 then els
     else sift_up cmp (swap_els els p (parent p)) (parent p))"
  by pat_completeness auto

termination sift_up
  by (relation "measure (\<lambda>(cmp, els, p). p)") (auto simp: parent_def)

declare sift_up.simps [simp del]

definition resize_els :: "nat \<Rightarrow> 'a \<Rightarrow> 'a list \<Rightarrow> 'a list" where
  "resize_els n junk els = take n els @ replicate (n - length els) junk"

definition grow_queue ::
    "(nat \<Rightarrow> bool) \<Rightarrow> 'a \<Rightarrow> 'a grub_priority_queue \<Rightarrow> 'a grub_priority_queue option" where
  "grow_queue ok junk pq =
    (if pq_used pq = pq_allocated pq
     then (let sz = (pq_elsize pq * 2 * pq_allocated pq) mod 2 ^ 32
           in if \<not> ok sz then None
              else Some (pq\<lparr>pq_allocated := (pq_allocated pq * 2) mod 2 ^ 32,
                            pq_els := resize_els (sz div pq_elsize pq) junk (pq_els pq)\<rparr>))
     else Some pq)"

definition grub_priority_queue_push ::
    "(nat \<Rightarrow> bool) \<Rightarrow> 'a \<Rightarrow> 'a grub_priority_queue \<Rightarrow> 'a \<Rightarrow> (grub_err_t \<times> 'a grub_priority_queue) option" where
  "grub_priority_queue_push ok junk pq el =
    (case grow_queue ok junk pq of
       None \<Rightarrow> Some (GRUB_ERR_OUT_OF_MEMORY, pq)
     | Some pq \<Rightarrow>
         if pq_used pq < length (pq_els pq)
         then Some (GRUB_ERR_NONE, pq\<lparr>pq_used := pq_used pq + 1,
                pq_els := sift_up (pq_cmp pq) ((pq_els pq)[pq_used pq := el]) (pq_used pq)\<rparr>)
         else None)"

text \<open>The loop that moves the last element down from the top.\<close>

function sift_down :: "('a \<Rightarrow> 'a \<Rightarrow> int) \<Rightarrow> 'a list \<Rightarrow> nat \<Rightarrow> nat \<Rightarrow> 'a list" where
  "sift_down cmp els used p =
    (if left_child p < used
     then (if cmp (els ! left_child p) (els ! p) \<le> 0
              \<and> (right_child p \<ge> used \<or> cmp (els ! right_child p) (els ! p) \<le> 0)
           then els
           else (let c = (if right_child p \<ge> used \<or> cmp (els ! left_child p) (els ! right_child p) > 0
                          then left_child p else right_child p)
                 in sift_down cmp (swap_els els p c) used c))
     else els)"
  by pat_completeness auto

termination sift_down
  by (relation "measure (\<lambda>(cmp, els, used, p). used - p)") (auto simp: left_child_def right_child_def)

declare sift_down.simps [simp del]

definition grub_priority_queue_pop :: "'a grub_priority_queue \<Rightarrow> 'a grub_priority_queue option" where
  "grub_priority_queue_pop pq =
    (if pq_used pq = 0 \<or> length (pq_els pq) < pq_used pq then None
     else (let used = pq_used pq - 1
           in Some (pq\<lparr>pq_used := used,
                pq_els := sift_down (pq_cmp pq) (swap_els (pq_els pq) 0 used) used 0\<rparr>)))"

text \<open>The comparison of \<open>net/tcp.c\<close>: segments with smaller sequence numbers first.  \<open>seqnr\<close> reads the
  number from the header of a packet.\<close>

definition tcp_cmp :: "('nb \<Rightarrow> u32) \<Rightarrow> 'nb \<Rightarrow> 'nb \<Rightarrow> int" where
  "tcp_cmp seqnr a b = (if seqnr a < seqnr b then 1 else if seqnr a > seqnr b then -1 else 0)"

text \<open>\<open>destroy_pq\<close> of \<open>net/tcp.c\<close>: the packets in the order in which they are freed.\<close>

function destroy_pq :: "'nb grub_priority_queue \<Rightarrow> 'nb list option" where
  "destroy_pq pq =
    (case grub_priority_queue_top pq of
       None \<Rightarrow> Some []
     | Some nb \<Rightarrow>
         (case grub_priority_queue_pop pq of
            None \<Rightarrow> None
          | Some pq \<Rightarrow> map_option ((#) nb) (destroy_pq pq)))"
  by pat_completeness auto

termination destroy_pq
  by (relation "measure pq_used")
     (auto simp: grub_priority_queue_top_def grub_priority_queue_pop_def Let_def split: if_splits)

declare destroy_pq.simps [simp del]


section \<open>The heap\<close>

lemma length_swap_els [simp]: "length (swap_els els m n) = length els"
  by (simp add: swap_els_def)

lemma nth_swap_els:
  "m < length els \<Longrightarrow> n < length els \<Longrightarrow> i < length els \<Longrightarrow>
    swap_els els m n ! i = (if i = m then els ! n else if i = n then els ! m else els ! i)"
  by (auto simp: swap_els_def nth_list_update)

lemma mset_swap_els:
  assumes "m < k" "n < k" "k \<le> length els"
  shows "mset (take k (swap_els els m n)) = mset (take k els)"
proof -
  have "take k (swap_els els m n) = (take k els)[m := take k els ! n, n := take k els ! m]"
    using assms by (simp add: swap_els_def take_update_swap)
  then show ?thesis using assms mset_swap[of n "take k els" m] by simp
qed

lemma parent_less: "0 < i \<Longrightarrow> parent i < i"
  by (simp add: parent_def)

lemma parent_child: "0 < i \<Longrightarrow> parent i = p \<longleftrightarrow> i = left_child p \<or> i = right_child p"
  by (auto simp: parent_def left_child_def right_child_def)

text \<open>The caller's comparison is a total preorder.\<close>

locale preference =
  fixes cmp :: "'a \<Rightarrow> 'a \<Rightarrow> int"
  assumes total: "cmp a b \<le> 0 \<or> cmp b a \<le> 0"
    and trans: "cmp a b \<le> 0 \<Longrightarrow> cmp b c \<le> 0 \<Longrightarrow> cmp a c \<le> 0"
begin

definition heap :: "'a list \<Rightarrow> nat \<Rightarrow> bool" where
  "heap els n \<longleftrightarrow> (\<forall>i. 0 < i \<longrightarrow> i < n \<longrightarrow> cmp (els ! i) (els ! parent i) \<le> 0)"

text \<open>A heap but for the place \<open>p\<close>, whose children are below its parent: the element there may be too
  great, respectively too small.\<close>

definition heap_up :: "'a list \<Rightarrow> nat \<Rightarrow> nat \<Rightarrow> bool" where
  "heap_up els n p \<longleftrightarrow>
    (\<forall>i. 0 < i \<longrightarrow> i < n \<longrightarrow> i \<noteq> p \<longrightarrow> cmp (els ! i) (els ! parent i) \<le> 0)
    \<and> (\<forall>i. 0 < i \<longrightarrow> i < n \<longrightarrow> parent i = p \<longrightarrow> 0 < p \<longrightarrow> cmp (els ! i) (els ! parent p) \<le> 0)"

definition heap_down :: "'a list \<Rightarrow> nat \<Rightarrow> nat \<Rightarrow> bool" where
  "heap_down els n p \<longleftrightarrow>
    (\<forall>i. 0 < i \<longrightarrow> i < n \<longrightarrow> parent i \<noteq> p \<longrightarrow> cmp (els ! i) (els ! parent i) \<le> 0)
    \<and> (\<forall>i. 0 < i \<longrightarrow> i < n \<longrightarrow> parent i = p \<longrightarrow> 0 < p \<longrightarrow> cmp (els ! i) (els ! parent p) \<le> 0)"

lemma above: "\<not> cmp a b \<le> 0 \<Longrightarrow> cmp b a \<le> 0"
  using total by blast

lemma heap_top:
  assumes "heap els n" "i < n"
  shows "cmp (els ! i) (els ! 0) \<le> 0"
  using assms(2)
proof (induction i rule: less_induct)
  case (less i)
  show ?case
  proof (cases "i = 0")
    case True
    then show ?thesis using total by auto
  next
    case False
    then have "cmp (els ! i) (els ! parent i) \<le> 0" "parent i < i"
      using assms(1) less.prems parent_less by (auto simp: heap_def)
    then show ?thesis using less.IH[of "parent i"] less.prems trans by (meson less_trans)
  qed
qed

lemma heap_up_step:
  assumes h: "heap_up els n p" and p: "0 < p" "p < n" "n \<le> length els"
    and gt: "\<not> cmp (els ! p) (els ! parent p) \<le> 0"
  shows "heap_up (swap_els els p (parent p)) n (parent p)"
proof -
  define q where "q = parent p"
  have q: "q < p" "q < n" using p parent_less[of p] by (auto simp: q_def)
  have nth: "swap_els els p q ! i = (if i = p then els ! q else if i = q then els ! p else els ! i)" if "i < n" for i
    using that p q by (simp add: nth_swap_els)
  have le: "cmp (els ! q) (els ! p) \<le> 0" using gt above by (simp add: q_def)
  have h1: "cmp (els ! i) (els ! parent i) \<le> 0" if "0 < i" "i < n" "i \<noteq> p" for i
    using h that by (simp add: heap_up_def)
  have h2: "cmp (els ! i) (els ! q) \<le> 0" if "0 < i" "i < n" "parent i = p" for i
    using h that p by (simp add: heap_up_def q_def)
  have pa: "parent i < n" "parent i < i" if "0 < i" "i < n" for i using that parent_less[of i] by auto
  have "cmp (swap_els els p q ! i) (swap_els els p q ! parent i) \<le> 0" if i: "0 < i" "i < n" "i \<noteq> q" for i
  proof -
    consider "i = p" | "i \<noteq> p" "parent i = p" | "i \<noteq> p" "parent i = q" | "i \<noteq> p" "parent i \<noteq> p" "parent i \<noteq> q"
      by blast
    then show ?thesis
    proof cases
      case 1
      then show ?thesis using nth[OF i(2)] nth[OF pa(1)[OF i(1,2)]] le q by (simp add: q_def)
    next
      case 2
      then show ?thesis using nth[OF i(2)] nth[OF pa(1)[OF i(1,2)]] h2[OF i(1,2)] i(3) by simp
    next
      case 3
      then have "cmp (els ! i) (els ! q) \<le> 0" using h1[OF i(1,2)] by simp
      then show ?thesis using 3 nth[OF i(2)] nth[OF pa(1)[OF i(1,2)]] i(3) q le trans[of "els ! i" "els ! q" "els ! p"]
        by auto
    next
      case 4
      then show ?thesis using nth[OF i(2)] nth[OF pa(1)[OF i(1,2)]] h1[OF i(1,2)] i(3) by simp
    qed
  qed
  moreover have "cmp (swap_els els p q ! i) (swap_els els p q ! parent q) \<le> 0"
    if i: "0 < i" "i < n" "parent i = q" "0 < q" for i
  proof -
    have pq: "parent q < q" "parent q < n" using parent_less[OF i(4)] q by auto
    have qq: "cmp (els ! q) (els ! parent q) \<le> 0" using h1[of q] i(4) q by simp
    have "i \<noteq> q" using pa(2)[OF i(1,2)] i(3) by auto
    show ?thesis
    proof (cases "i = p")
      case True
      then show ?thesis using nth[OF i(2)] nth[OF pq(2)] pq q qq by simp
    next
      case False
      then have "cmp (els ! i) (els ! q) \<le> 0" using h1[OF i(1,2)] i(3) by simp
      then show ?thesis using False nth[OF i(2)] nth[OF pq(2)] pq q qq \<open>i \<noteq> q\<close> trans[of "els ! i" "els ! q"] by auto
    qed
  qed
  ultimately show ?thesis unfolding heap_up_def q_def[symmetric] by blast
qed

lemma sift_up_heap:
  assumes "heap_up els n p" "p < n" "n \<le> length els"
  shows "heap (sift_up cmp els p) n \<and> length (sift_up cmp els p) = length els
    \<and> mset (take n (sift_up cmp els p)) = mset (take n els)"
  using assms
proof (induction p arbitrary: els rule: less_induct)
  case (less p)
  show ?case
  proof (cases "p = 0 \<or> cmp (els ! p) (els ! parent p) \<le> 0")
    case True
    then have "sift_up cmp els p = els" by (auto simp: sift_up.simps[of cmp els p])
    moreover have "heap els n" using less.prems(1) True by (auto simp: heap_def heap_up_def)
    ultimately show ?thesis by simp
  next
    case False
    then have p: "0 < p" "\<not> cmp (els ! p) (els ! parent p) \<le> 0" by auto
    then have "sift_up cmp els p = sift_up cmp (swap_els els p (parent p)) (parent p)"
      by (simp add: sift_up.simps[of cmp els p])
    moreover have "parent p < p" "parent p < n" using parent_less[OF p(1)] less.prems(2) by auto
    ultimately show ?thesis
      using less.IH[OF _ heap_up_step[OF less.prems(1) p(1) less.prems(2,3) p(2)]] less.prems
        mset_swap_els[of p n "parent p" els] by simp
  qed
qed

end


context preference
begin

lemma heap_down_step:
  assumes h: "heap_down els n p" and c: "parent c = p" "0 < c" "c < n" "n \<le> length els"
    and top: "\<And>i. 0 < i \<Longrightarrow> i < n \<Longrightarrow> parent i = p \<Longrightarrow> cmp (els ! i) (els ! c) \<le> 0"
    and gt: "cmp (els ! p) (els ! c) \<le> 0"
  shows "heap_down (swap_els els p c) n c"
proof -
  have p: "p < c" "p < n" using c parent_less[of c] by auto
  have nth: "swap_els els p c ! i = (if i = p then els ! c else if i = c then els ! p else els ! i)" if "i < n" for i
    using that c p by (simp add: nth_swap_els)
  have h1: "cmp (els ! i) (els ! parent i) \<le> 0" if "0 < i" "i < n" "parent i \<noteq> p" for i
    using h that by (simp add: heap_down_def)
  have pa: "parent i < n" "parent i < i" if "0 < i" "i < n" for i using that parent_less[of i] by auto
  have "cmp (swap_els els p c ! i) (swap_els els p c ! parent i) \<le> 0" if i: "0 < i" "i < n" "parent i \<noteq> c" for i
  proof -
    consider "i = p" | "i = c" | "i \<noteq> p" "i \<noteq> c" "parent i = p" | "i \<noteq> p" "i \<noteq> c" "parent i \<noteq> p" by blast
    then show ?thesis
    proof cases
      case 1
      then have "cmp (els ! c) (els ! parent p) \<le> 0" using h c i(1) by (simp add: heap_down_def)
      then show ?thesis using 1 nth[OF i(2)] nth[OF pa(1)[OF i(1,2)]] pa(2)[OF i(1,2)] p by simp
    next
      case 2
      then show ?thesis using nth[OF i(2)] nth[OF pa(1)[OF i(1,2)]] c p gt by simp
    next
      case 3
      then show ?thesis using nth[OF i(2)] nth[OF p(2)] top[OF i(1,2)] by simp
    next
      case 4
      then show ?thesis using nth[OF i(2)] nth[OF pa(1)[OF i(1,2)]] h1[OF i(1,2)] i(3) by simp
    qed
  qed
  moreover have "cmp (swap_els els p c ! i) (swap_els els p c ! parent c) \<le> 0" if i: "0 < i" "i < n" "parent i = c" for i
    using nth[OF i(2)] nth[OF p(2)] h1[OF i(1,2)] i pa(2)[OF i(1,2)] p c(1) by simp
  ultimately show ?thesis unfolding heap_down_def by blast
qed

text \<open>The child that the loop exchanges with its parent is the greater one.\<close>

lemma chosen_child:
  assumes l: "left_child p < n"
    and go: "\<not> (cmp (els ! left_child p) (els ! p) \<le> 0
      \<and> (right_child p \<ge> n \<or> cmp (els ! right_child p) (els ! p) \<le> 0))"
    and c: "c = (if right_child p \<ge> n \<or> cmp (els ! left_child p) (els ! right_child p) > 0
      then left_child p else right_child p)"
  shows "parent c = p \<and> 0 < c \<and> c < n \<and> p < c \<and> cmp (els ! p) (els ! c) \<le> 0
    \<and> (\<forall>i. 0 < i \<longrightarrow> i < n \<longrightarrow> parent i = p \<longrightarrow> cmp (els ! i) (els ! c) \<le> 0)"
proof -
  have refl: "cmp a a \<le> 0" for a using total by auto
  have child: "parent c = p" "0 < c" "c < n" "p < c"
    using l c by (auto simp: parent_def left_child_def right_child_def)
  have kids: "cmp (els ! i) (els ! c) \<le> 0" if "0 < i" "i < n" "parent i = p" for i
    using that parent_child[of i p] refl above[of "els ! left_child p" "els ! right_child p"] c
    by (auto split: if_splits)
  have "cmp (els ! p) (els ! c) \<le> 0"
  proof (cases "cmp (els ! c) (els ! p) \<le> 0")
    case True
    then have "cmp (els ! i) (els ! p) \<le> 0" if "0 < i" "i < n" "parent i = p" for i
      using kids[OF that] trans by blast
    moreover have "parent (left_child p) = p" "parent (right_child p) = p" "0 < left_child p" "0 < right_child p"
      by (simp_all add: parent_def left_child_def right_child_def)
    ultimately have False using go l by (meson not_le_imp_less)
    then show ?thesis ..
  qed (use above in blast)
  then show ?thesis using child kids by blast
qed

lemma sift_down_heap:
  assumes "heap_down els n p" "n \<le> length els"
  shows "heap (sift_down cmp els n p) n \<and> length (sift_down cmp els n p) = length els
    \<and> mset (take n (sift_down cmp els n p)) = mset (take n els)"
  using assms
proof (induction "n - p" arbitrary: els p rule: less_induct)
  case less
  define stop where "stop \<longleftrightarrow> cmp (els ! left_child p) (els ! p) \<le> 0
      \<and> (right_child p \<ge> n \<or> cmp (els ! right_child p) (els ! p) \<le> 0)"
  define c where "c = (if right_child p \<ge> n \<or> cmp (els ! left_child p) (els ! right_child p) > 0
      then left_child p else right_child p)"
  have eq: "sift_down cmp els n p =
      (if left_child p < n then if stop then els else sift_down cmp (swap_els els p c) n c else els)"
    unfolding sift_down.simps[of cmp els n p] Let_def stop_def[symmetric] c_def[symmetric] ..
  show ?case
  proof (cases "left_child p < n \<and> \<not> stop")
    case False
    then have "cmp (els ! i) (els ! p) \<le> 0" if "0 < i" "i < n" "parent i = p" for i
      using that parent_child[of i p] by (auto simp: stop_def left_child_def right_child_def)
    then have "heap els n" using less.prems(1) by (auto simp: heap_def heap_down_def)
    then show ?thesis using False eq by auto
  next
    case True
    have c: "parent c = p" "0 < c" "c < n" "p < c" "cmp (els ! p) (els ! c) \<le> 0"
      "\<And>i. 0 < i \<Longrightarrow> i < n \<Longrightarrow> parent i = p \<Longrightarrow> cmp (els ! i) (els ! c) \<le> 0"
      using chosen_child[OF _ _ c_def] True unfolding stop_def by blast+
    have "heap_down (swap_els els p c) n c"
      using heap_down_step[OF less.prems(1) c(1-3) less.prems(2) c(6,5)] .
    then show ?thesis
      using less.hyps[of c "swap_els els p c"] less.prems(2) c eq True mset_swap_els[of p n c els] by simp
  qed
qed

end


section \<open>The queue is a multiset with a greatest element\<close>

definition queue_ok :: "'a grub_priority_queue \<Rightarrow> bool" where
  "queue_ok pq \<longleftrightarrow> 0 < pq_elsize pq \<and> pq_used pq \<le> pq_allocated pq \<and> length (pq_els pq) = pq_allocated pq
    \<and> (\<forall>i. 0 < i \<longrightarrow> i < pq_used pq \<longrightarrow> pq_cmp pq (pq_els pq ! i) (pq_els pq ! parent i) \<le> 0)"

definition queue_elems :: "'a grub_priority_queue \<Rightarrow> 'a multiset" where
  "queue_elems pq = mset (take (pq_used pq) (pq_els pq))"

text \<open>The size of a reallocation that the next push may need is a number of 32 bits.\<close>

definition queue_room :: "'a grub_priority_queue \<Rightarrow> bool" where
  "queue_room pq \<longleftrightarrow> (pq_used pq = pq_allocated pq \<longrightarrow> pq_elsize pq * 2 * pq_allocated pq < 2 ^ 32)"

lemma grow_queue_room:
  assumes "queue_ok pq" "queue_room pq" "grow_queue ok junk pq = Some pq'"
  shows "queue_ok pq' \<and> queue_elems pq' = queue_elems pq \<and> pq_used pq' = pq_used pq \<and> pq_cmp pq' = pq_cmp pq
    \<and> pq_elsize pq' = pq_elsize pq
    \<and> (0 < pq_allocated pq \<longrightarrow> pq_used pq' < pq_allocated pq')
    \<and> (pq_allocated pq' = pq_allocated pq \<or> pq_used pq = pq_allocated pq \<and> pq_allocated pq' = 2 * pq_allocated pq)"
proof (cases "pq_used pq = pq_allocated pq")
  case False
  then show ?thesis using assms by (auto simp: grow_queue_def queue_ok_def)
next
  case True
  define a where "a = pq_allocated pq"
  have ok: "0 < pq_elsize pq" "length (pq_els pq) = a" "pq_used pq = a" "pq_elsize pq * 2 * a < 2 ^ 32"
    using assms True by (auto simp: queue_ok_def queue_room_def a_def)
  have "2 * a \<le> pq_elsize pq * 2 * a" using ok(1) by simp
  then have "2 * a < 2 ^ 32" using ok(4) by linarith
  moreover have "pq_elsize pq * 2 * a div pq_elsize pq = 2 * a" using ok(1) by (simp add: mult.assoc)
  ultimately have pq': "pq' = pq\<lparr>pq_allocated := 2 * a, pq_els := pq_els pq @ replicate a junk\<rparr>"
    using assms(3) ok True
    by (auto simp: grow_queue_def Let_def resize_els_def a_def[symmetric] mult.commute split: if_splits)
  have nth: "(pq_els pq @ replicate a junk) ! i = pq_els pq ! i" if "i < a" for i
    using that ok(2) by (simp add: nth_append)
  show ?thesis
    using assms(1) ok parent_less unfolding pq'
    by (auto simp: queue_ok_def queue_elems_def nth a_def[symmetric]) (metis less_trans nth ok(3))
qed

context preference
begin

lemma queue_ok_heap: "pq_cmp pq = cmp \<Longrightarrow> queue_ok pq \<longleftrightarrow>
    0 < pq_elsize pq \<and> pq_used pq \<le> pq_allocated pq \<and> length (pq_els pq) = pq_allocated pq
    \<and> heap (pq_els pq) (pq_used pq)"
  by (auto simp: queue_ok_def heap_def)

lemma push_result:
  assumes "queue_ok pq" "pq_cmp pq = cmp" "queue_room pq" "0 < pq_allocated pq"
  shows "\<exists>e pq'. grub_priority_queue_push ok junk pq el = Some (e, pq') \<and>
    (if e = GRUB_ERR_NONE then queue_ok pq' \<and> queue_elems pq' = add_mset el (queue_elems pq) \<and> pq_cmp pq' = cmp
        \<and> pq_elsize pq' = pq_elsize pq \<and> pq_used pq' = pq_used pq + 1 \<and> pq_allocated pq \<le> pq_allocated pq'
        \<and> (pq_allocated pq' = pq_allocated pq \<or> pq_used pq = pq_allocated pq \<and> pq_allocated pq' = 2 * pq_allocated pq)
     else pq' = pq \<and> pq_used pq = pq_allocated pq \<and> \<not> ok (pq_elsize pq * 2 * pq_allocated pq))"
proof (cases "grow_queue ok junk pq")
  case None
  then show ?thesis using assms(3)
    by (auto simp: grub_priority_queue_push_def grow_queue_def queue_room_def Let_def split: if_splits)
next
  case (Some pq1)
  have g: "queue_ok pq1" "queue_elems pq1 = queue_elems pq" "pq_used pq1 = pq_used pq" "pq_cmp pq1 = cmp"
    "pq_elsize pq1 = pq_elsize pq" "pq_used pq1 < pq_allocated pq1"
    "pq_allocated pq1 = pq_allocated pq \<or> pq_used pq = pq_allocated pq \<and> pq_allocated pq1 = 2 * pq_allocated pq"
    using grow_queue_room[OF assms(1,3) Some] assms(2,4) by auto
  define n els where "n = pq_used pq1" and "els = (pq_els pq1)[n := el]"
  have len: "n < length els" "length els = pq_allocated pq1" using g by (auto simp: queue_ok_def n_def els_def)
  have "heap_up els (n + 1) n" unfolding heap_up_def
  proof (intro conjI allI impI)
    fix i assume i: "0 < i" "i < n + 1" "i \<noteq> n"
    then have "cmp (pq_els pq1 ! i) (pq_els pq1 ! parent i) \<le> 0" "parent i < n"
      using g(1,4) parent_less[of i] by (auto simp: queue_ok_def n_def)
    then show "cmp (els ! i) (els ! parent i) \<le> 0" using i by (simp add: els_def)
  next
    fix i assume "0 < i" "i < n + 1" "parent i = n"
    then show "cmp (els ! i) (els ! parent n) \<le> 0" using parent_less[of i] by simp
  qed
  then have s: "heap (sift_up cmp els n) (n + 1)" "length (sift_up cmp els n) = length els"
      "mset (take (n + 1) (sift_up cmp els n)) = mset (take (n + 1) els)"
    using sift_up_heap[of els "n + 1" n] len by auto
  have "mset (take (n + 1) els) = add_mset el (queue_elems pq)"
    using len g(2) by (simp add: take_Suc_conv_app_nth els_def queue_elems_def n_def)
  then show ?thesis
    using Some g s len assms(2)
    by (auto simp: grub_priority_queue_push_def queue_ok_heap n_def els_def queue_elems_def)
qed

lemma pop_result:
  assumes "queue_ok pq" "pq_cmp pq = cmp" "0 < pq_used pq"
  shows "\<exists>t pq'. grub_priority_queue_top pq = Some t \<and> t \<in># queue_elems pq \<and> (\<forall>x \<in># queue_elems pq. cmp x t \<le> 0)
    \<and> grub_priority_queue_pop pq = Some pq' \<and> queue_ok pq' \<and> queue_elems pq' = queue_elems pq - {#t#}
    \<and> pq_cmp pq' = cmp \<and> pq_used pq' = pq_used pq - 1 \<and> pq_elsize pq' = pq_elsize pq \<and> pq_allocated pq' = pq_allocated pq"
proof -
  define n t where "n = pq_used pq - 1" and "t = pq_els pq ! 0"
  define els where "els = swap_els (pq_els pq) 0 n"
  have len: "Suc n \<le> length (pq_els pq)" "pq_used pq = Suc n" "length els = length (pq_els pq)"
    using assms by (auto simp: queue_ok_def n_def els_def)
  have hp: "heap (pq_els pq) (Suc n)" using assms(1) queue_ok_heap[OF assms(2)] len by simp
  have nth: "els ! i = (if i = 0 then pq_els pq ! n else if i = n then t else pq_els pq ! i)" if "i < Suc n" for i
  proof -
    have "pq_els pq \<noteq> []" using len(1) by auto
    then show ?thesis using that len(1) nth_swap_els[of 0 "pq_els pq" n i] by (auto simp: els_def t_def)
  qed
  have "heap_down els n 0" unfolding heap_down_def
  proof (intro conjI allI impI)
    fix i assume i: "0 < i" "i < n" "parent i \<noteq> 0"
    then show "cmp (els ! i) (els ! parent i) \<le> 0"
      using hp parent_less[OF i(1)] nth[of i] nth[of "parent i"] by (simp add: heap_def)
  qed simp
  then have s: "heap (sift_down cmp els n 0) n" "length (sift_down cmp els n 0) = length els"
      "mset (take n (sift_down cmp els n 0)) = mset (take n els)"
    using sift_down_heap[of els n 0] len by auto
  have "mset (take (Suc n) els) = mset (take (Suc n) (pq_els pq))"
    using mset_swap_els[of 0 "Suc n" n "pq_els pq"] len by (simp add: els_def)
  moreover have "els ! n = t" using nth[of n] by (cases "n = 0") (auto simp: t_def)
  ultimately have m: "queue_elems pq = add_mset t (mset (take n els))"
    using len take_Suc_conv_app_nth[of n els] by (simp add: queue_elems_def)
  have top: "grub_priority_queue_top pq = Some t" using len by (simp add: grub_priority_queue_top_def t_def)
  have max: "\<forall>x \<in># queue_elems pq. cmp x t \<le> 0"
    using heap_top[OF hp] len by (auto simp: queue_elems_def in_set_conv_nth t_def)
  define pq' where "pq' = pq\<lparr>pq_used := n, pq_els := sift_down cmp els n 0\<rparr>"
  have "grub_priority_queue_pop pq = Some pq'"
    using len assms(2) by (simp add: grub_priority_queue_pop_def Let_def els_def pq'_def)
  moreover have "queue_ok pq'"
    using assms(1,2) s(1,2) len queue_ok_heap[of pq'] by (simp add: pq'_def queue_ok_def)
  moreover have "queue_elems pq' = mset (take n els)" using s(3) by (simp add: pq'_def queue_elems_def)
  moreover have "pq_cmp pq' = cmp" "pq_used pq' = pq_used pq - 1" "pq_elsize pq' = pq_elsize pq"
      "pq_allocated pq' = pq_allocated pq"
    using assms(2) by (simp_all add: pq'_def n_def)
  ultimately show ?thesis using top max m by auto
qed

lemma destroy_sorted:
  assumes "queue_ok pq" "pq_cmp pq = cmp"
  shows "\<exists>xs. destroy_pq pq = Some xs \<and> mset xs = queue_elems pq \<and> sorted_wrt (\<lambda>a b. cmp b a \<le> 0) xs"
  using assms
proof (induction "pq_used pq" arbitrary: pq)
  case 0
  then show ?case by (simp add: destroy_pq.simps[of pq] grub_priority_queue_top_def queue_elems_def)
next
  case (Suc n)
  obtain t pq' where t: "grub_priority_queue_top pq = Some t" "t \<in># queue_elems pq" "\<forall>x \<in># queue_elems pq. cmp x t \<le> 0"
      "grub_priority_queue_pop pq = Some pq'" "queue_ok pq'" "queue_elems pq' = queue_elems pq - {#t#}"
      "pq_cmp pq' = cmp" "pq_used pq' = pq_used pq - 1"
    using pop_result[OF Suc.prems] Suc.hyps(2) by auto
  obtain xs where xs: "destroy_pq pq' = Some xs" "mset xs = queue_elems pq'" "sorted_wrt (\<lambda>a b. cmp b a \<le> 0) xs"
    using Suc.hyps(1)[of pq'] t(5,7,8) Suc.hyps(2) by force
  have "set xs \<subseteq> set_mset (queue_elems pq)"
    using xs(2) t(6) by (metis in_diffD set_mset_mset subsetI)
  then show ?case using t xs by (auto simp: destroy_pq.simps[of pq])
qed

end


interpretation tcp: preference "tcp_cmp seqnr" for seqnr
  by unfold_locales (auto simp: tcp_cmp_def split: if_splits)

text \<open>Pushing packets one after the other; \<open>None\<close> is an access outside the array or no memory.\<close>

primrec push_all :: "(nat \<Rightarrow> bool) \<Rightarrow> 'a \<Rightarrow> 'a grub_priority_queue \<Rightarrow> 'a list \<Rightarrow> 'a grub_priority_queue option" where
  "push_all ok junk pq [] = Some pq"
| "push_all ok junk pq (x # xs) =
    (case grub_priority_queue_push ok junk pq x of
       Some (GRUB_ERR_NONE, pq') \<Rightarrow> push_all ok junk pq' xs
     | _ \<Rightarrow> None)"

lemma new_queue:
  assumes "grub_priority_queue_new ok zero elsize cmp = Some pq" "0 < elsize"
  shows "queue_ok pq" "queue_elems pq = {#}" "pq_cmp pq = cmp" "pq_elsize pq = elsize" "pq_used pq = 0" "pq_allocated pq = 8"
  using assms by (auto simp: grub_priority_queue_new_def queue_ok_def queue_elems_def split: if_splits)

context preference
begin

lemma push_all_result:
  assumes "queue_ok pq" "pq_cmp pq = cmp" "\<forall>n. ok n" "0 < pq_allocated pq"
    "pq_allocated pq \<le> N" "\<And>k. k < pq_used pq + length xs \<Longrightarrow> 2 * k \<le> N" "pq_elsize pq * N < 2 ^ 32"
  shows "\<exists>pq'. push_all ok junk pq xs = Some pq' \<and> queue_ok pq' \<and> pq_cmp pq' = cmp
    \<and> queue_elems pq' = queue_elems pq + mset xs"
  using assms
proof (induction xs arbitrary: pq)
  case (Cons x xs)
  have grow: "2 * pq_allocated pq \<le> N" if "pq_used pq = pq_allocated pq"
    using Cons.prems(6)[of "pq_used pq"] that by simp
  then have "queue_room pq" using Cons.prems(7) unfolding queue_room_def
    by (metis le_less_trans mult.assoc mult_le_mono2)
  then obtain e pq1 where p: "grub_priority_queue_push ok junk pq x = Some (e, pq1)"
      "if e = GRUB_ERR_NONE then queue_ok pq1 \<and> queue_elems pq1 = add_mset x (queue_elems pq) \<and> pq_cmp pq1 = cmp
        \<and> pq_elsize pq1 = pq_elsize pq \<and> pq_used pq1 = pq_used pq + 1 \<and> pq_allocated pq \<le> pq_allocated pq1
        \<and> (pq_allocated pq1 = pq_allocated pq \<or> pq_used pq = pq_allocated pq \<and> pq_allocated pq1 = 2 * pq_allocated pq)
     else pq1 = pq \<and> pq_used pq = pq_allocated pq \<and> \<not> ok (pq_elsize pq * 2 * pq_allocated pq)"
    using push_result[OF Cons.prems(1,2) _ Cons.prems(4), of ok junk x] by blast
  then have e: "e = GRUB_ERR_NONE" using Cons.prems(3) by (auto split: if_splits)
  then have q: "queue_ok pq1" "queue_elems pq1 = add_mset x (queue_elems pq)" "pq_cmp pq1 = cmp"
      "pq_elsize pq1 = pq_elsize pq" "pq_used pq1 = pq_used pq + 1" "0 < pq_allocated pq1" "pq_allocated pq1 \<le> N"
    using p(2) grow Cons.prems(4,5) by auto
  show ?case
    using Cons.IH[OF q(1,3) Cons.prems(3) q(6,7)] Cons.prems(6,7) q p(1) e by auto
qed simp

end

text \<open>C12. The heap implements a priority queue: pushing adds the element, growing the array when it is
  full and changing nothing when no memory is left; the top is an element that no other precedes;
  popping removes exactly it; and an empty queue has no top.\<close>

theorem priority_queue_refines:
  assumes "preference (pq_cmp pq)" and "queue_ok pq" and "queue_room pq" and "0 < pq_allocated pq"
  shows "(\<exists>e pq'. grub_priority_queue_push ok junk pq el = Some (e, pq') \<and>
      (if e = GRUB_ERR_NONE then queue_ok pq' \<and> queue_elems pq' = add_mset el (queue_elems pq)
       else pq' = pq \<and> pq_used pq = pq_allocated pq \<and> \<not> ok (pq_elsize pq * 2 * pq_allocated pq)))
    \<and> (if queue_elems pq = {#} then grub_priority_queue_top pq = None
       else \<exists>t pq'. grub_priority_queue_top pq = Some t \<and> t \<in># queue_elems pq
         \<and> (\<forall>x \<in># queue_elems pq. pq_cmp pq x t \<le> 0)
         \<and> grub_priority_queue_pop pq = Some pq' \<and> queue_ok pq' \<and> queue_elems pq' = queue_elems pq - {#t#})"
proof (intro conjI)
  show "\<exists>e pq'. grub_priority_queue_push ok junk pq el = Some (e, pq') \<and>
      (if e = GRUB_ERR_NONE then queue_ok pq' \<and> queue_elems pq' = add_mset el (queue_elems pq)
       else pq' = pq \<and> pq_used pq = pq_allocated pq \<and> \<not> ok (pq_elsize pq * 2 * pq_allocated pq))"
    using preference.push_result[OF assms(1,2) refl assms(3,4), of ok junk el] by meson
  have "queue_elems pq = {#} \<longleftrightarrow> pq_used pq = 0"
    using assms(2,4) by (auto simp: queue_elems_def queue_ok_def)
  then show "if queue_elems pq = {#} then grub_priority_queue_top pq = None
       else \<exists>t pq'. grub_priority_queue_top pq = Some t \<and> t \<in># queue_elems pq
         \<and> (\<forall>x \<in># queue_elems pq. pq_cmp pq x t \<le> 0)
         \<and> grub_priority_queue_pop pq = Some pq' \<and> queue_ok pq' \<and> queue_elems pq' = queue_elems pq - {#t#}"
    using preference.pop_result[OF assms(1,2) refl] by (auto simp: grub_priority_queue_top_def)
qed

definition sample_queue :: "u32 grub_priority_queue" where
  "sample_queue = \<lparr>pq_elsize = 4, pq_allocated = 2, pq_used = 2, pq_cmp = tcp_cmp id, pq_els = [3, 7]\<rparr>"

theorem priority_queue_refines_witness:
  "\<exists>t pq'. grub_priority_queue_top sample_queue = Some t \<and> grub_priority_queue_pop sample_queue = Some pq'
    \<and> queue_elems pq' = {#3, 7#} - {#t#}"
proof -
  have "queue_ok sample_queue"
  proof -
    have "i = 1" if "0 < i" "i < 2" for i :: nat using that by simp
    then show ?thesis by (auto simp: queue_ok_def sample_queue_def tcp_cmp_def parent_def)
  qed
  moreover have "queue_elems sample_queue = {#3, 7#}" by (simp add: queue_elems_def sample_queue_def)
  moreover have "preference (pq_cmp sample_queue)" using tcp.preference_axioms by (simp add: sample_queue_def)
  ultimately show ?thesis
    using priority_queue_refines[of sample_queue "\<lambda>_. True" 0 5]
    by (auto simp: queue_room_def sample_queue_def)
qed

text \<open>C24. Taking a TCP queue down ends, and gives back every packet that was queued exactly once, in the
  order of the sequence numbers, whatever the order of arrival.\<close>

theorem tcp_queue_in_order:
  assumes "\<forall>n. ok n" and "length nbs \<le> 2 ^ 20"
  shows "\<exists>pq pq' out. grub_priority_queue_new ok zero 4 (tcp_cmp seqnr) = Some pq
    \<and> push_all ok junk pq nbs = Some pq' \<and> destroy_pq pq' = Some out
    \<and> mset out = mset nbs \<and> sorted (map seqnr out)"
proof -
  obtain pq where new: "grub_priority_queue_new ok zero 4 (tcp_cmp seqnr) = Some pq"
    using assms(1) by (simp add: grub_priority_queue_new_def)
  note pq = new_queue[OF new, simplified]
  obtain pq' where pq': "push_all ok junk pq nbs = Some pq'" "queue_ok pq'" "pq_cmp pq' = tcp_cmp seqnr"
      "queue_elems pq' = mset nbs"
    using tcp.push_all_result[OF pq(1,3) assms(1), where N = "2 ^ 22" and xs = nbs and junk = junk] assms(2) pq by auto
  obtain out where out: "destroy_pq pq' = Some out" "mset out = mset nbs"
      "sorted_wrt (\<lambda>a b. tcp_cmp seqnr b a \<le> 0) out"
    using tcp.destroy_sorted[OF pq'(2,3)] pq'(4) by auto
  have "sorted_wrt (\<lambda>a b. seqnr a \<le> seqnr b) out"
    using out(3) by (rule sorted_wrt_mono_rel[rotated]) (auto simp: tcp_cmp_def split: if_splits)
  then show ?thesis using new pq'(1) out by (auto simp: sorted_map)
qed

theorem tcp_queue_in_order_witness:
  "\<exists>pq pq' out. grub_priority_queue_new (\<lambda>_. True) 0 4 (tcp_cmp id) = Some pq
    \<and> push_all (\<lambda>_. True) 0 pq [9, 2, 5 :: u32] = Some pq' \<and> destroy_pq pq' = Some out
    \<and> mset out = mset [9, 2, 5] \<and> sorted (map id out)"
  using tcp_queue_in_order[where ok = "\<lambda>_. True" and nbs = "[9, 2, 5 :: u32]" and zero = 0 and junk = 0 and seqnr = id]
  by (simp del: push_all.simps)

end
