(* ===== verification/GrubEnvblk.thy ===== *)
theory GrubEnvblk
  imports GrubBuffer "HOL-Library.AList"
begin

text \<open>
  The environment block file of \<open>lib/envblk.c\<close>: saved variables as lines of text in a buffer of fixed
  size, with free space filled with \<open>#\<close>.  A pointer into the buffer is an index, and an access
  outside the buffer is the result \<open>None\<close>.  Lengths are natural numbers: the \<open>int\<close> variables of the
  source hold lengths of strings in memory.
\<close>

definition GRUB_ENVBLK_SIGNATURE :: string where
  "GRUB_ENVBLK_SIGNATURE = ''# GRUB Environment Block'' @ [CHR 10]"

text \<open>The block, when the buffer is one; \<open>alloc\<close> is whether its descriptor can be allocated.\<close>

definition grub_envblk_open :: "bool \<Rightarrow> string \<Rightarrow> grub_err_t + string" where
  "grub_envblk_open alloc buf =
    (if length buf < length GRUB_ENVBLK_SIGNATURE + 1
        \<or> take (length GRUB_ENVBLK_SIGNATURE) buf \<noteq> GRUB_ENVBLK_SIGNATURE
     then Inl GRUB_ERR_BAD_FILE_TYPE
     else if alloc then Inr buf else Inl GRUB_ERR_OUT_OF_MEMORY)"

definition must_escape :: "char \<Rightarrow> bool" where
  "must_escape c \<longleftrightarrow> c = CHR 92 \<or> c = CHR 10"

definition escaped_value_len :: "string \<Rightarrow> nat" where
  "escaped_value_len value = sum_list (map (\<lambda>c. if must_escape c then 2 else 1) value)"

text \<open>The loop that all operations use to find the end of a line; a backslash takes the next character
  with it.\<close>

function line_end :: "string \<Rightarrow> nat \<Rightarrow> nat" where
  "line_end buf p =
    (if p < length buf
     then (if buf ! p = CHR 92 then line_end buf (p + 2)
           else if buf ! p = CHR 10 then p
           else line_end buf (p + 1))
     else p)"
  by pat_completeness auto

termination line_end
  by (relation "measure (\<lambda>(buf, p). length buf - p)") auto

declare line_end.simps [simp del]

definition find_next_line :: "string \<Rightarrow> nat \<Rightarrow> nat" where
  "find_next_line buf p = line_end buf p + 1"

lemma line_end_ge: "p \<le> line_end buf p"
proof (induction buf p rule: line_end.induct)
  case (1 buf p)
  then show ?case using line_end.simps[of buf p] by auto
qed

text \<open>From the end of the block down to the last character that is not free space.\<close>

function last_used :: "string \<Rightarrow> nat \<Rightarrow> nat option" where
  "last_used buf n =
    (if n = 0 then None else if buf ! (n - 1) = CHR ''#'' then last_used buf (n - 1) else Some (n - 1))"
  by pat_completeness auto

termination last_used
  by (relation "measure (\<lambda>(buf, n). n)") auto

declare last_used.simps [simp del]

text \<open>The line of a variable, between \<open>p\<close> and \<open>limit\<close>.\<close>

definition names_line :: "string \<Rightarrow> string \<Rightarrow> nat \<Rightarrow> bool" where
  "names_line name buf p \<longleftrightarrow> take (length name) (drop p buf) = name \<and> buf ! (p + length name) = CHR ''=''"

function find_line :: "string \<Rightarrow> nat \<Rightarrow> string \<Rightarrow> nat \<Rightarrow> nat option" where
  "find_line name limit buf p =
    (if p + length name + 1 < limit
     then (if names_line name buf p then Some p else find_line name limit buf (find_next_line buf p))
     else None)"
  by pat_completeness auto

termination find_line
  by (relation "measure (\<lambda>(name, limit, buf, p). limit - p)")
     (use line_end_ge in \<open>auto simp: find_next_line_def less_Suc_eq_le diff_less_mono2\<close>)

declare find_line.simps [simp del]

definition buf_move :: "string \<Rightarrow> nat \<Rightarrow> nat \<Rightarrow> nat \<Rightarrow> string option" where
  "buf_move buf dst src n =
    (if src + n \<le> length buf then store_at dst (take n (drop src buf)) buf else None)"

definition buf_fill :: "string \<Rightarrow> nat \<Rightarrow> nat \<Rightarrow> string option" where
  "buf_fill buf p n = store_at p (replicate n (CHR ''#'')) buf"

definition escape :: "string \<Rightarrow> string" where
  "escape value = concat (map (\<lambda>c. if must_escape c then [CHR 92, c] else [c]) value)"

text \<open>Making the value of an existing line, which starts at \<open>p\<close>, as long as the new one.\<close>

definition resize_value :: "string \<Rightarrow> nat \<Rightarrow> nat \<Rightarrow> nat \<Rightarrow> nat \<Rightarrow> string option" where
  "resize_value buf space p len vl =
    (if vl < len
     then Option.bind (buf_move buf (p + vl) (p + len) (length buf - (p + len)))
            (\<lambda>buf. buf_fill buf (space - (len - vl)) (len - vl))
     else buf_move buf (p + vl) (p + len) (length buf - (p + vl)))"

text \<open>The result is whether the variable was set, and the block.\<close>

definition grub_envblk_set :: "string \<Rightarrow> string \<Rightarrow> string \<Rightarrow> (bool \<times> string) option" where
  "grub_envblk_set buf name value =
    (let vl = escaped_value_len value; pend = length buf in
     case last_used buf pend of
       None \<Rightarrow> None
     | Some space \<Rightarrow>
         if buf ! space \<noteq> CHR 10 then Some (False, buf)
         else
           (let space = space + 1 in
            case find_line name space buf (length GRUB_ENVBLK_SIGNATURE) of
              Some p \<Rightarrow>
                (let p = p + length name + 1; len = line_end buf p - p in
                 if p + len \<ge> pend then Some (False, buf)
                 else if int (pend - space) < int vl - int len then Some (False, buf)
                 else map_option (Pair True)
                        (Option.bind (resize_value buf space p len vl)
                           (store_at p (escape value @ [CHR 10]))))
            | None \<Rightarrow>
                if pend - space < length name + 1 + vl + 1 then Some (False, buf)
                else map_option (Pair True)
                       (store_at space (name @ ''='' @ escape value @ [CHR 10]) buf)))"

definition grub_envblk_delete :: "string \<Rightarrow> string \<Rightarrow> string option" where
  "grub_envblk_delete buf name =
    (let pend = length buf in
     case find_line name pend buf (length GRUB_ENVBLK_SIGNATURE) of
       None \<Rightarrow> Some buf
     | Some p \<Rightarrow>
         (let len = line_end buf (p + length name + 1) - p in
          if p + len \<ge> pend then Some buf
          else
            (let len = len + 1
             in Option.bind (buf_move buf p (p + len) (pend - (p + len)))
                  (\<lambda>buf. buf_fill buf (pend - len) len))))"

text \<open>The loop that copies a value without its escapes.\<close>

fun unescape :: "string \<Rightarrow> string option" where
  "unescape [] = None"
| "unescape (c # s) =
    (if c = CHR 10 then Some []
     else if c = CHR 92 then (case s of [] \<Rightarrow> None | d # s \<Rightarrow> map_option ((#) d) (unescape s))
     else map_option ((#) c) (unescape s))"

text \<open>The names and values given to the hook; \<open>ok\<close> tells which sizes can be allocated.\<close>

function envblk_iterate ::
    "(nat \<Rightarrow> bool) \<Rightarrow> (string \<Rightarrow> string \<Rightarrow> bool) \<Rightarrow> string \<Rightarrow> nat \<Rightarrow> (string \<times> string) list option" where
  "envblk_iterate ok hook buf p =
    (if p < length buf
     then (if buf ! p \<notin> {CHR ''#'', CHR 10, CHR 13}
           then (let name_end = p + length (takeWhile (\<lambda>c. c \<noteq> CHR ''='') (drop p buf)) in
                 if name_end = length buf then Some []
                 else
                   (let value_start = name_end + 1; e = line_end buf value_start in
                    if e \<ge> length buf then Some []
                    else if \<not> ok (e - p + 1) then Some []
                    else
                      (case unescape (drop value_start buf) of
                         None \<Rightarrow> None
                       | Some value \<Rightarrow>
                           (let name = take (name_end - p) (drop p buf) in
                            if hook name value then Some [(name, value)]
                            else map_option ((#) (name, value))
                                   (envblk_iterate ok hook buf (find_next_line buf e))))))
           else envblk_iterate ok hook buf (find_next_line buf p))
     else Some [])"
  by pat_completeness auto

lemma iterate_advances:
  "p < length buf \<Longrightarrow> p \<le> q \<Longrightarrow> length buf - find_next_line buf q < length buf - p"
  using line_end_ge[of q buf] by (simp add: find_next_line_def)

lemma iterate_advances_value:
  assumes "p < length buf" "e = line_end buf (p + k + 1)"
  shows "length buf - find_next_line buf e < length buf - p"
  using assms line_end_ge[of "p + k + 1" buf] by (intro iterate_advances) auto

termination envblk_iterate
  by (relation "measure (\<lambda>(ok, hook, buf, p). length buf - p)")
     (auto intro: iterate_advances iterate_advances_value)

declare envblk_iterate.simps [simp del]

definition grub_envblk_iterate ::
    "(nat \<Rightarrow> bool) \<Rightarrow> (string \<Rightarrow> string \<Rightarrow> bool) \<Rightarrow> string \<Rightarrow> (string \<times> string) list option" where
  "grub_envblk_iterate ok hook buf = envblk_iterate ok hook buf (length GRUB_ENVBLK_SIGNATURE)"


section \<open>Blocks as lists of lines\<close>

text \<open>A block holds comments and variables, and free space at its end.\<close>

datatype env_entry = Comment string | Binding string string

fun entry_line :: "env_entry \<Rightarrow> string" where
  "entry_line (Comment s) = CHR ''#'' # s"
| "entry_line (Binding n v) = n @ CHR ''='' # escape v"

definition env_name_ok :: "string \<Rightarrow> bool" where
  "env_name_ok n \<longleftrightarrow> (\<forall>c \<in> set n. c \<notin> {CHR ''='', CHR 10, CHR 92}) \<and> (n \<noteq> [] \<longrightarrow> hd n \<notin> {CHR ''#'', CHR 13})"

fun entry_ok :: "env_entry \<Rightarrow> bool" where
  "entry_ok (Comment s) \<longleftrightarrow> (\<forall>c \<in> set s. c \<noteq> CHR 10 \<and> c \<noteq> CHR 92)"
| "entry_ok (Binding n v) \<longleftrightarrow> env_name_ok n"

definition lines_text :: "env_entry list \<Rightarrow> string" where
  "lines_text es = concat (map (\<lambda>e. entry_line e @ [CHR 10]) es)"

definition block :: "env_entry list \<Rightarrow> nat \<Rightarrow> string" where
  "block es k = GRUB_ENVBLK_SIGNATURE @ lines_text es @ replicate k (CHR ''#'')"

fun binds :: "string \<Rightarrow> env_entry \<Rightarrow> bool" where
  "binds n (Comment s) = False"
| "binds n (Binding m v) = (m = n)"

lemma lines_text_simps [simp]:
  "lines_text [] = []" "lines_text (e # es) = entry_line e @ CHR 10 # lines_text es"
  "lines_text (es @ fs) = lines_text es @ lines_text fs"
  by (simp_all add: lines_text_def)

text \<open>Text in which every line feed is escaped and every backslash takes a character with it.\<close>

inductive closed_text :: "string \<Rightarrow> bool" where
  closed_Nil: "closed_text []"
| closed_char: "c \<noteq> CHR 10 \<Longrightarrow> c \<noteq> CHR 92 \<Longrightarrow> closed_text s \<Longrightarrow> closed_text (c # s)"
| closed_pair: "closed_text s \<Longrightarrow> closed_text (CHR 92 # c # s)"

lemma closed_append: "closed_text s \<Longrightarrow> closed_text t \<Longrightarrow> closed_text (s @ t)"
  by (induction s rule: closed_text.induct) (auto intro: closed_text.intros)

lemma closed_plain: "\<forall>c \<in> set s. c \<noteq> CHR 10 \<and> c \<noteq> CHR 92 \<Longrightarrow> closed_text s"
  by (induction s) (auto intro: closed_text.intros)

lemma closed_escape: "closed_text (escape v)"
  by (induction v) (auto simp: escape_def must_escape_def intro: closed_text.intros)

lemma closed_entry:
  assumes "entry_ok e"
  shows "closed_text (entry_line e)"
proof (cases e)
  case (Comment s)
  then show ?thesis using assms closed_plain[of "entry_line e"] by simp
next
  case (Binding n v)
  then have "closed_text n" using assms by (intro closed_plain) (auto simp: env_name_ok_def)
  moreover have "closed_text (CHR ''='' # escape v)" by (rule closed_char) (simp_all add: closed_escape)
  ultimately show ?thesis using Binding by (simp add: closed_append)
qed

lemma line_end_closed:
  "closed_text s \<Longrightarrow> line_end (a @ s @ CHR 10 # r) (length a) = length a + length s"
proof (induction s arbitrary: a rule: closed_text.induct)
  case closed_Nil
  then show ?case by (simp add: line_end.simps)
next
  case (closed_char c s)
  have "line_end (a @ (c # s) @ CHR 10 # r) (length a) = line_end (a @ (c # s) @ CHR 10 # r) (length a + 1)"
    using closed_char.hyps by (subst line_end.simps) (simp add: nth_append)
  then show ?case using closed_char.IH[of "a @ [c]"] by simp
next
  case (closed_pair s c)
  have "line_end (a @ (CHR 92 # c # s) @ CHR 10 # r) (length a) = line_end (a @ (CHR 92 # c # s) @ CHR 10 # r) (length a + 2)"
    by (subst line_end.simps) (simp add: nth_append)
  then show ?case using closed_pair.IH[of "a @ [CHR 92, c]"] by simp
qed

lemma escaped_value_len: "escaped_value_len v = length (escape v)"
  by (induction v) (auto simp: escaped_value_len_def escape_def)

lemma unescape_escape: "unescape (escape v @ CHR 10 # r) = Some v"
  by (induction v) (auto simp: escape_def must_escape_def)

lemma last_used_fill:
  "last_used (a @ c # replicate k (CHR ''#'')) (length a + 1 + j) = Some (length a)"
  if "c \<noteq> CHR ''#''" "j \<le> k" for a
  using that(2)
proof (induction j)
  case 0
  then show ?case using that(1) by (subst last_used.simps) (simp add: nth_append)
next
  case (Suc j)
  have "(a @ c # replicate k (CHR ''#'')) ! (length a + 1 + j) = CHR ''#''"
    using Suc.prems by (simp add: nth_append)
  then show ?case using Suc by (subst last_used.simps) simp
qed

lemma block_last: "\<exists>a. GRUB_ENVBLK_SIGNATURE @ lines_text es = a @ [CHR 10]"
proof (cases es rule: rev_cases)
  case Nil
  then show ?thesis by (auto simp: GRUB_ENVBLK_SIGNATURE_def)
qed simp

lemma last_used_block:
  "last_used (block es k) (length (block es k)) = Some (length (GRUB_ENVBLK_SIGNATURE @ lines_text es) - 1)"
  "block es k ! (length (GRUB_ENVBLK_SIGNATURE @ lines_text es) - 1) = CHR 10"
proof -
  obtain a where a: "GRUB_ENVBLK_SIGNATURE @ lines_text es = a @ [CHR 10]" using block_last by blast
  then have b: "block es k = a @ CHR 10 # replicate k (CHR ''#'')" by (simp add: block_def)
  have l: "length (GRUB_ENVBLK_SIGNATURE @ lines_text es) = length a + 1" by (subst a) simp
  show "last_used (block es k) (length (block es k)) = Some (length (GRUB_ENVBLK_SIGNATURE @ lines_text es) - 1)"
    using last_used_fill[of "CHR 10" k k a] unfolding l b by simp
  show "block es k ! (length (GRUB_ENVBLK_SIGNATURE @ lines_text es) - 1) = CHR 10"
    unfolding l b by simp
qed


lemma names_line_entry:
  assumes "entry_ok e" "env_name_ok name"
  shows "names_line name (a @ entry_line e @ CHR 10 # r) (length a) \<longleftrightarrow> binds name e"
proof (cases e)
  case (Comment s)
  then show ?thesis using assms(2) by (cases name) (auto simp: names_line_def nth_append env_name_ok_def)
next
  case (Binding m v)
  define x where "x = escape v @ CHR 10 # r"
  have m: "CHR ''='' \<notin> set m" "CHR ''='' \<notin> set name" using assms Binding by (auto simp: env_name_ok_def)
  have iff: "names_line name (a @ entry_line e @ CHR 10 # r) (length a) \<longleftrightarrow>
      take (length name) (m @ CHR ''='' # x) = name \<and> (m @ CHR ''='' # x) ! length name = CHR ''=''"
    using Binding by (simp add: names_line_def nth_append x_def)
  have "m = name" if h: "take (length name) (m @ CHR ''='' # x) = name" "(m @ CHR ''='' # x) ! length name = CHR ''=''"
  proof (cases "length name" "length m" rule: linorder_cases)
    case less
    then show ?thesis using h(2) m(1) nth_mem[of "length name" m] by (simp add: nth_append)
  next
    case equal
    then show ?thesis using h(1) by simp
  next
    case greater
    then have "CHR ''='' \<in> set (take (length name) (m @ CHR ''='' # x))"
      by (cases "length name - length m") auto
    then show ?thesis using m(2) unfolding h(1) by blast
  qed
  then show ?thesis using iff Binding by (auto simp: nth_append)
qed

lemma line_end_fill: "line_end (a @ replicate k (CHR ''#'')) (length a) = length a + k"
proof (induction k arbitrary: a)
  case 0
  then show ?case by (simp add: line_end.simps)
next
  case (Suc k)
  have "line_end (a @ replicate (Suc k) (CHR ''#'')) (length a) = line_end ((a @ [CHR ''#'']) @ replicate k (CHR ''#'')) (length a + 1)"
    by (subst line_end.simps) (simp add: nth_append)
  then show ?case using Suc.IH[of "a @ [CHR ''#'']"] by simp
qed

lemma find_line_fill:
  assumes "env_name_ok name" "limit \<le> length (a @ replicate k (CHR ''#''))"
  shows "find_line name limit (a @ replicate k (CHR ''#'')) (length a) = None"
proof (cases "length a + length name + 1 < limit")
  case True
  then have k: "length name + 1 < k" using assms(2) by simp
  have "\<not> names_line name (a @ replicate k (CHR ''#'')) (length a)"
    using assms(1) k by (cases name) (auto simp: names_line_def nth_append env_name_ok_def take_Cons' split: if_splits)
  then have "find_line name limit (a @ replicate k (CHR ''#'')) (length a) =
      find_line name limit (a @ replicate k (CHR ''#'')) (length a + k + 1)"
    using True by (subst find_line.simps) (simp add: find_next_line_def line_end_fill)
  also have "\<dots> = None" using assms(2) by (subst find_line.simps) simp
  finally show ?thesis .
qed (simp add: find_line.simps)

lemma find_line_block:
  assumes "\<forall>e \<in> set es. entry_ok e" "env_name_ok name"
    "length (a @ lines_text es) \<le> limit" "limit \<le> length (a @ lines_text es @ replicate k (CHR ''#''))"
  shows "find_line name limit (a @ lines_text es @ replicate k (CHR ''#'')) (length a) =
    (if \<exists>e \<in> set es. binds name e
     then Some (length (a @ lines_text (takeWhile (\<lambda>e. \<not> binds name e) es))) else None)"
  using assms(1,3,4)
proof (induction es arbitrary: a)
  case Nil
  then show ?case using find_line_fill[OF assms(2), of limit a k] by simp
next
  case (Cons e es)
  define r where "r = lines_text es @ replicate k (CHR ''#'')"
  have buf: "a @ lines_text (e # es) @ replicate k (CHR ''#'') = a @ entry_line e @ CHR 10 # r" by (simp add: r_def)
  have ok: "entry_ok e" using Cons.prems(1) by simp
  show ?case
  proof (cases "binds name e")
    case True
    then obtain v where "e = Binding name v" by (cases e) auto
    then have "length a + length name + 1 < limit" using Cons.prems(2) by simp
    then have "find_line name limit (a @ entry_line e @ CHR 10 # r) (length a) = Some (length a)"
      using names_line_entry[OF ok assms(2), of a r] True by (subst find_line.simps) simp
    then show ?thesis using True unfolding buf by simp
  next
    case False
    show ?thesis
    proof (cases "length a + length name + 1 < limit")
      case step: True
      have "find_line name limit (a @ entry_line e @ CHR 10 # r) (length a) =
          find_line name limit (a @ entry_line e @ CHR 10 # r) (length (a @ entry_line e @ [CHR 10]))"
        using names_line_entry[OF ok assms(2), of a r] False step line_end_closed[OF closed_entry[OF ok], of a r]
        by (subst find_line.simps) (simp add: find_next_line_def)
      then show ?thesis
        using Cons.IH[of "a @ entry_line e @ [CHR 10]"] Cons.prems False unfolding buf r_def by simp
    next
      case stop: False
      have none: "\<not> binds name f" if f: "f \<in> set es" for f
      proof
        assume "binds name f"
        then obtain v where "f = Binding name v" by (cases f) auto
        moreover obtain xs ys where "es = xs @ f # ys" using f by (meson split_list)
        ultimately show False using stop Cons.prems(2) by simp
      qed
      have "find_line name limit (a @ entry_line e @ CHR 10 # r) (length a) = None"
        using stop by (simp add: find_line.simps)
      then show ?thesis using none False unfolding buf by auto
    qed
  qed
qed

lemma store_at_middle: "length d = length x \<Longrightarrow> store_at (length a) d (a @ x @ b) = Some (a @ d @ b)"
  by (simp add: store_at_def)


lemma split_binding:
  assumes "\<exists>e \<in> set es. binds name e"
  obtains pre v post where "es = pre @ Binding name v # post" "\<forall>e \<in> set pre. \<not> binds name e"
    "takeWhile (\<lambda>e. \<not> binds name e) es = pre"
proof -
  define pre where "pre = takeWhile (\<lambda>e. \<not> binds name e) es"
  obtain e post where e: "dropWhile (\<lambda>e. \<not> binds name e) es = e # post" "binds name e"
    using assms by (metis dropWhile_eq_Nil_conv hd_dropWhile list.exhaust_sel)
  then obtain v where "e = Binding name v" by (cases e) auto
  then have "es = pre @ Binding name v # post" using e(1) takeWhile_dropWhile_id[of "\<lambda>e. \<not> binds name e" es] by (simp add: pre_def)
  moreover have "\<forall>e \<in> set pre. \<not> binds name e" by (auto simp: pre_def dest: set_takeWhileD)
  ultimately show thesis using pre_def[symmetric] by (rule that)
qed

text \<open>The two moves that change the length of a value.\<close>

lemma free_tail:
  assumes "m \<le> length g"
  shows "drop m (replicate k c @ drop (length g + k - m) (g @ replicate k c)) = replicate k c"
proof (cases "m \<le> k")
  case True
  then have "drop (length g + k - m) (g @ replicate k c) = replicate m c" by simp
  then show ?thesis using True by (simp flip: replicate_add)
next
  case False
  then have "length g + k - m < length g" using assms by linarith
  then have "drop (length g + k - m) (g @ replicate k c) = drop (length g + k - m) g @ replicate k c" by simp
  then show ?thesis using False assms by simp
qed

lemma shrink_value:
  assumes "length z < length x"
  shows "Option.bind (resize_value (a @ x @ c # r @ replicate k (CHR ''#'')) (length (a @ x @ c # r)) (length a)
        (length x) (length z)) (store_at (length a) (z @ [d])) =
    Some (a @ z @ d # r @ replicate (k + (length x - length z)) (CHR ''#''))"
proof -
  define m F where "m = length x - length z" and "F = replicate k (CHR ''#'')"
  define buf where "buf = a @ x @ c # r @ F"
  have x: "take (length z) x @ drop (length z) x = x" "length (take (length z) x) = length z" using assms by simp_all
  have len: "length x = length z + m" using assms by (simp add: m_def)
  have "buf_move buf (length a + length z) (length a + length x) (length buf - (length a + length x)) =
      Some (a @ take (length z) x @ c # r @ F @ drop (length a + length z + Suc (length r + k)) buf)"
    using len by (simp add: buf_move_def store_at_def buf_def F_def)
  moreover have "drop (length a + length z + Suc (length r + k)) buf = drop (length (a @ x @ c # r) + k - m) ((a @ x @ c # r) @ F)"
    using len by (simp add: buf_def)
  moreover have "buf_fill ((a @ take (length z) x @ c # r) @ F @ t) (length (a @ x @ c # r) - m) m =
      Some ((a @ take (length z) x @ c # r) @ replicate m (CHR ''#'') @ drop m (F @ t))" if "length t = m" for t
    using len x(2) that by (simp add: buf_fill_def store_at_def)
  moreover have "drop m (F @ drop (length (a @ x @ c # r) + k - m) ((a @ x @ c # r) @ F)) = F"
    unfolding F_def using len by (intro free_tail) simp
  ultimately have "resize_value buf (length (a @ x @ c # r)) (length a) (length x) (length z) =
      Some ((a @ take (length z) x @ c # r) @ replicate m (CHR ''#'') @ F)"
    using assms len by (simp add: resize_value_def m_def[symmetric] F_def)
  then show ?thesis
    using store_at_middle[of "z @ [d]" "take (length z) x @ [c]" a "r @ replicate m (CHR ''#'') @ F"] x(2)
    unfolding buf_def F_def m_def[symmetric] by (simp add: replicate_add[symmetric] add.commute)
qed

lemma grow_value:
  assumes "length x \<le> length z" "length z - length x \<le> k"
  shows "Option.bind (resize_value (a @ x @ c # r @ replicate k (CHR ''#'')) (length (a @ x @ c # r)) (length a)
        (length x) (length z)) (store_at (length a) (z @ [d])) =
    Some (a @ z @ d # r @ replicate (k - (length z - length x)) (CHR ''#''))"
proof -
  define m where "m = length z - length x"
  define buf where "buf = a @ x @ c # r @ replicate k (CHR ''#'')"
  have len: "length z = length x + m" "m \<le> k" using assms by (simp_all add: m_def)
  have t: "take (length buf - (length a + length z)) (c # r @ replicate k (CHR ''#'')) = c # r @ replicate (k - m) (CHR ''#'')"
  proof -
    have "length buf - (length a + length z) = length (c # r) + (k - m)" using len by (simp add: buf_def)
    then show ?thesis using len by simp
  qed
  then have "resize_value buf (length (a @ x @ c # r)) (length a) (length x) (length z) =
      Some (take (length a + length z) buf @ c # r @ replicate (k - m) (CHR ''#''))"
    using len by (simp add: resize_value_def buf_move_def store_at_def) (simp add: buf_def)
  moreover have "take (length a + length z) buf = a @ take (length z) (drop (length a) buf)"
    by (simp add: buf_def take_add)
  moreover have "length (take (length z) (drop (length a) buf)) = length z" using len by (simp add: buf_def)
  ultimately show ?thesis
    using store_at_middle[of "z @ [d]" "take (length z) (drop (length a) buf) @ [c]" a "r @ replicate (k - m) (CHR ''#'')"]
    unfolding m_def[symmetric] buf_def[symmetric] by simp
qed

text \<open>Setting a variable: in place, or at the end.\<close>

fun bind_entry :: "string \<Rightarrow> string \<Rightarrow> env_entry list \<Rightarrow> env_entry list" where
  "bind_entry n v [] = [Binding n v]"
| "bind_entry n v (e # es) = (if binds n e then Binding n v # es else e # bind_entry n v es)"

lemma bind_entry_split: "\<forall>e \<in> set pre. \<not> binds n e \<Longrightarrow>
    bind_entry n v (pre @ Binding n v0 # post) = pre @ Binding n v # post"
  by (induction pre) auto

lemma bind_entry_new: "\<not> (\<exists>e \<in> set es. binds n e) \<Longrightarrow> bind_entry n v es = es @ [Binding n v]"
  by (induction es) auto

definition room_for :: "env_entry list \<Rightarrow> nat \<Rightarrow> string \<Rightarrow> string \<Rightarrow> bool" where
  "room_for es k name value \<longleftrightarrow> length (lines_text (bind_entry name value es)) \<le> length (lines_text es) + k"

lemma set_block:
  assumes "\<forall>e \<in> set es. entry_ok e" "env_name_ok name"
  shows "grub_envblk_set (block es k) name value =
    (if room_for es k name value
     then Some (True, block (bind_entry name value es)
            (length (lines_text es) + k - length (lines_text (bind_entry name value es))))
     else Some (False, block es k))"
proof -
  define space where "space = length (GRUB_ENVBLK_SIGNATURE @ lines_text es)"
  have sp: "last_used (block es k) (length (block es k)) = Some (space - 1)" "block es k ! (space - 1) = CHR 10"
      "space - 1 + 1 = space"
    using last_used_block[of es k] by (simp_all add: space_def GRUB_ENVBLK_SIGNATURE_def)
  have find: "find_line name space (block es k) (length GRUB_ENVBLK_SIGNATURE) =
    (if \<exists>e \<in> set es. binds name e
     then Some (length (GRUB_ENVBLK_SIGNATURE @ lines_text (takeWhile (\<lambda>e. \<not> binds name e) es))) else None)"
    unfolding block_def using assms by (intro find_line_block) (auto simp: space_def)
  have pend: "length (block es k) = space + k" by (simp add: block_def space_def)
  show ?thesis
  proof (cases "\<exists>e \<in> set es. binds name e")
    case True
    then obtain pre v0 post where es: "es = pre @ Binding name v0 # post" "\<forall>e \<in> set pre. \<not> binds name e"
      "takeWhile (\<lambda>e. \<not> binds name e) es = pre"
      using split_binding by metis
    define a where "a = GRUB_ENVBLK_SIGNATURE @ lines_text pre @ name @ ''=''"
    define r where "r = CHR 10 # lines_text post"
    have b: "block es k = a @ escape v0 @ r @ replicate k (CHR ''#'')" by (simp add: block_def es(1) a_def r_def)
    have le: "line_end (block es k) (length a) - length a = length (escape v0)"
      using line_end_closed[OF closed_escape[of v0], of a "lines_text post @ replicate k (CHR ''#'')"]
      by (simp add: b r_def)
    have space: "space = length (a @ escape v0 @ r)" by (simp add: space_def es(1) a_def r_def)
    have new: "bind_entry name value es = pre @ Binding name value # post" using bind_entry_split[OF es(2)] es(1) by simp
    have room: "room_for es k name value \<longleftrightarrow> length (escape value) \<le> length (escape v0) + k"
      unfolding room_for_def new by (simp add: es(1))
    have pos: "length (GRUB_ENVBLK_SIGNATURE @ lines_text pre) + length name + 1 = length a" by (simp add: a_def)
    have set: "grub_envblk_set (block es k) name value =
        (if int k < int (length (escape value)) - int (length (escape v0)) then Some (False, block es k)
         else map_option (Pair True) (Option.bind
           (resize_value (block es k) space (length a) (length (escape v0)) (length (escape value)))
           (store_at (length a) (escape value @ [CHR 10]))))"
    proof -
      have in_block: "\<not> space + k \<le> length a + length (escape v0)" by (simp add: space r_def)
      show ?thesis
        unfolding grub_envblk_set_def Let_def sp(1) option.case escaped_value_len
        unfolding sp(3) find pend using True sp(2) es(3) in_block by (simp add: pos[simplified] le)
    qed
    have result: "Option.bind
           (resize_value (block es k) space (length a) (length (escape v0)) (length (escape value)))
           (store_at (length a) (escape value @ [CHR 10])) =
        Some (a @ escape value @ CHR 10 # lines_text post @
              replicate (length (escape v0) + k - length (escape value)) (CHR ''#''))"
      if "length (escape value) \<le> length (escape v0) + k"
      using that shrink_value[of "escape value" "escape v0" a "CHR 10" "lines_text post" k "CHR 10"]
        grow_value[of "escape v0" "escape value" k a "CHR 10" "lines_text post" "CHR 10"]
      unfolding b space r_def by (cases "length (escape value) < length (escape v0)") (simp_all add: add.commute)
    have blk: "a @ escape value @ CHR 10 # lines_text post @ replicate j (CHR ''#'') = block (bind_entry name value es) j" for j
      unfolding new by (simp add: block_def a_def)
    have free: "length (lines_text es) + k - length (lines_text (bind_entry name value es)) =
        length (escape v0) + k - length (escape value)"
      unfolding new by (simp add: es(1))
    show ?thesis using set result room unfolding blk free by auto
  next
    case False
    then have new: "bind_entry name value es = es @ [Binding name value]" by (rule bind_entry_new)
    define t where "t = name @ ''='' @ escape value @ [CHR 10]"
    have room: "room_for es k name value \<longleftrightarrow> length t \<le> k"
      unfolding room_for_def new by (simp add: t_def)
    have set: "grub_envblk_set (block es k) name value =
        (if k < length t then Some (False, block es k)
         else map_option (Pair True) (store_at space t (block es k)))"
      unfolding grub_envblk_set_def Let_def sp(1) option.case escaped_value_len
      unfolding sp(3) find pend using False sp(2) by (simp add: t_def)
    have "store_at space t (block es k) = Some (block (es @ [Binding name value]) (k - length t))" if "length t \<le> k"
    proof -
      have "replicate k (CHR ''#'') = replicate (length t) (CHR ''#'') @ replicate (k - length t) (CHR ''#'')"
        using that by (simp flip: replicate_add)
      then show ?thesis
        using store_at_middle[of t "replicate (length t) (CHR ''#'')" "GRUB_ENVBLK_SIGNATURE @ lines_text es"
            "replicate (k - length t) (CHR ''#'')"]
        by (simp add: block_def space_def) (simp add: t_def)
    qed
    moreover have "length (lines_text es) + k - length (lines_text (bind_entry name value es)) = k - length t"
      unfolding new by (simp add: t_def)
    ultimately show ?thesis using set room unfolding new by auto
  qed
qed

text \<open>Deleting a variable: the first line that binds it goes.\<close>

fun unbind_entry :: "string \<Rightarrow> env_entry list \<Rightarrow> env_entry list" where
  "unbind_entry n [] = []"
| "unbind_entry n (e # es) = (if binds n e then es else e # unbind_entry n es)"

lemma unbind_entry_split: "\<forall>e \<in> set pre. \<not> binds n e \<Longrightarrow> unbind_entry n (pre @ Binding n v # post) = pre @ post"
  by (induction pre) auto

lemma unbind_entry_none: "\<not> (\<exists>e \<in> set es. binds n e) \<Longrightarrow> unbind_entry n es = es"
  by (induction es) auto

lemma delete_block:
  assumes "\<forall>e \<in> set es. entry_ok e" "env_name_ok name"
  shows "grub_envblk_delete (block es k) name =
    Some (block (unbind_entry name es) (length (lines_text es) + k - length (lines_text (unbind_entry name es))))"
proof -
  have find: "find_line name (length (block es k)) (block es k) (length GRUB_ENVBLK_SIGNATURE) =
    (if \<exists>e \<in> set es. binds name e
     then Some (length (GRUB_ENVBLK_SIGNATURE @ lines_text (takeWhile (\<lambda>e. \<not> binds name e) es))) else None)"
    unfolding block_def using assms by (intro find_line_block) auto
  show ?thesis
  proof (cases "\<exists>e \<in> set es. binds name e")
    case True
    then obtain pre v post where es: "es = pre @ Binding name v # post" "\<forall>e \<in> set pre. \<not> binds name e"
      "takeWhile (\<lambda>e. \<not> binds name e) es = pre"
      using split_binding by metis
    define a where "a = GRUB_ENVBLK_SIGNATURE @ lines_text pre"
    define x where "x = name @ ''='' @ escape v @ [CHR 10]"
    define r where "r = lines_text post @ replicate k (CHR ''#'')"
    have b: "block es k = a @ x @ r" by (simp add: block_def es(1) a_def x_def r_def)
    have "line_end ((a @ name @ ''='') @ escape v @ CHR 10 # r) (length (a @ name @ ''='')) =
        length (a @ name @ ''='') + length (escape v)"
      by (rule line_end_closed[OF closed_escape])
    then have le: "line_end (block es k) (length a + length name + 1) - length a + 1 = length x"
        "length a + (line_end (block es k) (length a + length name + 1) - length a) < length (block es k)"
      by (simp_all add: b x_def)
    have "grub_envblk_delete (block es k) name =
        Option.bind (buf_move (block es k) (length a) (length a + length x) (length (block es k) - (length a + length x)))
          (\<lambda>buf. buf_fill buf (length (block es k) - length x) (length x))"
      unfolding grub_envblk_delete_def Let_def find using True es(3) le by (simp add: a_def[symmetric])
    also have "\<dots> = Some (a @ r @ replicate (length x) (CHR ''#''))"
      by (simp add: b buf_move_def store_at_def buf_fill_def)
    also have "a @ r @ replicate (length x) (CHR ''#'') = block (pre @ post) (length x + k)"
      by (simp add: block_def a_def r_def replicate_add add.commute)
    finally show ?thesis
      unfolding unbind_entry_split[OF es(2)] es(1) by (simp add: x_def add.assoc)
  next
    case False
    then show ?thesis using find unbind_entry_none[OF False] by (simp add: grub_envblk_delete_def)
  qed
qed


fun entry_binding :: "env_entry \<Rightarrow> (string \<times> string) list" where
  "entry_binding (Comment s) = []"
| "entry_binding (Binding n v) = [(n, v)]"

definition bindings :: "env_entry list \<Rightarrow> (string \<times> string) list" where
  "bindings es = concat (map entry_binding es)"

lemma bindings_simps [simp]: "bindings [] = []" "bindings (e # es) = entry_binding e @ bindings es"
  by (simp_all add: bindings_def)

abbreviation all_vars :: "string \<Rightarrow> nat \<Rightarrow> (string \<times> string) list option" where
  "all_vars \<equiv> envblk_iterate (\<lambda>_. True) (\<lambda>_ _. False)"

lemma iterate_binding:
  assumes "env_name_ok n"
  shows "all_vars (a @ (n @ CHR ''='' # escape v) @ CHR 10 # r) (length a) =
    map_option ((#) (n, v)) (all_vars (a @ (n @ CHR ''='' # escape v) @ CHR 10 # r) (length a + length n + length (escape v) + 2))"
proof -
  define buf where "buf = a @ (n @ CHR ''='' # escape v) @ CHR 10 # r"
  have first: "buf ! length a \<notin> {CHR ''#'', CHR 10, CHR 13}"
    using assms by (cases n) (auto simp: buf_def nth_append env_name_ok_def)
  have tw: "takeWhile (\<lambda>c. c \<noteq> CHR ''='') (drop (length a) buf) = n"
    using assms by (simp add: buf_def takeWhile_append2 env_name_ok_def)
  have le: "line_end buf (length a + length n + 1) = length a + length n + 1 + length (escape v)"
    using line_end_closed[OF closed_escape[of v], of "a @ n @ ''=''" r] by (simp add: buf_def)
  have le2: "find_next_line buf (length a + length n + 1 + length (escape v)) = length a + length n + length (escape v) + 2"
  proof -
    have "buf ! (length a + length n + 1 + length (escape v)) = CHR 10" by (simp add: buf_def nth_append)
    then show ?thesis by (subst find_next_line_def, subst line_end.simps) (simp add: buf_def)
  qed
  have un: "unescape (drop (length a + length n + 1) buf) = Some v"
    using unescape_escape[of v r] by (simp add: buf_def)
  have name: "take (length a + length n - length a) (drop (length a) buf) = n" by (simp add: buf_def)
  have len: "length a < length buf" "length a + length n \<noteq> length buf"
      "\<not> length buf \<le> length a + length n + 1 + length (escape v)"
    by (simp_all add: buf_def)
  show ?thesis
    unfolding buf_def[symmetric]
    by (subst envblk_iterate.simps) (simp only: len first tw le le2 un name Let_def simp_thms if_True if_False option.case)
qed

lemma iterate_lines:
  assumes "\<forall>e \<in> set es. entry_ok e"
  shows "all_vars (a @ lines_text es @ replicate k (CHR ''#'')) (length a) = Some (bindings es)"
  using assms
proof (induction es arbitrary: a)
  case Nil
  show ?case
  proof (cases "k = 0")
    case True
    then show ?thesis by (simp add: envblk_iterate.simps)
  next
    case False
    then have "all_vars (a @ replicate k (CHR ''#'')) (length a) = all_vars (a @ replicate k (CHR ''#'')) (length a + k + 1)"
      by (subst envblk_iterate.simps) (simp add: nth_append find_next_line_def line_end_fill)
    then show ?thesis by (simp add: envblk_iterate.simps[where p = "Suc (length a + k)"])
  qed
next
  case (Cons e es)
  define r where "r = lines_text es @ replicate k (CHR ''#'')"
  have buf: "a @ lines_text (e # es) @ replicate k (CHR ''#'') = a @ entry_line e @ CHR 10 # r" by (simp add: r_def)
  have rest: "all_vars (a @ entry_line e @ CHR 10 # r) (length (a @ entry_line e @ [CHR 10])) = Some (bindings es)"
    using Cons.IH[of "a @ entry_line e @ [CHR 10]"] Cons.prems by (simp add: r_def)
  show ?case
  proof (cases e)
    case (Comment s)
    have "line_end (a @ entry_line e @ CHR 10 # r) (length a) = length a + length (entry_line e)"
      using line_end_closed closed_entry Cons.prems by simp
    then have "all_vars (a @ entry_line e @ CHR 10 # r) (length a) =
        all_vars (a @ entry_line e @ CHR 10 # r) (length (a @ entry_line e @ [CHR 10]))"
      by (subst envblk_iterate.simps) (simp add: Comment nth_append find_next_line_def)
    then show ?thesis unfolding buf using rest Comment by simp
  next
    case (Binding n v)
    then show ?thesis
      unfolding buf using iterate_binding[of n a v r] rest Cons.prems by (simp add: add.assoc)
  qed
qed

lemma iterate_block:
  "\<forall>e \<in> set es. entry_ok e \<Longrightarrow>
    grub_envblk_iterate (\<lambda>_. True) (\<lambda>_ _. False) (block es k) = Some (bindings es)"
  unfolding grub_envblk_iterate_def block_def by (rule iterate_lines)

lemma bindings_bind: "bindings (bind_entry n v es) = AList.update n v (bindings es)"
proof (induction es)
  case (Cons e es)
  then show ?case by (cases e) auto
qed simp

lemma unbound_delete: "n \<notin> fst ` set xs \<Longrightarrow> AList.delete n xs = xs"
  by (induction xs) (auto simp: AList.delete_eq)

lemma bindings_unbind: "distinct (map fst (bindings es)) \<Longrightarrow> bindings (unbind_entry n es) = AList.delete n (bindings es)"
proof (induction es)
  case (Cons e es)
  then show ?case by (cases e) (auto simp: AList.delete_eq unbound_delete[unfolded AList.delete_eq])
qed simp

lemma entries_ok_bind:
  "\<forall>e \<in> set es. entry_ok e \<Longrightarrow> env_name_ok n \<Longrightarrow> \<forall>e \<in> set (bind_entry n v es). entry_ok e"
  by (induction es) auto

lemma entries_ok_unbind: "\<forall>e \<in> set es. entry_ok e \<Longrightarrow> \<forall>e \<in> set (unbind_entry n es). entry_ok e"
  by (induction es) auto

text \<open>C11. The environment block is a finite map kept in a file of fixed size: setting a variable fails
  exactly when the new text does not fit and then changes nothing; otherwise reading the block back
  gives the old variables with the new binding, whatever characters the value has; deleting removes
  the binding; and neither changes the size of the block.\<close>

theorem envblk_map:
  assumes "\<forall>e \<in> set es. entry_ok e" and "distinct (map fst (bindings es))" and "env_name_ok name"
  shows "(\<exists>ret buf'. grub_envblk_set (block es k) name value = Some (ret, buf')
      \<and> length buf' = length (block es k) \<and> (ret \<longleftrightarrow> room_for es k name value) \<and> (\<not> ret \<longrightarrow> buf' = block es k)
      \<and> grub_envblk_iterate (\<lambda>_. True) (\<lambda>_ _. False) buf' =
          Some (if ret then AList.update name value (bindings es) else bindings es))
    \<and> (\<exists>buf'. grub_envblk_delete (block es k) name = Some buf' \<and> length buf' = length (block es k)
      \<and> grub_envblk_iterate (\<lambda>_. True) (\<lambda>_ _. False) buf' = Some (AList.delete name (bindings es)))"
proof (intro conjI)
  show "\<exists>ret buf'. grub_envblk_set (block es k) name value = Some (ret, buf')
      \<and> length buf' = length (block es k) \<and> (ret \<longleftrightarrow> room_for es k name value) \<and> (\<not> ret \<longrightarrow> buf' = block es k)
      \<and> grub_envblk_iterate (\<lambda>_. True) (\<lambda>_ _. False) buf' =
          Some (if ret then AList.update name value (bindings es) else bindings es)"
    using set_block[OF assms(1,3), of k "value"] iterate_block[OF entries_ok_bind[OF assms(1,3)]] iterate_block[OF assms(1)]
    by (cases "room_for es k name value") (auto simp: bindings_bind block_def room_for_def)
  have "length (lines_text (unbind_entry name es)) \<le> length (lines_text es)" by (induction es) auto
  then show "\<exists>buf'. grub_envblk_delete (block es k) name = Some buf' \<and> length buf' = length (block es k)
      \<and> grub_envblk_iterate (\<lambda>_. True) (\<lambda>_ _. False) buf' = Some (AList.delete name (bindings es))"
    using delete_block[OF assms(1,3), of k] iterate_block[OF entries_ok_unbind[OF assms(1)]] bindings_unbind[OF assms(2)]
    by (auto simp: block_def)
qed

theorem envblk_map_witness:
  "\<exists>buf'. grub_envblk_set (block [Comment ''note'', Binding ''a'' ''1'', Binding ''b'' ''2''] 5) ''a'' [CHR 10] = Some (True, buf')
    \<and> grub_envblk_iterate (\<lambda>_. True) (\<lambda>_ _. False) buf' = Some [(''a'', [CHR 10]), (''b'', ''2'')]"
  using envblk_map[of "[Comment ''note'', Binding ''a'' ''1'', Binding ''b'' ''2'']" "''a''" 5 "[CHR 10]"]
  by (auto simp: env_name_ok_def room_for_def escape_def must_escape_def)

end
