(* ===== verification/GrubCharset.thy ===== *)
theory GrubCharset
  imports Prelude
begin

text \<open>
  Character encodings: the UTF-8 decoder and the UTF-16 and Latin-1 conversions of
  \<open>include/grub/charset.h\<close>, and the UCS-4 conversions of \<open>normal/charset.c\<close>.  A source is the list of
  the code units in memory from the pointer on, and reading past its end is the result \<open>None\<close>; a
  destination is the list of units written.  The size \<open>-1\<close> that means no limit is the size \<open>None\<close>.
\<close>

text \<open>One byte of a UTF-8 sequence: success, the code so far, and the number of bytes to come.\<close>

definition grub_utf8_process :: "u8 \<Rightarrow> u32 \<Rightarrow> nat \<Rightarrow> bool \<times> u32 \<times> nat" where
  "grub_utf8_process c code count =
    (if count \<noteq> 0
     then (if c AND 0xC0 \<noteq> 0x80 then (False, code, 0)
           else (let code = push_bit 6 code OR ucast (c AND 0x3F); count = count - 1
                 in if count = 1 \<and> code \<le> 0x1F \<or> count = 2 \<and> code \<le> 0xF then (False, 0, 0)
                    else (True, code, count)))
     else if c AND 0x80 = 0 then (True, ucast c, 0)
     else if c AND 0xE0 = 0xC0
     then (let code = ucast (c AND 0x1F) in if code \<le> 1 then (False, 0, 0) else (True, code, 1))
     else if c AND 0xF0 = 0xE0 then (True, ucast (c AND 0x0F), 2)
     else if c AND 0xF8 = 0xF0 then (True, ucast (c AND 0x07), 3)
     else (False, code, 0))"

text \<open>The bytes written into \<open>space\<close> bytes, or one of the two errors.\<close>

datatype encode_error = No_Space | Invalid_Char

definition grub_encode_utf8_character :: "nat \<Rightarrow> u32 \<Rightarrow> encode_error + u8 list" where
  "grub_encode_utf8_character space code =
    (if space = 0 then Inl No_Space
     else if code \<le> 0x7F then Inr [ucast code]
     else if code \<le> 0x7FF
     then (if space \<le> 1 then Inl No_Space
           else Inr [ucast (drop_bit 6 code OR 0xC0), ucast (code AND 0x3F OR 0x80)])
     else if 0xDC00 \<le> code \<and> code \<le> 0xDFFF \<or> 0xD800 \<le> code \<and> code \<le> 0xDBFF then Inl Invalid_Char
     else if code < 0x10000
     then (if space \<le> 2 then Inl No_Space
           else Inr [ucast (drop_bit 12 code OR 0xE0), ucast (drop_bit 6 code AND 0x3F OR 0x80),
                     ucast (code AND 0x3F OR 0x80)])
     else (if space \<le> 3 then Inl No_Space
           else Inr [ucast (drop_bit 18 code OR 0xF0), ucast (drop_bit 12 code AND 0x3F OR 0x80),
                     ucast (drop_bit 6 code AND 0x3F OR 0x80), ucast (code AND 0x3F OR 0x80)]))"

text \<open>The loop of \<open>grub_ucs4_to_utf8\<close> over the source, into the space before the terminator.\<close>

primrec ucs4_to_utf8_loop :: "nat \<Rightarrow> u32 list \<Rightarrow> u8 list" where
  "ucs4_to_utf8_loop space [] = []"
| "ucs4_to_utf8_loop space (code # src) =
    (if space = 0 then []
     else case grub_encode_utf8_character space code of
       Inl No_Space \<Rightarrow> []
     | Inl Invalid_Char \<Rightarrow> 0x3F # ucs4_to_utf8_loop (space - 1) src
     | Inr bytes \<Rightarrow> bytes @ ucs4_to_utf8_loop (space - length bytes) src)"

text \<open>A destination of size 0 has no room for the terminator, which is written past it.\<close>

definition grub_ucs4_to_utf8 :: "u32 list \<Rightarrow> nat \<Rightarrow> u8 list option" where
  "grub_ucs4_to_utf8 src destsize =
    (if destsize = 0 then None else Some (ucs4_to_utf8_loop (destsize - 1) src @ [0]))"

definition utf8_bytes :: "u32 \<Rightarrow> nat" where
  "utf8_bytes code =
    (if code \<le> 0x7F then 1 else if code \<le> 0x7FF then 2
     else if 0xDC00 \<le> code \<and> code \<le> 0xDFFF \<or> 0xD800 \<le> code \<and> code \<le> 0xDBFF then 1
     else if code < 0x10000 then 3 else 4)"

definition grub_get_num_of_utf8_bytes :: "u32 list \<Rightarrow> nat" where
  "grub_get_num_of_utf8_bytes src = sum_list (map utf8_bytes src)"

definition grub_ucs4_to_utf8_alloc :: "bool \<Rightarrow> u32 list \<Rightarrow> u8 list option" where
  "grub_ucs4_to_utf8_alloc ok src =
    (let cnt = grub_get_num_of_utf8_bytes src + 1 in if ok then grub_ucs4_to_utf8 src cnt else None)"

fun utf8_valid_loop :: "u8 list \<Rightarrow> nat option \<Rightarrow> u32 \<Rightarrow> nat \<Rightarrow> bool option" where
  "utf8_valid_loop src srcsize code count =
    (if srcsize = Some 0 then Some True
     else case src of
       [] \<Rightarrow> None
     | c # src \<Rightarrow>
         (case grub_utf8_process c code count of
            (r, code, count) \<Rightarrow>
              if \<not> r then Some False
              else if count \<noteq> 0 then utf8_valid_loop src (map_option (\<lambda>n. n - 1) srcsize) code count
              else if code = 0 then Some True
              else if code > 0x10FFFF then Some False
              else utf8_valid_loop src (map_option (\<lambda>n. n - 1) srcsize) code count))"

declare utf8_valid_loop.simps [simp del]

definition grub_is_valid_utf8 :: "u8 list \<Rightarrow> nat option \<Rightarrow> bool option" where
  "grub_is_valid_utf8 src srcsize = utf8_valid_loop src srcsize 0 0"

text \<open>What one round of the decoding loops does: the code, the count, and the rest of the source, in
  which a byte that cannot continue a sequence stays.\<close>

definition decode_byte :: "u8 \<Rightarrow> u8 list \<Rightarrow> u32 \<Rightarrow> nat \<Rightarrow> u32 \<times> nat \<times> u8 list" where
  "decode_byte c src code count =
    (case grub_utf8_process c code count of
       (r, code', count') \<Rightarrow>
         if r then (code', count', src) else (0x3F, 0, if count \<noteq> 0 then c # src else src))"

lemma decode_byte_progress:
  "decode_byte c src code count = (code', count', src') \<Longrightarrow>
    length src' < Suc (length src) \<or> length src' = Suc (length src) \<and> count' = 0 \<and> code' \<noteq> 0"
  by (auto simp: decode_byte_def split: prod.splits if_splits)

function utf8_to_ucs4_loop :: "nat \<Rightarrow> u8 list \<Rightarrow> nat option \<Rightarrow> u32 \<Rightarrow> nat \<Rightarrow> (u32 list \<times> u8 list) option" where
  "utf8_to_ucs4_loop destsize src srcsize code count =
    (if srcsize = Some 0 \<or> destsize = 0 then Some ([], src)
     else case src of
       [] \<Rightarrow> None
     | c # src \<Rightarrow>
         (let srcsize = map_option (\<lambda>n. n - 1) srcsize in
          case decode_byte c src code count of
            (code, count, src) \<Rightarrow>
              if count \<noteq> 0 then utf8_to_ucs4_loop destsize src srcsize code count
              else if code = 0 then Some ([], src)
              else map_option (\<lambda>(out, rest). (code # out, rest))
                     (utf8_to_ucs4_loop (destsize - 1) src srcsize code count)))"
  by pat_completeness auto

termination utf8_to_ucs4_loop
  by (relation "measure (\<lambda>(destsize, src, srcsize, code, count). length src + destsize)")
     (auto dest!: decode_byte_progress[OF sym])

declare utf8_to_ucs4_loop.simps [simp del]

text \<open>The characters and the source after the last byte used.\<close>

definition grub_utf8_to_ucs4 :: "nat \<Rightarrow> u8 list \<Rightarrow> nat option \<Rightarrow> (u32 list \<times> u8 list) option" where
  "grub_utf8_to_ucs4 destsize src srcsize = utf8_to_ucs4_loop destsize src srcsize 0 0"

text \<open>\<open>msg\<close> is a C string, without its terminator.\<close>

definition grub_utf8_to_ucs4_alloc :: "bool \<Rightarrow> u8 list \<Rightarrow> u32 list option" where
  "grub_utf8_to_ucs4_alloc ok msg =
    (if ok then map_option fst (grub_utf8_to_ucs4 (length msg) (msg @ [0]) None) else None)"

definition GRUB_UTF16_UPPER_SURROGATE :: "u32 \<Rightarrow> u32" where
  "GRUB_UTF16_UPPER_SURROGATE code = 0xD800 OR (drop_bit 10 (code - 0x10000) AND 0x3FF)"

definition GRUB_UTF16_LOWER_SURROGATE :: "u32 \<Rightarrow> u32" where
  "GRUB_UTF16_LOWER_SURROGATE code = 0xDC00 OR ((code - 0x10000) AND 0x3FF)"

function utf8_to_utf16_loop :: "nat \<Rightarrow> u8 list \<Rightarrow> nat option \<Rightarrow> u32 \<Rightarrow> nat \<Rightarrow> (u16 list \<times> u8 list) option" where
  "utf8_to_utf16_loop destsize src srcsize code count =
    (if srcsize = Some 0 \<or> destsize = 0 then Some ([], src)
     else case src of
       [] \<Rightarrow> None
     | c # src \<Rightarrow>
         (let srcsize = map_option (\<lambda>n. n - 1) srcsize in
          case decode_byte c src code count of
            (code, count, src) \<Rightarrow>
              if count \<noteq> 0 then utf8_to_utf16_loop destsize src srcsize code count
              else if code = 0 then Some ([], src)
              else if destsize < 2 \<and> code \<ge> 0x10000 then Some ([], src)
              else if code \<ge> 0x10000
              then map_option (\<lambda>(out, rest).
                       (ucast (GRUB_UTF16_UPPER_SURROGATE code) # ucast (GRUB_UTF16_LOWER_SURROGATE code) # out, rest))
                     (utf8_to_utf16_loop (destsize - 2) src srcsize code count)
              else map_option (\<lambda>(out, rest). (ucast code # out, rest))
                     (utf8_to_utf16_loop (destsize - 1) src srcsize code count)))"
  by pat_completeness auto

termination utf8_to_utf16_loop
  by (relation "measure (\<lambda>(destsize, src, srcsize, code, count). length src + destsize)")
     (auto dest!: decode_byte_progress[OF sym])

declare utf8_to_utf16_loop.simps [simp del]

definition grub_utf8_to_utf16 :: "nat \<Rightarrow> u8 list \<Rightarrow> nat option \<Rightarrow> (u16 list \<times> u8 list) option" where
  "grub_utf8_to_utf16 destsize src srcsize = utf8_to_utf16_loop destsize src srcsize 0 0"

definition four_bytes :: "u32 \<Rightarrow> u8 list" where
  "four_bytes code =
    [ucast (drop_bit 18 code OR 0xF0), ucast (drop_bit 12 code AND 0x3F OR 0x80),
     ucast (drop_bit 6 code AND 0x3F OR 0x80), ucast (code AND 0x3F OR 0x80)]"

text \<open>The last byte that does not continue a sequence, searched from the end.\<close>

primrec getend_scan :: "u8 list \<Rightarrow> nat \<Rightarrow> nat option" where
  "getend_scan bytes 0 = None"
| "getend_scan bytes (Suc n) =
    (if (bytes ! n) AND 0xC0 \<noteq> 0x80 then Some n else getend_scan bytes n)"

definition grub_getend :: "u8 list \<Rightarrow> nat" where
  "grub_getend bytes =
    (case getend_scan bytes (length bytes) of
       None \<Rightarrow> 0
     | Some i \<Rightarrow>
         (let b = bytes ! i in
          if b AND 0x80 = 0 then i + 1
          else if b AND 0xE0 = 0xC0 \<and> i + 2 \<le> length bytes then i + 2
          else if b AND 0xF0 = 0xE0 \<and> i + 3 \<le> length bytes then i + 3
          else if b AND 0xF8 = 0xF0 \<and> i + 4 \<le> length bytes then i + 4
          else i))"

text \<open>\<open>code_high\<close> is a pending upper surrogate, or zero.  A unit that cannot follow it stays in the
  source, while the number of units to read has already gone down.\<close>

fun utf16_to_utf8_loop :: "nat \<Rightarrow> u32 \<Rightarrow> u16 list \<Rightarrow> u8 list option" where
  "utf16_to_utf8_loop 0 code_high src = Some []"
| "utf16_to_utf8_loop (Suc n) code_high [] = None"
| "utf16_to_utf8_loop (Suc n) code_high (u # src) =
    (let code = ucast u :: u32 in
     if code_high \<noteq> 0
     then (if 0xDC00 \<le> code \<and> code \<le> 0xDFFF
           then map_option ((@) (four_bytes (push_bit 10 (code_high - 0xD800) + (code - 0xDC00) + 0x10000)))
                  (utf16_to_utf8_loop n 0 src)
           else map_option ((#) 0x3F) (utf16_to_utf8_loop n 0 (u # src)))
     else if code \<le> 0x7F then map_option ((#) (ucast code)) (utf16_to_utf8_loop n 0 src)
     else if code \<le> 0x7FF
     then map_option ((@) [ucast (drop_bit 6 code OR 0xC0), ucast (code AND 0x3F OR 0x80)])
            (utf16_to_utf8_loop n 0 src)
     else if 0xD800 \<le> code \<and> code \<le> 0xDBFF then utf16_to_utf8_loop n code src
     else if 0xDC00 \<le> code \<and> code \<le> 0xDFFF then map_option ((#) 0x3F) (utf16_to_utf8_loop n 0 src)
     else if code < 0x10000
     then map_option ((@) [ucast (drop_bit 12 code OR 0xE0), ucast (drop_bit 6 code AND 0x3F OR 0x80),
              ucast (code AND 0x3F OR 0x80)]) (utf16_to_utf8_loop n 0 src)
     else map_option ((@) (four_bytes code)) (utf16_to_utf8_loop n 0 src))"

definition grub_utf16_to_utf8 :: "u16 list \<Rightarrow> nat \<Rightarrow> u8 list option" where
  "grub_utf16_to_utf8 src n = utf16_to_utf8_loop n 0 src"

definition grub_latin1_to_utf8 :: "u8 list \<Rightarrow> u8 list" where
  "grub_latin1_to_utf8 src =
    concat (map (\<lambda>b. if b AND 0x80 = 0 then [b] else [drop_bit 6 b OR 0xC0, b AND 0x3F OR 0x80]) src)"


section \<open>Decoding the encoding of a character\<close>

text \<open>The characters that have an encoding of their own in a C string.\<close>

definition unicode_scalar :: "u32 \<Rightarrow> bool" where
  "unicode_scalar c \<longleftrightarrow> c \<noteq> 0 \<and> c \<le> 0x10FFFF \<and> \<not> (0xD800 \<le> c \<and> c \<le> 0xDFFF)"

definition utf8 :: "u32 \<Rightarrow> u8 list" where
  "utf8 c = projr (grub_encode_utf8_character 4 c)"

text \<open>The decoder accepts each byte, and only the last one completes the code.\<close>

primrec completes :: "u8 list \<Rightarrow> u32 \<Rightarrow> nat \<Rightarrow> u32 \<Rightarrow> bool" where
  "completes [] code count c \<longleftrightarrow> False"
| "completes (b # bs) code count c \<longleftrightarrow>
    (case grub_utf8_process b code count of
       (r, code', count') \<Rightarrow>
         r \<and> (if bs = [] then count' = 0 \<and> code' = c else count' \<noteq> 0 \<and> completes bs code' count' c))"

lemma below_all: "list_all (\<lambda>n. P (word_of_nat n)) [0..<m] \<Longrightarrow> unat (t :: u32) < m \<Longrightarrow> P t"
  by (auto simp: list_all_iff dest!: bspec[where x = "unat t"])

lemma trailing_byte:
  assumes "unat (t :: u32) < 64"
  shows "(ucast (t OR 0x80) :: u8) AND 0xC0 = 0x80 \<and>
    (ucast ((ucast (t OR 0x80) :: u8) AND 0x3F) :: u32) = t"
  by (rule below_all[OF _ assms]) code_simp

lemma leading_byte2:
  assumes "unat (t :: u32) < 32"
  shows "(ucast (t OR 0xC0) :: u8) AND 0x80 = 0x80 \<and> (ucast (t OR 0xC0) :: u8) AND 0xE0 = 0xC0 \<and>
    (ucast ((ucast (t OR 0xC0) :: u8) AND 0x1F) :: u32) = t"
  by (rule below_all[OF _ assms]) code_simp

lemma leading_byte3:
  assumes "unat (t :: u32) < 16"
  shows "(ucast (t OR 0xE0) :: u8) AND 0x80 = 0x80 \<and> (ucast (t OR 0xE0) :: u8) AND 0xE0 = 0xE0 \<and>
    (ucast (t OR 0xE0) :: u8) AND 0xF0 = 0xE0 \<and> (ucast ((ucast (t OR 0xE0) :: u8) AND 0x0F) :: u32) = t"
  by (rule below_all[OF _ assms]) code_simp

lemma leading_byte4:
  assumes "unat (t :: u32) < 8"
  shows "(ucast (t OR 0xF0) :: u8) AND 0x80 = 0x80 \<and> (ucast (t OR 0xF0) :: u8) AND 0xE0 = 0xE0 \<and>
    (ucast (t OR 0xF0) :: u8) AND 0xF0 = 0xF0 \<and> (ucast (t OR 0xF0) :: u8) AND 0xF8 = 0xF0 \<and>
    (ucast ((ucast (t OR 0xF0) :: u8) AND 0x07) :: u32) = t"
  by (rule below_all[OF _ assms]) code_simp

lemma ascii_byte:
  assumes "unat (t :: u32) < 128"
  shows "(ucast t :: u8) AND 0x80 = 0 \<and> (ucast (ucast t :: u8) :: u32) = t"
  by (rule below_all[OF _ assms]) code_simp


lemma low6: "unat (x AND 0x3F :: u32) < 64"
proof -
  have "x AND 0x3F = take_bit 6 x"
    by (simp add: take_bit_eq_mask mask_eq_exp_minus_1)
  then show ?thesis
    using take_bit_nat_less_exp[of 6 "unat x"] by (simp only: unsigned_take_bit_eq) simp
qed

lemma join6: "push_bit 6 (drop_bit 6 x) OR (x AND 0x3F) = (x :: u32)"
proof -
  have "x AND 0x3F = take_bit 6 x"
    by (simp add: take_bit_eq_mask mask_eq_exp_minus_1)
  then show ?thesis
    by (simp add: bit_eq_iff bit_simps) (auto simp: bit_simps)
qed

lemma continue_process:
  assumes "code = drop_bit 6 x" "count = Suc n"
    and "\<not> (n = 1 \<and> x \<le> 0x1F \<or> n = 2 \<and> x \<le> 0xF)"
  shows "grub_utf8_process (ucast (x AND 0x3F OR 0x80)) code count = (True, x, n)"
  using assms trailing_byte[OF low6, of x] join6[of x]
  by (simp add: grub_utf8_process_def Let_def)

lemma process2:
  "unat t < 32 \<Longrightarrow> 1 < unat t \<Longrightarrow> grub_utf8_process (ucast (t OR 0xC0)) k 0 = (True, t, 1)"
  using leading_byte2[of t] by (simp add: grub_utf8_process_def Let_def word_le_nat_alt)

lemma process3: "unat t < 16 \<Longrightarrow> grub_utf8_process (ucast (t OR 0xE0)) k 0 = (True, t, 2)"
  using leading_byte3[of t] by (simp add: grub_utf8_process_def Let_def)

lemma process4: "unat t < 8 \<Longrightarrow> grub_utf8_process (ucast (t OR 0xF0)) k 0 = (True, t, 3)"
  using leading_byte4[of t] by (simp add: grub_utf8_process_def Let_def)

lemma utf8_cases:
  assumes "unicode_scalar c"
  shows "c \<le> 0x7F \<and> utf8 c = [ucast c]
    \<or> 0x7F < c \<and> c \<le> 0x7FF \<and> utf8 c = [ucast (drop_bit 6 c OR 0xC0), ucast (c AND 0x3F OR 0x80)]
    \<or> 0x7FF < c \<and> c < 0x10000 \<and>
      utf8 c = [ucast (drop_bit 12 c OR 0xE0), ucast (drop_bit 6 c AND 0x3F OR 0x80), ucast (c AND 0x3F OR 0x80)]
    \<or> 0x10000 \<le> c \<and> c \<le> 0x10FFFF \<and> utf8 c = four_bytes c"
proof -
  have ns: "\<not> (0xDC00 \<le> c \<and> c \<le> 0xDFFF \<or> 0xD800 \<le> c \<and> c \<le> 0xDBFF)" and le: "c \<le> 0x10FFFF"
    using assms by (auto simp: unicode_scalar_def word_le_nat_alt)
  consider "c \<le> 0x7F" | "0x7F < c" "c \<le> 0x7FF" | "0x7FF < c" "c < 0x10000" | "0x10000 \<le> c"
    by (meson not_le)
  then show ?thesis
    using ns le
    by cases (auto simp: utf8_def grub_encode_utf8_character_def four_bytes_def word_le_nat_alt word_less_nat_alt)
qed

lemma utf8_completes:
  assumes c: "unicode_scalar c"
  shows "completes (utf8 c) code 0 c"
  using utf8_cases[OF c]
proof (elim disjE conjE)
  assume "c \<le> 0x7F" and bs: "utf8 c = [ucast c]"
  then have "unat c < 128"
    by (simp add: word_le_nat_alt)
  then show ?thesis
    using ascii_byte[of c] by (simp add: bs grub_utf8_process_def)
next
  assume "0x7F < c" "c \<le> 0x7FF"
    and bs: "utf8 c = [ucast (drop_bit 6 c OR 0xC0), ucast (c AND 0x3F OR 0x80)]"
  then show ?thesis
    by (simp add: bs process2 continue_process unat_drop_bit word_le_nat_alt word_less_nat_alt)
next
  assume "0x7FF < c" "c < 0x10000"
    and bs: "utf8 c = [ucast (drop_bit 12 c OR 0xE0), ucast (drop_bit 6 c AND 0x3F OR 0x80), ucast (c AND 0x3F OR 0x80)]"
  then show ?thesis
    by (simp add: bs process3 continue_process unat_drop_bit word_le_nat_alt word_less_nat_alt)
next
  assume "0x10000 \<le> c" "c \<le> 0x10FFFF" and bs: "utf8 c = four_bytes c"
  then show ?thesis
    by (simp add: bs four_bytes_def process4 continue_process unat_drop_bit word_le_nat_alt word_less_nat_alt)
qed


section \<open>The loops on the encoding of a text\<close>

text \<open>The source size leaves room for \<open>n\<close> more bytes, and the size after them.\<close>

definition size_ok :: "nat option \<Rightarrow> nat \<Rightarrow> bool" where
  "size_ok srcsize n = (case srcsize of None \<Rightarrow> True | Some m \<Rightarrow> n \<le> m)"

abbreviation size_left :: "nat option \<Rightarrow> nat \<Rightarrow> nat option" where
  "size_left srcsize n \<equiv> map_option (\<lambda>m. m - n) srcsize"

lemma size_ok_Suc:
  "size_ok s (Suc n) \<Longrightarrow> s \<noteq> Some 0 \<and> size_ok (size_left s (Suc 0)) n \<and>
    size_left (size_left s (Suc 0)) n = size_left s (Suc n)"
  by (cases s) (auto simp: size_ok_def)

lemma size_ok_add:
  "size_ok s (m + n) \<Longrightarrow> size_ok s m \<and> size_ok (size_left s m) n \<and>
    size_left (size_left s m) n = size_left s (m + n)"
  by (cases s) (auto simp: size_ok_def)

lemma completes_process:
  assumes "completes (b # bs) code count c"
  obtains code' count' where "grub_utf8_process b code count = (True, code', count')"
    and "if bs = [] then count' = 0 \<and> code' = c else count' \<noteq> 0 \<and> completes bs code' count' c"
  using assms by (auto split: prod.splits if_splits)

lemma utf8_to_ucs4_completes:
  assumes "completes bs code count c" "c \<noteq> 0" "size_ok s (length bs)"
  shows "utf8_to_ucs4_loop (Suc d) (bs @ rest) s code count =
    map_option (\<lambda>(out, rest). (c # out, rest)) (utf8_to_ucs4_loop d rest (size_left s (length bs)) c 0)"
  using assms
proof (induction bs arbitrary: code count s)
  case (Cons b bs)
  obtain code' count' where p: "grub_utf8_process b code count = (True, code', count')"
    and l: "if bs = [] then count' = 0 \<and> code' = c else count' \<noteq> 0 \<and> completes bs code' count' c"
    using Cons.prems(1) by (rule completes_process)
  note s = size_ok_Suc[of s "length bs"]
  show ?case
  proof (cases "bs = []")
    case True
    then show ?thesis
      using l s Cons.prems p by (subst utf8_to_ucs4_loop.simps) (simp add: decode_byte_def)
  next
    case False
    then show ?thesis
      using l s Cons.prems p Cons.IH[of code' count' "size_left s (Suc 0)"]
      by (subst utf8_to_ucs4_loop.simps) (simp add: decode_byte_def)
  qed
qed simp

definition utf16 :: "u32 \<Rightarrow> u16 list" where
  "utf16 c = (if c \<ge> 0x10000
     then [ucast (GRUB_UTF16_UPPER_SURROGATE c), ucast (GRUB_UTF16_LOWER_SURROGATE c)] else [ucast c])"

lemma utf8_to_utf16_completes:
  assumes "completes bs code count c" "c \<noteq> 0" "size_ok s (length bs)" "length (utf16 c) \<le> d"
  shows "utf8_to_utf16_loop d (bs @ rest) s code count =
    map_option (\<lambda>(out, rest). (utf16 c @ out, rest))
      (utf8_to_utf16_loop (d - length (utf16 c)) rest (size_left s (length bs)) c 0)"
  using assms
proof (induction bs arbitrary: code count s)
  case (Cons b bs)
  obtain code' count' where p: "grub_utf8_process b code count = (True, code', count')"
    and l: "if bs = [] then count' = 0 \<and> code' = c else count' \<noteq> 0 \<and> completes bs code' count' c"
    using Cons.prems(1) by (rule completes_process)
  note s = size_ok_Suc[of s "length bs"]
  have d: "d \<noteq> 0"
    using Cons.prems(4) by (auto simp: utf16_def split: if_splits)
  show ?case
  proof (cases "bs = []")
    case True
    then show ?thesis
      using l s d Cons.prems p
      by (subst utf8_to_utf16_loop.simps) (auto simp add: decode_byte_def utf16_def numeral_2_eq_2)
  next
    case False
    then show ?thesis
      using l s d Cons.prems p Cons.IH[of code' count' "size_left s (Suc 0)"]
      by (subst utf8_to_utf16_loop.simps) (simp add: decode_byte_def)
  qed
qed simp

lemma utf8_valid_completes:
  assumes "completes bs code count c" "c \<noteq> 0" "c \<le> 0x10FFFF" "size_ok s (length bs)"
  shows "utf8_valid_loop (bs @ rest) s code count = utf8_valid_loop rest (size_left s (length bs)) c 0"
  using assms
proof (induction bs arbitrary: code count s)
  case (Cons b bs)
  obtain code' count' where p: "grub_utf8_process b code count = (True, code', count')"
    and l: "if bs = [] then count' = 0 \<and> code' = c else count' \<noteq> 0 \<and> completes bs code' count' c"
    using Cons.prems(1) by (rule completes_process)
  note s = size_ok_Suc[of s "length bs"]
  show ?case
  proof (cases "bs = []")
    case True
    then show ?thesis
      using l s Cons.prems p by (subst utf8_valid_loop.simps) auto
  next
    case False
    then show ?thesis
      using l s Cons.prems p Cons.IH[of code' count' "size_left s (Suc 0)"]
      by (subst utf8_valid_loop.simps) simp
  qed
qed simp


lemma nonzero_byte: "(b :: u8) AND m \<noteq> 0 \<Longrightarrow> b \<noteq> 0"
  by auto

lemma trailing_nonzero: "(ucast (x AND 0x3F OR 0x80 :: u32) :: u8) \<noteq> 0"
  using trailing_byte[OF low6, of x] by - (rule nonzero_byte[where m = "0xC0"], simp)

lemma utf8_nonzero:
  assumes c: "unicode_scalar c"
  shows "0 \<notin> set (utf8 c)"
  using utf8_cases[OF c]
proof (elim disjE conjE)
  assume "c \<le> 0x7F" and bs: "utf8 c = [ucast c]"
  then have "unat c < 128"
    by (simp add: word_le_nat_alt)
  then have "(ucast c :: u8) \<noteq> 0"
    using ascii_byte[of c] c by (auto simp: unicode_scalar_def)
  then show ?thesis
    by (simp add: bs)
next
  assume "0x7F < c" "c \<le> 0x7FF"
    and bs: "utf8 c = [ucast (drop_bit 6 c OR 0xC0), ucast (c AND 0x3F OR 0x80)]"
  then have "(ucast (drop_bit 6 c OR 0xC0) :: u8) \<noteq> 0"
    using leading_byte2[of "drop_bit 6 c"]
    by - (rule nonzero_byte[where m = "0x80"], (simp add: unat_drop_bit word_le_nat_alt))
  then show ?thesis
    by (simp add: bs trailing_nonzero trailing_nonzero[symmetric])
next
  assume "0x7FF < c" "c < 0x10000"
    and bs: "utf8 c = [ucast (drop_bit 12 c OR 0xE0), ucast (drop_bit 6 c AND 0x3F OR 0x80), ucast (c AND 0x3F OR 0x80)]"
  then have "(ucast (drop_bit 12 c OR 0xE0) :: u8) \<noteq> 0"
    using leading_byte3[of "drop_bit 12 c"]
    by - (rule nonzero_byte[where m = "0x80"], (simp add: unat_drop_bit word_less_nat_alt))
  then show ?thesis
    by (simp add: bs trailing_nonzero trailing_nonzero[symmetric])
next
  assume "0x10000 \<le> c" "c \<le> 0x10FFFF" and bs: "utf8 c = four_bytes c"
  then have "(ucast (drop_bit 18 c OR 0xF0) :: u8) \<noteq> 0"
    using leading_byte4[of "drop_bit 18 c"]
    by - (rule nonzero_byte[where m = "0x80"], (simp add: unat_drop_bit word_le_nat_alt))
  then show ?thesis
    by (simp add: bs four_bytes_def trailing_nonzero trailing_nonzero[symmetric])
qed

lemma utf8_size:
  assumes "unicode_scalar c"
  shows "utf8_bytes c = length (utf8 c) \<and> utf8 c \<noteq> []"
  using utf8_cases[OF assms] assms
  by (auto simp: utf8_bytes_def four_bytes_def unicode_scalar_def word_le_nat_alt word_less_nat_alt)

lemma grub_encode_utf8_character_space:
  assumes c: "unicode_scalar c" and "length (utf8 c) \<le> space"
  shows "grub_encode_utf8_character space c = Inr (utf8 c)"
  using utf8_cases[OF c] assms
  by (auto simp: grub_encode_utf8_character_def four_bytes_def unicode_scalar_def word_le_nat_alt word_less_nat_alt)

abbreviation utf8_text :: "u32 list \<Rightarrow> u8 list" where
  "utf8_text cs \<equiv> concat (map utf8 cs)"

abbreviation utf16_text :: "u32 list \<Rightarrow> u16 list" where
  "utf16_text cs \<equiv> concat (map utf16 cs)"

lemma ucs4_to_utf8_loop_scalars:
  "list_all unicode_scalar cs \<Longrightarrow> length (utf8_text cs) \<le> space \<Longrightarrow>
    ucs4_to_utf8_loop space cs = utf8_text cs"
proof (induction cs arbitrary: space)
  case (Cons c cs)
  then show ?case
    using utf8_size[of c] grub_encode_utf8_character_space[of c space] by (cases space) auto
qed simp

lemma grub_get_num_of_utf8_bytes_scalars:
  "list_all unicode_scalar cs \<Longrightarrow> grub_get_num_of_utf8_bytes cs = length (utf8_text cs)"
  by (induction cs) (simp_all add: grub_get_num_of_utf8_bytes_def utf8_size)

lemma utf8_text_longer: "list_all unicode_scalar cs \<Longrightarrow> length cs \<le> length (utf8_text cs)"
  by (induction cs) (auto dest!: utf8_size simp: Suc_le_eq neq_Nil_conv)

lemma utf8_to_ucs4_loop_scalars:
  "list_all unicode_scalar cs \<Longrightarrow> length cs \<le> d \<Longrightarrow>
    map_option fst (utf8_to_ucs4_loop d (utf8_text cs @ [0]) None code 0) = Some cs"
proof (induction cs arbitrary: d code)
  case Nil
  then show ?case
    by (subst utf8_to_ucs4_loop.simps) (simp add: decode_byte_def grub_utf8_process_def)
next
  case (Cons c cs)
  then have c: "unicode_scalar c" and cs: "list_all unicode_scalar cs"
    by simp_all
  obtain d' where d: "d = Suc d'"
    using Cons.prems(2) by (cases d) auto
  have "utf8_to_ucs4_loop d (utf8_text (c # cs) @ [0]) None code 0 =
      map_option (\<lambda>(out, rest). (c # out, rest)) (utf8_to_ucs4_loop d' (utf8_text cs @ [0]) None c 0)"
    using utf8_to_ucs4_completes[OF utf8_completes[OF c], of None d' "utf8_text cs @ [0]"] c
    by (simp add: d unicode_scalar_def size_ok_def)
  with Cons.IH[OF cs, of d' c] Cons.prems(2) show ?case
    by (auto simp: d option.map_comp)
qed

lemma utf8_valid_loop_scalars:
  "list_all unicode_scalar cs \<Longrightarrow> utf8_valid_loop (utf8_text cs) (Some (length (utf8_text cs))) code 0 = Some True"
proof (induction cs arbitrary: code)
  case Nil
  then show ?case
    by (subst utf8_valid_loop.simps) simp
next
  case (Cons c cs)
  then have c: "unicode_scalar c" and cs: "list_all unicode_scalar cs"
    by simp_all
  show ?case
    using utf8_valid_completes[OF utf8_completes[OF c], of "Some (length (utf8_text (c # cs)))" "utf8_text cs" code]
      c Cons.IH[OF cs, of c]
    by (simp add: unicode_scalar_def size_ok_def)
qed

lemma utf8_to_utf16_loop_scalars:
  "list_all unicode_scalar cs \<Longrightarrow> length (utf16_text cs) \<le> d \<Longrightarrow>
    utf8_to_utf16_loop d (utf8_text cs) (Some (length (utf8_text cs))) code 0 = Some (utf16_text cs, [])"
proof (induction cs arbitrary: d code)
  case Nil
  then show ?case
    by (subst utf8_to_utf16_loop.simps) simp
next
  case (Cons c cs)
  then have c: "unicode_scalar c" and cs: "list_all unicode_scalar cs"
    by simp_all
  show ?case
    using utf8_to_utf16_completes[OF utf8_completes[OF c], of "Some (length (utf8_text (c # cs)))" d "utf8_text cs" code]
      c Cons.IH[OF cs, of "d - length (utf16 c)" c] Cons.prems(2)
    by (simp add: unicode_scalar_def size_ok_def)
qed


section \<open>Surrogate pairs\<close>

lemma and_3FF: "(x :: u32) AND 0x3FF = take_bit 10 x"
  by (simp add: take_bit_eq_mask mask_eq_exp_minus_1)

lemma unat_take_bit10: "unat (take_bit 10 (x :: u32)) = unat x mod 1024"
  by (simp only: unsigned_take_bit_eq) (simp add: take_bit_eq_mod)

lemma or_as_add:
  assumes "unat (t :: u32) < 1024" and m: "m = 0xD800 \<or> m = 0xDC00"
  shows "m OR t = m + t"
proof -
  have t: "take_bit 10 t = t"
    using assms(1) by (simp only: word_unat_eq_iff unat_take_bit10) simp
  have "m AND take_bit 10 t = take_bit 10 (m AND t)"
    by (simp add: bit_eq_iff bit_simps) auto
  also have "\<dots> = take_bit 10 m AND take_bit 10 t"
    by (simp add: take_bit_and)
  also have "\<dots> = 0"
    using m by auto
  finally show ?thesis
    by (simp add: t disjunctive_add_eq_or)
qed

lemma ucast_u16: "unat (x :: u32) < 0x10000 \<Longrightarrow> ucast (ucast x :: u16) = x"
  by (simp only: word_unat_eq_iff unsigned_ucast_eq unsigned_take_bit_eq)
     (simp add: take_bit_eq_mod)

lemma surrogate_pair:
  assumes "0x10000 \<le> c" "c \<le> 0x10FFFF"
  shows "unat (GRUB_UTF16_UPPER_SURROGATE c) = 0xD800 + (unat c - 0x10000) div 1024"
    and "unat (GRUB_UTF16_LOWER_SURROGATE c) = 0xDC00 + (unat c - 0x10000) mod 1024"
    and "push_bit 10 (GRUB_UTF16_UPPER_SURROGATE c - 0xD800) + (GRUB_UTF16_LOWER_SURROGATE c - 0xDC00) + 0x10000 = c"
proof -
  define v where "v = c - 0x10000"
  have v: "unat v = unat c - 0x10000" "unat v < 0x100000"
    using assms by (simp_all add: v_def unat_sub_if_size word_size word_le_nat_alt)
  have hi: "drop_bit 10 v AND 0x3FF = drop_bit 10 v" and hil: "unat (drop_bit 10 v) < 1024"
    using v(2) by (simp_all only: and_3FF word_unat_eq_iff unat_take_bit10 unat_drop_bit) simp_all
  have lo: "v AND 0x3FF = take_bit 10 v" and lol: "unat (take_bit 10 v) < 1024"
    by (simp_all add: and_3FF unat_take_bit10)
  have U: "GRUB_UTF16_UPPER_SURROGATE c = 0xD800 + drop_bit 10 v"
    unfolding GRUB_UTF16_UPPER_SURROGATE_def v_def[symmetric] hi by (rule or_as_add[OF hil]) simp
  have L: "GRUB_UTF16_LOWER_SURROGATE c = 0xDC00 + take_bit 10 v"
    unfolding GRUB_UTF16_LOWER_SURROGATE_def v_def[symmetric] lo by (rule or_as_add[OF lol]) simp
  show "unat (GRUB_UTF16_UPPER_SURROGATE c) = 0xD800 + (unat c - 0x10000) div 1024"
    using hil unfolding U v(1)[symmetric] by (simp only: unat_drop_bit unat_word_ariths) simp
  show "unat (GRUB_UTF16_LOWER_SURROGATE c) = 0xDC00 + (unat c - 0x10000) mod 1024"
    using lol unfolding L v(1)[symmetric] by (simp only: unat_take_bit10 unat_word_ariths) simp
  have "push_bit 10 (drop_bit 10 v) + take_bit 10 v = v"
    by (simp only: bits_ident)
  then show "push_bit 10 (GRUB_UTF16_UPPER_SURROGATE c - 0xD800) + (GRUB_UTF16_LOWER_SURROGATE c - 0xDC00) + 0x10000 = c"
    unfolding U L by (simp add: v_def)
qed


lemma append_singleton: "(@) [x] = (#) x"
  by (simp add: fun_eq_iff)

lemma utf16_to_utf8_loop_char:
  assumes c: "unicode_scalar c"
  shows "utf16_to_utf8_loop (length (utf16 c) + n) 0 (utf16 c @ src) =
    map_option ((@) (utf8 c)) (utf16_to_utf8_loop n 0 src)"
proof (cases "0x10000 \<le> c")
  case True
  then have le: "c \<le> 0x10FFFF" and bs: "utf8 c = four_bytes c"
    using c utf8_cases[OF c] by (auto simp: unicode_scalar_def word_le_nat_alt word_less_nat_alt)
  define U where "U = GRUB_UTF16_UPPER_SURROGATE c"
  define L where "L = GRUB_UTF16_LOWER_SURROGATE c"
  have u: "0xD800 \<le> unat U" "unat U \<le> 0xDBFF" and l: "0xDC00 \<le> unat L" "unat L \<le> 0xDFFF"
    using surrogate_pair(1,2)[OF True le] le by (auto simp: U_def L_def word_le_nat_alt)
  have j: "push_bit 10 (U - 0xD800) + (L - 0xDC00) + 0x10000 = c"
    using surrogate_pair(3)[OF True le] by (simp add: U_def L_def)
  have nz: "U \<noteq> 0"
    using u by auto
  have e: "ucast (ucast U :: u16) = U" "ucast (ucast L :: u16) = L"
    using u l by (simp_all only: ucast_u16)
  have s: "utf16 c = [ucast U, ucast L]"
    using True by (simp add: utf16_def U_def L_def)
  show ?thesis
    using u l nz by (simp add: s e j bs Let_def word_le_nat_alt word_less_nat_alt)
next
  case False
  then have "ucast (ucast c :: u16) = c"
    by (intro ucast_u16) (simp add: word_le_nat_alt)
  then show ?thesis
    using False utf8_cases[OF c] c
    by (auto simp: utf16_def Let_def unicode_scalar_def append_singleton word_le_nat_alt word_less_nat_alt)
qed

lemma utf16_to_utf8_loop_scalars:
  "list_all unicode_scalar cs \<Longrightarrow>
    utf16_to_utf8_loop (length (utf16_text cs)) 0 (utf16_text cs) = Some (utf8_text cs)"
  by (induction cs) (simp_all add: utf16_to_utf8_loop_char)

lemma utf16_text_short: "length (utf16_text cs) \<le> 2 * length cs"
  by (induction cs) (auto simp: utf16_def)

section \<open>The conversions agree\<close>

text \<open>C14. For every text of Unicode characters (no zero, no surrogate, none above U+10FFFF) the size that
  \<open>grub_ucs4_to_utf8_alloc\<close> computes is exactly the size of the encoding, which is written in full and has no
  zero byte before its terminator; \<open>grub_is_valid_utf8\<close> accepts it, \<open>grub_utf8_to_ucs4_alloc\<close> reads the same
  text back, and converting it to UTF-16 and back to UTF-8 gives the same bytes.\<close>

theorem charset_roundtrip:
  assumes "list_all unicode_scalar cs"
  shows "\<exists>bytes units. grub_ucs4_to_utf8_alloc True cs = Some (bytes @ [0]) \<and> 0 \<notin> set bytes
    \<and> length bytes = grub_get_num_of_utf8_bytes cs
    \<and> grub_is_valid_utf8 bytes (Some (length bytes)) = Some True
    \<and> grub_utf8_to_ucs4_alloc True bytes = Some cs
    \<and> grub_utf8_to_utf16 (2 * length cs) bytes (Some (length bytes)) = Some (units, [])
    \<and> grub_utf16_to_utf8 units (length units) = Some bytes"
proof (intro exI[of _ "utf8_text cs"] exI[of _ "utf16_text cs"] conjI)
  show "grub_ucs4_to_utf8_alloc True cs = Some (utf8_text cs @ [0])"
    by (simp add: grub_ucs4_to_utf8_alloc_def grub_ucs4_to_utf8_def ucs4_to_utf8_loop_scalars
        grub_get_num_of_utf8_bytes_scalars assms)
  show "0 \<notin> set (utf8_text cs)"
    using assms by (auto simp: list_all_iff dest: utf8_nonzero)
  show "length (utf8_text cs) = grub_get_num_of_utf8_bytes cs"
    by (simp add: grub_get_num_of_utf8_bytes_scalars assms)
  show "grub_is_valid_utf8 (utf8_text cs) (Some (length (utf8_text cs))) = Some True"
    unfolding grub_is_valid_utf8_def by (rule utf8_valid_loop_scalars[OF assms])
  show "grub_utf8_to_ucs4_alloc True (utf8_text cs) = Some cs"
    using utf8_to_ucs4_loop_scalars[OF assms utf8_text_longer[OF assms], of 0]
    by (simp add: grub_utf8_to_ucs4_alloc_def grub_utf8_to_ucs4_def)
  show "grub_utf8_to_utf16 (2 * length cs) (utf8_text cs) (Some (length (utf8_text cs))) = Some (utf16_text cs, [])"
    unfolding grub_utf8_to_utf16_def by (rule utf8_to_utf16_loop_scalars[OF assms utf16_text_short])
  show "grub_utf16_to_utf8 (utf16_text cs) (length (utf16_text cs)) = Some (utf8_text cs)"
    unfolding grub_utf16_to_utf8_def by (rule utf16_to_utf8_loop_scalars[OF assms])
qed

theorem charset_roundtrip_witness:
  "list_all unicode_scalar [0x41, 0xE9, 0x20AC, 0x1F600] \<and>
    (\<exists>bytes. grub_ucs4_to_utf8_alloc True [0x41, 0xE9, 0x20AC, 0x1F600] = Some (bytes @ [0]) \<and>
      grub_utf8_to_ucs4_alloc True bytes = Some [0x41, 0xE9, 0x20AC, 0x1F600])"
proof -
  have a: "list_all unicode_scalar [0x41, 0xE9, 0x20AC, 0x1F600]"
    by code_simp
  show ?thesis
    using a charset_roundtrip[OF a] by blast
qed

section \<open>Malformed input\<close>

text \<open>The byte that interrupts a sequence is left in the source, but the source size has already been
  lowered for it: at the end of a sized source it is dropped.  Without a size it is read again.\<close>

lemma interrupted_sequence_loses_byte:
  "grub_utf8_to_ucs4 9 [0xC3, 0x41] (Some 2) = Some ([0x3F], [0x41])"
  "grub_utf8_to_ucs4 9 [0xC3, 0x41, 0] None = Some ([0x3F, 0x41], [])"
  by code_simp+

lemma lone_upper_surrogate_loses_unit: "grub_utf16_to_utf8 [0xD800, 0x41] 2 = Some [0x3F]"
  by code_simp

text \<open>The encoding of a surrogate passes for valid, though no character encodes to it.\<close>

lemma surrogate_is_valid_utf8:
  "grub_is_valid_utf8 [0xED, 0xA0, 0x80] (Some 3) = Some True"
  "grub_encode_utf8_character 4 0xD800 = Inl Invalid_Char"
  by code_simp+


section \<open>Cutting a text\<close>

text \<open>The number of bytes that a first byte announces, by the tests of \<open>grub_getend\<close>.\<close>

definition announces :: "u8 \<Rightarrow> nat \<Rightarrow> bool" where
  "announces b n \<longleftrightarrow> b AND 0xC0 \<noteq> 0x80 \<and>
    (if b AND 0x80 = 0 then n = 1 else if b AND 0xE0 = 0xC0 then n = 2
     else if b AND 0xF0 = 0xE0 then n = 3 else b AND 0xF8 = 0xF0 \<and> n = 4)"

lemma announces_of:
  assumes "unat (t :: u32) < m" and "list_all (\<lambda>i. announces (f (word_of_nat i)) n) [0..<m]"
  shows "announces (f t) n"
  using below_all[of "\<lambda>t. announces (f t) n", OF assms(2,1)] .

lemma utf8_shape:
  assumes c: "unicode_scalar c"
  shows "announces (hd (utf8 c)) (length (utf8 c)) \<and> list_all (\<lambda>b. b AND 0xC0 = 0x80) (tl (utf8 c))"
  using utf8_cases[OF c]
proof (elim disjE conjE)
  assume "c \<le> 0x7F" and bs: "utf8 c = [ucast c]"
  then show ?thesis
    by (auto simp: bs word_le_nat_alt intro!: announces_of[where m = 128]) code_simp
next
  assume "0x7F < c" "c \<le> 0x7FF"
    and bs: "utf8 c = [ucast (drop_bit 6 c OR 0xC0), ucast (c AND 0x3F OR 0x80)]"
  then have t: "unat (drop_bit 6 c) < 32"
    by (simp add: unat_drop_bit word_le_nat_alt)
  have "announces (ucast (drop_bit 6 c OR 0xC0)) 2"
    by (rule announces_of[OF t, where f = "\<lambda>t. ucast (t OR 0xC0)"]) code_simp
  then show ?thesis
    using trailing_byte[OF low6] by (simp add: bs numeral_2_eq_2)
next
  assume "0x7FF < c" "c < 0x10000"
    and bs: "utf8 c = [ucast (drop_bit 12 c OR 0xE0), ucast (drop_bit 6 c AND 0x3F OR 0x80), ucast (c AND 0x3F OR 0x80)]"
  then have t: "unat (drop_bit 12 c) < 16"
    by (simp add: unat_drop_bit word_less_nat_alt)
  have "announces (ucast (drop_bit 12 c OR 0xE0)) 3"
    by (rule announces_of[OF t, where f = "\<lambda>t. ucast (t OR 0xE0)"]) code_simp
  then show ?thesis
    using trailing_byte[OF low6] by (simp add: bs numeral_3_eq_3)
next
  assume "0x10000 \<le> c" "c \<le> 0x10FFFF" and bs: "utf8 c = four_bytes c"
  then have t: "unat (drop_bit 18 c) < 8"
    by (simp add: unat_drop_bit word_le_nat_alt)
  have "announces (ucast (drop_bit 18 c OR 0xF0)) 4"
    by (rule announces_of[OF t, where f = "\<lambda>t. ucast (t OR 0xF0)"]) code_simp
  then show ?thesis
    using trailing_byte[OF low6] by (simp add: bs four_bytes_def eval_nat_numeral)
qed

lemma getend_scan_continue:
  "(\<And>i. i < j \<Longrightarrow> bytes ! (m + i) AND 0xC0 = 0x80) \<Longrightarrow> getend_scan bytes (m + j) = getend_scan bytes m"
  by (induction j) auto

lemma grub_getend_last:
  assumes c: "unicode_scalar c" and p: "p \<noteq> []" "p = take j (utf8 c)"
  shows "grub_getend (A @ p) = (if p = utf8 c then length A + length p else length A)"
proof -
  obtain b t where u: "utf8 c = b # t"
    using utf8_size[OF c] by (cases "utf8 c") auto
  have b: "announces b (Suc (length t))" and t: "list_all (\<lambda>b. b AND 0xC0 = 0x80) t"
    using utf8_shape[OF c] by (simp_all add: u)
  obtain i where q: "p = b # take i t"
    using p by (cases j) (auto simp: u)
  let ?bytes = "A @ p"
  have "getend_scan ?bytes (Suc (length A) + length (take i t)) = getend_scan ?bytes (Suc (length A))"
    using t by (intro getend_scan_continue) (simp add: q list_all_length nth_append)
  also have "\<dots> = Some (length A)"
    using b by (simp add: q announces_def)
  finally have s: "getend_scan ?bytes (length ?bytes) = Some (length A)"
    by (simp add: q)
  have e: "p = utf8 c \<longleftrightarrow> Suc (length t) \<le> length p"
    by (auto simp: q u take_all_iff)
  have le: "Suc 0 \<le> length p" "length p \<le> Suc (length t)"
    by (simp_all add: q)
  have n: "?bytes ! length A = b"
    by (simp add: q)
  show ?thesis
    unfolding grub_getend_def s e option.case n Let_def
    using b le by (auto simp: announces_def simp del: Suc_le_eq split: if_splits intro: le_antisym)
qed


lemma utf8_text_cut:
  "n < length (utf8_text cs) \<Longrightarrow> \<exists>k j. k < length cs \<and> j < length (utf8 (cs ! k)) \<and>
    take n (utf8_text cs) = utf8_text (take k cs) @ take j (utf8 (cs ! k)) \<and>
    n = length (utf8_text (take k cs)) + j"
proof (induction cs arbitrary: n)
  case (Cons c cs)
  show ?case
  proof (cases "n < length (utf8 c)")
    case True
    then show ?thesis
      by (intro exI[of _ 0] exI[of _ n]) simp
  next
    case False
    then have "n - length (utf8 c) < length (utf8_text cs)"
      using Cons.prems by simp
    from Cons.IH[OF this] obtain k j where "k < length cs" "j < length (utf8 (cs ! k))"
      "take (n - length (utf8 c)) (utf8_text cs) = utf8_text (take k cs) @ take j (utf8 (cs ! k))"
      "n - length (utf8 c) = length (utf8_text (take k cs)) + j"
      by blast
    then show ?thesis
      using False by (intro exI[of _ "Suc k"] exI[of _ j]) auto
  qed
qed simp

lemma grub_getend_whole:
  assumes "list_all unicode_scalar cs"
  shows "grub_getend (utf8_text cs) = length (utf8_text cs)"
proof (cases cs rule: rev_cases)
  case Nil
  then show ?thesis
    by (simp add: grub_getend_def)
next
  case (snoc cs' c)
  then have c: "unicode_scalar c"
    using assms by simp
  show ?thesis
    using grub_getend_last[OF c _ take_all[symmetric, OF order_refl], of "utf8_text cs'"] utf8_size[OF c]
    by (simp add: snoc)
qed

text \<open>C29. \<open>grub_getend\<close> finds where a text that has been cut anywhere can be cut safely: for the first \<open>n\<close> bytes of
  the encoding of a text it gives the end of a whole number of characters, and of no fewer than fit in
  those bytes.\<close>

theorem grub_getend_correct:
  assumes "list_all unicode_scalar cs" and "n \<le> length (utf8_text cs)"
  shows "\<exists>k. k \<le> length cs \<and> grub_getend (take n (utf8_text cs)) = length (utf8_text (take k cs))
    \<and> length (utf8_text (take k cs)) \<le> n \<and> (k < length cs \<longrightarrow> n < length (utf8_text (take (Suc k) cs)))"
proof (cases "n = length (utf8_text cs)")
  case True
  then show ?thesis
    using grub_getend_whole[OF assms(1)] by (intro exI[of _ "length cs"]) simp
next
  case False
  then obtain k j where k: "k < length cs" and j: "j < length (utf8 (cs ! k))"
    and t: "take n (utf8_text cs) = utf8_text (take k cs) @ take j (utf8 (cs ! k))"
    and n: "n = length (utf8_text (take k cs)) + j"
    using utf8_text_cut[of n cs] assms(2) by auto
  have c: "unicode_scalar (cs ! k)" and ks: "list_all unicode_scalar (take k cs)"
    using assms(1) k by (auto simp: list_all_length)
  have "grub_getend (take n (utf8_text cs)) = length (utf8_text (take k cs))"
  proof (cases "j = 0")
    case True
    then show ?thesis
      using grub_getend_whole[OF ks] by (simp add: t)
  next
    case False
    then show ?thesis
      using grub_getend_last[OF c _ refl, of j "utf8_text (take k cs)"] j unfolding t
      by (cases "utf8 (cs ! k)") (auto simp: take_all_iff)
  qed
  then show ?thesis
    using k j n by (intro exI[of _ k]) (simp add: take_Suc_conv_app_nth)
qed

theorem grub_getend_correct_witness:
  "grub_getend (take 4 (utf8_text [0x41, 0x20AC, 0x20AC])) = 4
    \<and> (\<exists>k. k \<le> length [0x41, 0x20AC, 0x20AC :: u32] \<and>
      grub_getend (take 6 (utf8_text [0x41, 0x20AC, 0x20AC])) = length (utf8_text (take k [0x41, 0x20AC, 0x20AC])))"
proof -
  have a: "list_all unicode_scalar [0x41, 0x20AC, 0x20AC]" "6 \<le> length (utf8_text [0x41, 0x20AC, 0x20AC])"
    by code_simp+
  have "grub_getend (take 4 (utf8_text [0x41, 0x20AC, 0x20AC])) = 4"
    by code_simp
  then show ?thesis
    using grub_getend_correct[OF a] by blast
qed

end
