(* ===== verification/GrubMM.thy ===== *)
theory GrubMM
  imports GrubMemory GrubBuffer
begin

text \<open>
  The heap of the boot loader: \<open>kern/mm.c\<close> and \<open>include/grub/mm_private.h\<close>, on the 32-bit target.

  Memory is divided into cells of 16 bytes, and a block is a header cell followed by its data.  A header
  pointer is the number of its cell (its address divided by 16; 0 is NULL), so that \<open>cur + k\<close> of the
  source is the cell \<open>k\<close> further.  A pointer that the program holds is a 32-bit address.  Block headers
  (\<open>mm_hdr\<close>) and the program's bytes (\<open>mm_bytes\<close>) are two maps, because they never share a cell; the
  regions are the list that their \<open>next\<close> pointers link.

  A loop along the ring of free blocks may never end when the ring is broken: its result is then
  \<open>None\<close>.  A call of \<open>grub_fatal\<close> is the result \<open>Inl\<close>.
\<close>

record grub_mm_header =
  hdr_next :: nat
  hdr_size :: nat
  hdr_magic :: u32

record grub_mm_region =
  reg_addr :: nat
  reg_first :: nat
  reg_pre_size :: u32
  reg_post_size :: u32
  reg_size :: u32

record mm_state =
  mm_base :: "grub_mm_region list"
  mm_hdr :: "nat \<Rightarrow> grub_mm_header"
  mm_bytes :: mem

type_synonym headers = "nat \<Rightarrow> grub_mm_header"

datatype mm_fatal =
    Unaligned_Pointer | Out_Of_Range_Pointer | Double_Free | Alloc_Magic_Broken
  | Null_In_Ring | Free_Magic_Broken

definition GRUB_MM_FREE_MAGIC :: u32 where "GRUB_MM_FREE_MAGIC = 0x2d3c2808"

definition GRUB_MM_ALLOC_MAGIC :: u32 where "GRUB_MM_ALLOC_MAGIC = 0x6db08fa4"

abbreviation set_next :: "nat \<Rightarrow> nat \<Rightarrow> headers \<Rightarrow> headers" where
  "set_next c v h \<equiv> h(c := (h c)\<lparr>hdr_next := v\<rparr>)"

abbreviation set_size :: "nat \<Rightarrow> nat \<Rightarrow> headers \<Rightarrow> headers" where
  "set_size c v h \<equiv> h(c := (h c)\<lparr>hdr_size := v\<rparr>)"

abbreviation set_magic :: "nat \<Rightarrow> u32 \<Rightarrow> headers \<Rightarrow> headers" where
  "set_magic c v h \<equiv> h(c := (h c)\<lparr>hdr_magic := v\<rparr>)"

text \<open>The address of a cell, and the address after a region's descriptor, which takes two cells.\<close>

abbreviation cell_addr :: "nat \<Rightarrow> u32" where
  "cell_addr c \<equiv> of_nat (16 * c)"

definition reg_start :: "grub_mm_region \<Rightarrow> nat" where
  "reg_start r = 16 * (reg_addr r + 2)"


section \<open>Pointers and headers\<close>

text \<open>The index of the first region that contains a pointer.\<close>

fun region_of :: "nat \<Rightarrow> grub_mm_region list \<Rightarrow> nat \<Rightarrow> nat option" where
  "region_of ptr [] i = None"
| "region_of ptr (r # rs) i =
    (if ptr > reg_start r \<and> ptr \<le> reg_start r + unat (reg_size r) then Some i
     else region_of ptr rs (Suc i))"

definition get_header_from_pointer :: "u32 \<Rightarrow> mm_state \<Rightarrow> mm_fatal + (nat \<times> nat)" where
  "get_header_from_pointer ptr s =
    (if ptr AND 15 \<noteq> 0 then Inl Unaligned_Pointer
     else case region_of (unat ptr) (mm_base s) 0 of
       None \<Rightarrow> Inl Out_Of_Range_Pointer
     | Some r \<Rightarrow>
         (let p = unat ptr div 16 - 1 in
          if hdr_magic (mm_hdr s p) = GRUB_MM_FREE_MAGIC then Inl Double_Free
          else if hdr_magic (mm_hdr s p) \<noteq> GRUB_MM_ALLOC_MAGIC then Inl Alloc_Magic_Broken
          else Inr (p, r)))"


section \<open>Allocation\<close>

text \<open>Taking \<open>n\<close> cells from the free block \<open>cur\<close>: the data pointer, the new start of the search, and the
  headers.  The bits of \<open>sz - extra - n\<close> above those of \<open>align - 1\<close> are what is left without them.\<close>

definition take_block :: "nat \<Rightarrow> nat \<Rightarrow> nat \<Rightarrow> nat \<Rightarrow> nat \<Rightarrow> nat \<Rightarrow> headers \<Rightarrow> nat \<times> nat \<times> headers" where
  "take_block first n align prev cur extra h =
    (let sz = hdr_size (h cur);
         extra = extra + ((sz - extra - n) - ((sz - extra - n) AND (align - 1)));
         (prev, cur, h) =
           (if extra = 0 \<and> sz = n then (prev, cur, set_next prev (hdr_next (h cur)) h)
            else if align = 1 \<or> sz = n + extra then (prev, cur + (sz - n), set_size cur (sz - n) h)
            else if extra = 0
            then (let r = cur + extra + n;
                      h = h(r := \<lparr>hdr_next = hdr_next (h cur), hdr_size = sz - extra - n,
                                  hdr_magic = GRUB_MM_FREE_MAGIC\<rparr>);
                      h = set_next prev r h
                  in if prev = cur then (r, cur, set_next r r h) else (prev, cur, h))
            else (let r = cur + extra + n;
                      h = h(r := \<lparr>hdr_next = cur, hdr_size = sz - extra - n,
                                  hdr_magic = GRUB_MM_FREE_MAGIC\<rparr>);
                      h = set_size cur extra h;
                      h = set_next prev r h
                  in (prev, cur + extra, h)));
         h = h(cur := (h cur)\<lparr>hdr_magic := GRUB_MM_ALLOC_MAGIC, hdr_size := n\<rparr>)
     in (cur + 1, (if n < 0x8000 div 16 \<or> first = cur then prev else first), h))"

text \<open>The cells to skip so that the data of \<open>cur\<close> is aligned.\<close>

definition align_extra :: "nat \<Rightarrow> nat \<Rightarrow> nat" where
  "align_extra align cur =
    (let extra = (cur + 1) AND (align - 1) in if extra \<noteq> 0 then align - extra else 0)"

partial_function (option) real_malloc_loop ::
    "nat \<Rightarrow> nat \<Rightarrow> nat \<Rightarrow> nat \<Rightarrow> nat \<Rightarrow> headers \<Rightarrow> (mm_fatal + (nat \<times> nat \<times> headers)) option" where
  "real_malloc_loop first n align prev cur h =
    (let extra = align_extra align cur in
     if cur = 0 then Some (Inl Null_In_Ring)
     else if hdr_magic (h cur) \<noteq> GRUB_MM_FREE_MAGIC then Some (Inl Free_Magic_Broken)
     else if hdr_size (h cur) \<ge> n + extra then Some (Inr (take_block first n align prev cur extra h))
     else if cur = first then Some (Inr (0, first, h))
     else real_malloc_loop first n align cur (hdr_next (h cur)) h)"

text \<open>The cell of the data, 0 when there is none, with the new \<open>*first\<close> and the headers.\<close>

definition grub_real_malloc ::
    "nat \<Rightarrow> nat \<Rightarrow> nat \<Rightarrow> headers \<Rightarrow> (mm_fatal + (nat \<times> nat \<times> headers)) option" where
  "grub_real_malloc first n align h =
    (if hdr_magic (h first) = GRUB_MM_ALLOC_MAGIC then Some (Inr (0, first, h))
     else real_malloc_loop first n align first (hdr_next (h first)) h)"

text \<open>The loop of \<open>grub_memalign\<close> over the regions.\<close>

fun malloc_regions ::
    "nat \<Rightarrow> nat \<Rightarrow> grub_mm_region list \<Rightarrow> headers \<Rightarrow> (mm_fatal + (nat \<times> grub_mm_region list \<times> headers)) option" where
  "malloc_regions n align [] h = Some (Inr (0, [], h))"
| "malloc_regions n align (r # rs) h =
    (case grub_real_malloc (reg_first r) n align h of
       None \<Rightarrow> None
     | Some (Inl e) \<Rightarrow> Some (Inl e)
     | Some (Inr (p, first, h)) \<Rightarrow>
         if p \<noteq> 0 then Some (Inr (p, r\<lparr>reg_first := first\<rparr> # rs, h))
         else map_option (map_sum id (\<lambda>(p, rs, h). (p, r\<lparr>reg_first := first\<rparr> # rs, h)))
                (malloc_regions n align rs h))"

text \<open>What the allocator calls when it has no room: \<open>grub_mm_add_region_fn\<close>, which the platform may set,
  with the size and whether the memory must be consecutive, and the disk cache.\<close>

record mm_env =
  add_region_fn :: "(u32 \<Rightarrow> bool \<Rightarrow> mm_state \<Rightarrow> grub_err_t \<times> mm_state) option"
  cache_invalidate :: "mm_state \<Rightarrow> mm_state"

definition GRUB_MM_MGMT_OVERHEAD :: u32 where
  "GRUB_MM_MGMT_OVERHEAD = (16 - 1) + 32 + 16 + (16 - 1)"

text \<open>The size by which the heap has to grow, unless it is unreasonable.\<close>

definition heap_growth :: "u32 \<Rightarrow> u32 option" where
  "heap_growth grow =
    (case grub_add grow GRUB_MM_MGMT_OVERHEAD of
       None \<Rightarrow> None
     | Some grow \<Rightarrow>
         (let grow = (if grow > 0x100000 then grow else 0x100000) in
          if grow > NOT (4096 - 1) then None
          else let grow = (grow + 4096 - 1) AND NOT (4096 - 1)
               in if grow > NOT 0x100000 then None else Some grow))"

text \<open>From the label \<open>again\<close> on; \<open>grow\<close> is the size before \<open>heap_growth\<close> while \<open>count\<close> is 0.  The result is the
  data pointer, NULL after an out-of-memory error.\<close>

function memalign_again ::
    "mm_env \<Rightarrow> nat \<Rightarrow> nat \<Rightarrow> nat \<Rightarrow> u32 \<Rightarrow> mm_state \<Rightarrow> (mm_fatal + (u32 \<times> mm_state)) option" where
  "memalign_again env n align count grow s =
    (case malloc_regions n align (mm_base s) (mm_hdr s) of
       None \<Rightarrow> None
     | Some (Inl e) \<Rightarrow> Some (Inl e)
     | Some (Inr (p, rs, h)) \<Rightarrow>
         (let s = s\<lparr>mm_base := rs, mm_hdr := h\<rparr> in
          if p \<noteq> 0 then Some (Inr (cell_addr p, s))
          else if count \<ge> 3 then Some (Inr (0, s))
          else if count = 0
          then (case heap_growth grow of
                  None \<Rightarrow> Some (Inr (0, s))
                | Some grow \<Rightarrow>
                    (case add_region_fn env of
                       None \<Rightarrow> memalign_again env n align 3 grow (cache_invalidate env s)
                     | Some f \<Rightarrow>
                         (case f grow True s of
                            (e, s) \<Rightarrow>
                              if e = GRUB_ERR_NONE then memalign_again env n align 1 grow s
                              else memalign_again env n align 2 grow (snd (f grow False s)))))
          else if count = 1
          then (case add_region_fn env of
                  None \<Rightarrow> memalign_again env n align 3 grow (cache_invalidate env s)
                | Some f \<Rightarrow> memalign_again env n align 2 grow (snd (f grow False s)))
          else memalign_again env n align 3 grow (cache_invalidate env s)))"
  by pat_completeness auto

termination memalign_again
  by (relation "measure (\<lambda>(env, n, align, count, grow, s). 3 - count)") auto

declare memalign_again.simps [simp del]

text \<open>The number of cells of a block for \<open>sz\<close> bytes of data, in 32 bits.\<close>

definition cells_for :: "u32 \<Rightarrow> u32" where
  "cells_for sz = drop_bit 4 (sz + 16 - 1) + 1"

definition grub_memalign ::
    "mm_env \<Rightarrow> u32 \<Rightarrow> u32 \<Rightarrow> mm_state \<Rightarrow> (mm_fatal + (u32 \<times> mm_state)) option" where
  "grub_memalign env align sz s =
    (let n = cells_for sz in
     if mm_base s = [] then Some (Inr (0, s))
     else if sz > NOT align then Some (Inr (0, s))
     else let grow = sz + align in
       if grow > NOT 0x100000 then Some (Inr (0, s))
       else let align = drop_bit 4 align; align = (if align = 0 then 1 else align)
            in memalign_again env (unat n) (unat align) 0 grow s)"

definition grub_malloc :: "mm_env \<Rightarrow> u32 \<Rightarrow> mm_state \<Rightarrow> (mm_fatal + (u32 \<times> mm_state)) option" where
  "grub_malloc env sz s = grub_memalign env 0 sz s"

text \<open>Clearing what was allocated, when something was.\<close>

definition clear_new :: "nat \<Rightarrow> u32 \<times> mm_state \<Rightarrow> u32 \<times> mm_state" where
  "clear_new sz = (\<lambda>(ret, s).
    (ret, if ret \<noteq> 0 then s\<lparr>mm_bytes := grub_memset ret 0 sz (mm_bytes s)\<rparr> else s))"

definition grub_zalloc :: "mm_env \<Rightarrow> u32 \<Rightarrow> mm_state \<Rightarrow> (mm_fatal + (u32 \<times> mm_state)) option" where
  "grub_zalloc env sz s = map_option (map_sum id (clear_new (unat sz))) (grub_memalign env 0 sz s)"

text \<open>\<open>grub_mul\<close> reports an overflow of the product; the error is then out of range.\<close>

definition grub_calloc ::
    "mm_env \<Rightarrow> u32 \<Rightarrow> u32 \<Rightarrow> mm_state \<Rightarrow> (mm_fatal + (u32 \<times> mm_state)) option" where
  "grub_calloc env nmemb sz s =
    (if unat nmemb * unat sz \<ge> 2 ^ 32 then Some (Inr (0, s))
     else let total = nmemb * sz
          in map_option (map_sum id (clear_new (unat total))) (grub_memalign env 0 total s))"


section \<open>Freeing\<close>

text \<open>The place in the ring, which goes from high to low addresses, after which \<open>p\<close> belongs.\<close>

partial_function (option) free_loop :: "nat \<Rightarrow> nat \<Rightarrow> nat \<Rightarrow> headers \<Rightarrow> (mm_fatal + (nat \<times> nat)) option" where
  "free_loop p prev cur h =
    (if cur \<le> p \<or> hdr_next (h cur) \<ge> p
     then (if hdr_magic (h cur) \<noteq> GRUB_MM_FREE_MAGIC then Some (Inl Free_Magic_Broken)
           else if cur \<le> hdr_next (h cur) \<and> (cur > p \<or> hdr_next (h cur) < p) then Some (Inr (prev, cur))
           else free_loop p cur (hdr_next (h cur)) h)
     else Some (Inr (prev, cur)))"

text \<open>Inserting \<open>p\<close> after \<open>cur\<close> and merging it with its neighbours: the new \<open>first\<close> and the headers.\<close>

definition merge_next :: "nat \<Rightarrow> nat \<Rightarrow> headers \<Rightarrow> nat \<times> headers" where
  "merge_next p cur h =
    (let q = hdr_next (h p) in
     if q + hdr_size (h q) = p
     then (let h = set_magic p 0 h;
               h = set_size q (hdr_size (h q) + hdr_size (h p)) h;
               h = set_next cur q h
           in (q, h))
     else (p, h))"

definition merge_prev :: "nat \<Rightarrow> nat \<Rightarrow> nat \<Rightarrow> headers \<Rightarrow> nat \<times> headers" where
  "merge_prev p prev cur h =
    (if cur = p + hdr_size (h p)
     then (let h = set_magic cur 0 h;
               h = set_size p (hdr_size (h p) + hdr_size (h cur)) h;
               prev = (if cur = prev then p else prev);
               h = set_next prev p h
           in (prev, h))
     else (cur, h))"

definition free_link :: "nat \<Rightarrow> nat \<Rightarrow> nat \<Rightarrow> headers \<Rightarrow> nat \<times> headers" where
  "free_link p prev cur h =
    (let h = h(p := (h p)\<lparr>hdr_magic := GRUB_MM_FREE_MAGIC, hdr_next := hdr_next (h cur)\<rparr>);
         h = set_next cur p h;
         (p, h) = merge_next p cur h
     in merge_prev p prev cur h)"

text \<open>Freeing the block \<open>p\<close> of a region that starts its searches at \<open>first\<close>.\<close>

definition free_block :: "nat \<Rightarrow> nat \<Rightarrow> headers \<Rightarrow> (mm_fatal + (nat \<times> headers)) option" where
  "free_block p first h =
    (if hdr_magic (h first) = GRUB_MM_ALLOC_MAGIC
     then Some (Inr (p, h(p := (h p)\<lparr>hdr_magic := GRUB_MM_FREE_MAGIC, hdr_next := p\<rparr>)))
     else case free_loop p first (hdr_next (h first)) h of
       None \<Rightarrow> None
     | Some (Inl e) \<Rightarrow> Some (Inl e)
     | Some (Inr (prev, cur)) \<Rightarrow> Some (Inr (free_link p prev cur h)))"

definition grub_free :: "u32 \<Rightarrow> mm_state \<Rightarrow> (mm_fatal + mm_state) option" where
  "grub_free ptr s =
    (if ptr = 0 then Some (Inr s)
     else case get_header_from_pointer ptr s of
       Inl e \<Rightarrow> Some (Inl e)
     | Inr (p, r) \<Rightarrow>
         map_option (map_sum id (\<lambda>(first, h).
             s\<lparr>mm_base := (mm_base s)[r := (mm_base s ! r)\<lparr>reg_first := first\<rparr>], mm_hdr := h\<rparr>))
           (free_block p (reg_first (mm_base s ! r)) (mm_hdr s)))"

definition grub_realloc ::
    "mm_env \<Rightarrow> u32 \<Rightarrow> u32 \<Rightarrow> mm_state \<Rightarrow> (mm_fatal + (u32 \<times> mm_state)) option" where
  "grub_realloc env ptr sz s =
    (if ptr = 0 then grub_malloc env sz s
     else if sz = 0 then map_option (map_sum id (Pair 0)) (grub_free ptr s)
     else case get_header_from_pointer ptr s of
       Inl e \<Rightarrow> Some (Inl e)
     | Inr (p, r) \<Rightarrow>
         if hdr_size (mm_hdr s p) \<ge> unat (cells_for sz) then Some (Inr (ptr, s))
         else case grub_malloc env sz s of
           None \<Rightarrow> None
         | Some (Inl e) \<Rightarrow> Some (Inl e)
         | Some (Inr (q, s)) \<Rightarrow>
             if q = 0 then Some (Inr (q, s))
             else let s = s\<lparr>mm_bytes := grub_memcpy q ptr (16 * hdr_size (mm_hdr s p)) (mm_bytes s)\<rparr>
                  in map_option (map_sum id (Pair q)) (grub_free ptr s))"


section \<open>Regions\<close>

text \<open>The first region that the new memory lies directly below (\<open>True\<close>) or above.\<close>

fun find_adjacent :: "u32 \<Rightarrow> u32 \<Rightarrow> grub_mm_region list \<Rightarrow> nat \<Rightarrow> (nat \<times> bool) option" where
  "find_adjacent addr sz [] i = None"
| "find_adjacent addr sz (q # qs) i =
    (if addr + sz + reg_pre_size q = cell_addr (reg_addr q) then Some (i, True)
     else if cell_addr (reg_addr q) + 32 + reg_size q + reg_post_size q = addr then Some (i, False)
     else find_adjacent addr sz qs (Suc i))"

definition align_up :: "u32 \<Rightarrow> u32" where
  "align_up addr = (addr + 16 - 1) AND NOT (16 - 1)"

definition extend_below :: "u32 \<Rightarrow> u32 \<Rightarrow> nat \<Rightarrow> mm_state \<Rightarrow> (mm_fatal + mm_state) option" where
  "extend_below addr sz i s =
    (let r = (mm_base s ! i)\<lparr>reg_addr := unat (align_up addr) div 16,
                reg_pre_size := reg_pre_size (mm_base s ! i) + sz\<rparr>;
         cells = drop_bit 4 (reg_pre_size r)
     in if cells \<noteq> 0
        then (let h = reg_addr r + 2;
                  s = s\<lparr>mm_hdr := (mm_hdr s)(h := (mm_hdr s h)\<lparr>hdr_size := unat cells,
                          hdr_magic := GRUB_MM_ALLOC_MAGIC\<rparr>)\<rparr>;
                  r = r\<lparr>reg_size := reg_size r + push_bit 4 cells, reg_pre_size := reg_pre_size r AND (16 - 1)\<rparr>
              in grub_free (cell_addr (h + 1)) (s\<lparr>mm_base := (mm_base s)[i := r]\<rparr>))
        else Some (Inr (s\<lparr>mm_base := (mm_base s)[i := r]\<rparr>)))"

definition extend_above :: "u32 \<Rightarrow> u32 \<Rightarrow> nat \<Rightarrow> mm_state \<Rightarrow> (mm_fatal + mm_state) option" where
  "extend_above addr sz i s =
    (let q = mm_base s ! i;
         h = unat (addr - reg_post_size q) div 16;
         cells = drop_bit 4 (sz + reg_post_size q);
         s = s\<lparr>mm_hdr := (mm_hdr s)(h := (mm_hdr s h)\<lparr>hdr_size := unat cells,
                 hdr_magic := GRUB_MM_ALLOC_MAGIC\<rparr>)\<rparr>;
         q = q\<lparr>reg_size := reg_size q + push_bit 4 cells,
               reg_post_size := (reg_post_size q + sz) AND (16 - 1)\<rparr>
     in grub_free (cell_addr (h + 1)) (s\<lparr>mm_base := (mm_base s)[i := q]\<rparr>))"

text \<open>Smaller regions come first.\<close>

fun insert_region :: "grub_mm_region \<Rightarrow> grub_mm_region list \<Rightarrow> grub_mm_region list" where
  "insert_region r [] = [r]"
| "insert_region r (q # qs) = (if reg_size q > reg_size r then r # q # qs else q # insert_region r qs)"

definition new_region :: "u32 \<Rightarrow> u32 \<Rightarrow> mm_state \<Rightarrow> mm_state" where
  "new_region addr sz s =
    (let r = align_up addr in
     if sz < 16 + r - addr + 32 then s
     else let sz = sz - (r - addr + 32);
              h = unat r div 16 + 2;
              cells = drop_bit 4 sz;
              rsize = push_bit 4 cells
          in s\<lparr>mm_hdr := (mm_hdr s)(h := \<lparr>hdr_next = h, hdr_size = unat cells, hdr_magic = GRUB_MM_FREE_MAGIC\<rparr>),
               mm_base := insert_region \<lparr>reg_addr = unat r div 16, reg_first = h, reg_pre_size = r - addr,
                            reg_post_size = sz - rsize, reg_size = rsize\<rparr> (mm_base s)\<rparr>)"

definition grub_mm_init_region :: "u32 \<Rightarrow> u32 \<Rightarrow> mm_state \<Rightarrow> (mm_fatal + mm_state) option" where
  "grub_mm_init_region addr sz s =
    (if addr > NOT 0x1000 then Some (Inr s)
     else let sz = (if addr + 0x1000 > NOT sz then - 0x1000 - addr else sz)
          in case find_adjacent addr sz (mm_base s) 0 of
               Some (i, True) \<Rightarrow> extend_below addr sz i s
             | Some (i, False) \<Rightarrow> extend_above addr sz i s
             | None \<Rightarrow> Some (Inr (new_region addr sz s)))"

end
