(* ===== verification/GrubRing.thy ===== *)
theory GrubRing
  imports Main
begin

text \<open>
  Rings of addresses.  The free blocks of a heap region are linked in a ring from high to low addresses,
  from the lowest back to the highest.  The ring of a finite set is given by its successor function; the
  lemmas say how the successors change when an address enters or leaves, and how a walk along the ring
  proceeds.
\<close>

definition nxt :: "nat set \<Rightarrow> nat \<Rightarrow> nat" where
  "nxt F f = (if \<exists>g\<in>F. g < f then Max {g \<in> F. g < f} else Max F)"

text \<open>The element after which a new one belongs.\<close>

definition prd :: "nat set \<Rightarrow> nat \<Rightarrow> nat" where
  "prd F p = (if \<exists>f\<in>F. p < f then Min {f \<in> F. p < f} else Min F)"

lemma nxt_below:
  assumes "finite F" "g \<in> F" "g < f"
  shows "nxt F f \<in> F" "nxt F f < f" "\<And>x. x \<in> F \<Longrightarrow> x < f \<Longrightarrow> x \<le> nxt F f"
proof -
  have "Max {g \<in> F. g < f} \<in> {g \<in> F. g < f}"
    using assms by (intro Max_in) auto
  moreover have "nxt F f = Max {g \<in> F. g < f}"
    using assms by (auto simp: nxt_def)
  ultimately show "nxt F f \<in> F" "nxt F f < f"
    by auto
  show "x \<le> nxt F f" if "x \<in> F" "x < f" for x
    using that assms \<open>nxt F f = _\<close> by (simp add: Max_ge_iff)
qed

lemma nxt_wraps: "\<forall>g\<in>F. f \<le> g \<Longrightarrow> nxt F f = Max F"
  by (auto simp: nxt_def)

lemma nxt_in [simp]: "finite F \<Longrightarrow> f \<in> F \<Longrightarrow> nxt F f \<in> F"
proof (cases "\<exists>g\<in>F. g < f")
  case True
  assume "finite F"
  with True show ?thesis by (auto intro: nxt_below(1))
next
  case False
  assume "finite F" "f \<in> F"
  then have "Max F \<in> F" by (intro Max_in) auto
  with False show ?thesis by (simp add: nxt_def)
qed

lemma nxt_eqI:
  assumes "finite F" "x \<in> F" "x < f" "\<And>g. g \<in> F \<Longrightarrow> g < f \<Longrightarrow> g \<le> x"
  shows "nxt F f = x"
  using nxt_below[OF assms(1-3)] assms by (intro le_antisym) auto

lemma nxt_wrapI:
  assumes "finite F" "x \<in> F" "\<And>g. g \<in> F \<Longrightarrow> f \<le> g \<and> g \<le> x"
  shows "nxt F f = x"
  using assms by (auto simp: nxt_wraps intro!: Max_eqI)

lemma nxt_cases:
  assumes "finite F" "f \<in> F"
  obtains (down) "nxt F f < f" "\<And>g. g \<in> F \<Longrightarrow> g < f \<Longrightarrow> g \<le> nxt F f"
  | (wrap) "\<And>g. g \<in> F \<Longrightarrow> f \<le> g \<and> g \<le> nxt F f"
proof (cases "\<exists>g\<in>F. g < f")
  case True
  then show ?thesis
    using nxt_below[OF assms(1)] down by blast
next
  case False
  then have "\<And>g. g \<in> F \<Longrightarrow> f \<le> g \<and> g \<le> nxt F f"
    using assms(1) by (auto simp: nxt_wraps not_less)
  then show ?thesis
    by (rule wrap)
qed

lemma nxt_inj:
  assumes "finite F" "f \<in> F" "g \<in> F" "nxt F f = nxt F g"
  shows "f = g"
proof -
  have "\<not> a < b" if "a \<in> F" "b \<in> F" "nxt F a = nxt F b" for a b
  proof
    assume ab: "a < b"
    have "a \<le> nxt F b" "nxt F b < b"
      using nxt_below[OF assms(1) \<open>a \<in> F\<close> ab] \<open>a \<in> F\<close> ab by auto
    then show False
      using nxt_cases[OF assms(1) \<open>a \<in> F\<close>] that(2,3) by (metis leD)
  qed
  from this[of f g] this[of g f] assms show ?thesis
    by auto
qed

text \<open>A walk along the ring comes to every element.\<close>

lemma ring_induct:
  assumes "finite F" "c \<in> F" "f \<in> F"
    and base: "P c" and step: "\<And>f. f \<in> F \<Longrightarrow> f \<noteq> c \<Longrightarrow> P (nxt F f) \<Longrightarrow> P f"
  shows "P f"
proof -
  have up: "P g" if "g \<in> F" "c \<le> g" for g
    using that
  proof (induction g rule: less_induct)
    case (less g)
    show ?case
    proof (cases "g = c")
      case True
      then show ?thesis by (simp add: base)
    next
      case False
      then have "c < g"
        using less.prems by simp
      then have "P (nxt F g)"
        using nxt_below[OF assms(1) assms(2)] assms(2) by (intro less.IH) auto
      then show ?thesis
        using step less.prems False by blast
    qed
  qed
  have "P g" if "g \<in> F" "g < c" for g
    using that
  proof (induction g rule: less_induct)
    case (less g)
    have "P (nxt F g)"
      using assms(1) less.prems(1)
    proof (cases rule: nxt_cases)
      case down
      then show ?thesis
        using less assms(1) by (intro less.IH) auto
    next
      case wrap
      then show ?thesis
        using assms(1,2) less.prems by (intro up) auto
    qed
    then show ?case
      using step less.prems by blast
  qed
  with up assms(3) show ?thesis
    by (cases "c \<le> f") (auto simp: not_le)
qed

text \<open>What a walk from \<open>cur\<close> to \<open>first\<close> comes across.\<close>

definition upto_first :: "nat set \<Rightarrow> nat \<Rightarrow> nat \<Rightarrow> nat set" where
  "upto_first F first cur =
    (if first \<le> cur then {g \<in> F. first \<le> g \<and> g \<le> cur} else {g \<in> F. g \<le> cur \<or> first \<le> g})"

lemma upto_first_all:
  assumes "finite F" "first \<in> F"
  shows "upto_first F first (nxt F first) = F"
  using assms
proof (cases rule: nxt_cases)
  case down
  then show ?thesis
    by (auto simp: upto_first_def)
next
  case wrap
  then show ?thesis
    using assms by (auto simp: upto_first_def)
qed

lemma upto_first_step:
  assumes "finite F" "first \<in> F" "cur \<in> F" "cur \<noteq> first"
  shows "upto_first F first cur = insert cur (upto_first F first (nxt F cur))"
  using assms(1,3)
proof (cases rule: nxt_cases)
  case down
  have "first \<le> nxt F cur" if "first \<le> cur"
    using down(2)[OF assms(2)] that assms(4) by simp
  then show ?thesis
    using down assms(3,4) nxt_in[OF assms(1,3)]
    by (fastforce simp: upto_first_def not_le)
next
  case wrap
  then show ?thesis
    using assms(2-4) by (auto simp: upto_first_def intro: le_antisym)
qed

lemma upto_first_first: "first \<in> F \<Longrightarrow> upto_first F first first = {first}"
  by (auto simp: upto_first_def)

text \<open>Entering and leaving the ring.\<close>

lemma prd_cases:
  assumes "finite F" "F \<noteq> {}"
  obtains (above) "prd F p \<in> F" "p < prd F p" "\<And>g. g \<in> F \<Longrightarrow> p < g \<Longrightarrow> prd F p \<le> g"
  | (lowest) "prd F p \<in> F" "\<And>g. g \<in> F \<Longrightarrow> g \<le> p \<and> prd F p \<le> g"
proof (cases "\<exists>f\<in>F. p < f")
  case True
  then have "Min {f \<in> F. p < f} \<in> {f \<in> F. p < f}"
    using assms by (intro Min_in) auto
  moreover have "prd F p = Min {f \<in> F. p < f}"
    using True by (simp add: prd_def)
  moreover have "Min {f \<in> F. p < f} \<le> g" if "g \<in> F" "p < g" for g
    using that assms by simp
  ultimately show ?thesis
    using above by auto
next
  case False
  then have "prd F p = Min F" by (auto simp: prd_def)
  with False assms show ?thesis
    using lowest by (auto simp: not_less)
qed

lemma prd_in [simp]: "finite F \<Longrightarrow> F \<noteq> {} \<Longrightarrow> prd F p \<in> F"
  by (rule prd_cases[of F p]) auto

lemma nxt_insert:
  assumes "finite F" "p \<notin> F" "f \<in> F"
  shows "nxt (insert p F) f = (if f = prd F p then p else nxt F f)"
proof -
  have ne: "F \<noteq> {}" using assms by auto
  have fin: "finite (insert p F)" using assms by simp
  have pf: "p \<noteq> f" using assms by auto
  show ?thesis
  using assms(1,3)
  proof (cases rule: nxt_cases)
    case down
    note d = down
    show ?thesis
      using assms(1) ne
    proof (cases rule: prd_cases[where p = p])
      case above
      show ?thesis
      proof (cases "f = prd F p")
        case True
        then show ?thesis
          using above assms by (auto intro!: nxt_eqI simp: not_less) (metis le_neq_implies_less not_le)
      next
        case False
        then have "f < p \<or> p \<le> nxt F f"
          using above(1,3) d(2)[of "prd F p"] above(2) assms(3) pf by force
        then show ?thesis
          using False d nxt_in[OF assms(1,3)] assms(1) by (auto intro!: nxt_eqI)
      qed
    next
      case lowest
      then have "f \<noteq> prd F p"
        using d(1) nxt_in[OF assms(1,3)] by force
      moreover have "f < p"
        using lowest(2)[OF assms(3)] pf by simp
      ultimately show ?thesis
        using d nxt_in[OF assms(1,3)] assms(1) by (auto intro!: nxt_eqI)
    qed
  next
    case wrap
    show ?thesis
      using assms(1) ne
    proof (cases rule: prd_cases[where p = p])
      case above
      show ?thesis
      proof (cases "f = prd F p")
        case True
        then have "p < f" using above by simp
        then show ?thesis
          using True wrap assms by (auto intro!: nxt_eqI) (metis leD)
      next
        case False
        then have "f < p"
          using above(1) above(3)[of f] wrap[of "prd F p"] assms(3) pf by force
        moreover have "p \<le> nxt F f"
          using above(1,2) wrap[of "prd F p"] by simp
        ultimately show ?thesis
          using False wrap nxt_in[OF assms(1,3)] assms(1) by (auto intro!: nxt_wrapI)
      qed
    next
      case lowest
      then have "f = prd F p"
        using wrap assms(3) by (auto intro: le_antisym)
      then show ?thesis
        using lowest wrap assms by (auto intro!: nxt_wrapI)
    qed
  qed
qed

lemma nxt_inserted:
  assumes "finite F" "F \<noteq> {}" "p \<notin> F"
  shows "nxt (insert p F) p = nxt F (prd F p)"
  using assms(1,2)
proof (cases rule: prd_cases[where p = p])
  case above
  note a = above
  show ?thesis
    using assms(1) a(1)
  proof (cases rule: nxt_cases)
    case down
    then have "nxt F (prd F p) < p"
      using a assms nxt_in[OF assms(1) a(1)] by (metis leD not_less_iff_gr_or_eq)
    then show ?thesis
      using down a assms nxt_in[OF assms(1) a(1)] by (intro nxt_eqI) auto
  next
    case wrap
    have "p \<le> nxt F (prd F p)"
      using a(2) wrap[OF a(1)] by simp
    then show ?thesis
      using wrap a assms nxt_in[OF assms(1) a(1)]
      by (intro nxt_wrapI) (auto, meson a(2) less_le_trans less_imp_le_nat)
  qed
next
  case lowest
  have w: "g \<le> nxt F (prd F p)" if "g \<in> F" for g
    using nxt_wraps[of F "prd F p"] lowest that assms(1) by auto
  have "nxt F (prd F p) < p"
    using lowest nxt_in[OF assms(1), of "prd F p"] assms(3) by (metis le_neq_implies_less)
  then show ?thesis
    using w lowest assms nxt_in[OF assms(1), of "prd F p"] by (intro nxt_eqI) auto
qed

lemma nxt_remove:
  assumes "finite F" "c \<in> F" "f \<in> F" "f \<noteq> c"
  shows "nxt (F - {c}) f = (if nxt F f = c then nxt F c else nxt F f)"
proof -
  let ?G = "F - {c}"
  have F: "F = insert c ?G" using assms by auto
  have g: "finite ?G" "c \<notin> ?G" "f \<in> ?G" "?G \<noteq> {}" using assms by auto
  have f: "nxt F f = (if f = prd ?G c then c else nxt ?G f)"
    using nxt_insert[OF g(1-3)] F by simp
  have c: "nxt F c = nxt ?G (prd ?G c)"
    using nxt_inserted[OF g(1,4,2)] F by simp
  show ?thesis
    using f c nxt_in[OF g(1,3)] by auto
qed

text \<open>The tests by which the search for the place of \<open>p\<close> stops.\<close>

lemma prd_iff:
  assumes "finite F" "p \<notin> F" "c \<in> F"
  shows "c = prd F p \<longleftrightarrow> (p < c \<and> nxt F c < p) \<or> (c \<le> nxt F c \<and> (p < c \<or> nxt F c < p))"
proof -
  have ne: "F \<noteq> {}" and pc: "p \<noteq> c" using assms by auto
  show ?thesis
    using assms(1) ne
  proof (cases rule: prd_cases[where p = p])
    case above
    note a = above
    show ?thesis
      using assms(1,3)
    proof (cases rule: nxt_cases)
      case down
      have "c = prd F p \<longleftrightarrow> p < c \<and> nxt F c < p"
      proof
        assume c: "c = prd F p"
        have "\<not> p < nxt F c"
          using a(3)[OF nxt_in[OF assms(1,3)]] down(1) c by auto
        then show "p < c \<and> nxt F c < p"
          using a(2) c nxt_in[OF assms(1,3)] assms(2) by (metis linorder_neqE_nat)
      next
        assume "p < c \<and> nxt F c < p"
        then show "c = prd F p"
          using a(2) a(3)[OF assms(3)] down(2)[OF a(1)] by linarith
      qed
      then show ?thesis
        using down by auto
    next
      case wrap
      then have "c = prd F p \<longleftrightarrow> p < c"
        using a assms by (metis le_antisym)
      moreover have "p < nxt F c"
        using a(2) wrap[OF a(1)] by simp
      ultimately show ?thesis
        using wrap[OF assms(3)] by auto
    qed
  next
    case lowest
    have "nxt F c < p" "c < p"
      using lowest assms nxt_in[OF assms(1,3)] by (metis le_neq_implies_less)+
    moreover have "c = prd F p \<longleftrightarrow> c \<le> nxt F c"
      using assms(1,3)
    proof (cases rule: nxt_cases)
      case down
      then show ?thesis
        using lowest(2)[OF nxt_in[OF assms(1,3)]] by auto
    next
      case wrap
      then show ?thesis
        using lowest assms(3) by (auto intro: le_antisym)
    qed
    ultimately show ?thesis
      by auto
  qed
qed

end
