(* ===== verification/GrubMMRegion.thy ===== *)
theory GrubMMRegion
  imports GrubMM GrubRing
begin

text \<open>
  One region of the boot loader's heap: the invariant of its blocks and of the ring of its free blocks,
  and the proofs that allocation and freeing keep it.
\<close>


section \<open>Tilings\<close>

text \<open>The starts \<open>D\<close> of blocks with sizes \<open>sz\<close> that fill the cells from \<open>base\<close> to \<open>lim\<close>.\<close>

definition tiled :: "(nat \<Rightarrow> nat) \<Rightarrow> nat \<Rightarrow> nat \<Rightarrow> nat set \<Rightarrow> bool" where
  "tiled sz base lim D \<longleftrightarrow> D \<subseteq> {base..<lim} \<and> base \<in> D
    \<and> (\<forall>a\<in>D. 0 < sz a \<and> (a + sz a = lim \<or> a + sz a \<in> D))
    \<and> (\<forall>a\<in>D. \<forall>b\<in>D. a < b \<longrightarrow> a + sz a \<le> b)"

lemma tiled_finite: "tiled sz base lim D \<Longrightarrow> finite D"
  by (auto simp: tiled_def intro: finite_subset)

lemma tiled_end: "tiled sz base lim D \<Longrightarrow> a \<in> D \<Longrightarrow> a + sz a \<le> lim"
  by (fastforce simp: tiled_def)

lemma tiled_bounds: "tiled sz base lim D \<Longrightarrow> a \<in> D \<Longrightarrow> base \<le> a \<and> a < lim \<and> 0 < sz a"
  by (auto simp: tiled_def)

lemma tiled_apart: "tiled sz base lim D \<Longrightarrow> a \<in> D \<Longrightarrow> b \<in> D \<Longrightarrow> a < b \<Longrightarrow> a + sz a \<le> b"
  by (auto simp: tiled_def)

lemma tiled_inside: "tiled sz base lim D \<Longrightarrow> a \<in> D \<Longrightarrow> 0 < k \<Longrightarrow> k < sz a \<Longrightarrow> a + k \<notin> D"
  using tiled_apart[of sz base lim D a "a + k"] by auto

lemma tiled_cong:
  assumes "tiled sz base lim D" "\<And>a. a \<in> D \<Longrightarrow> sz' a = sz a"
  shows "tiled sz' base lim D"
  using assms by (auto simp: tiled_def)

lemma tiled_split:
  assumes t: "tiled sz base lim D" and a: "a \<in> D" "0 < k" "k < sz a"
    and sz': "sz' a = k" "sz' (a + k) = sz a - k" "\<And>x. x \<in> D \<Longrightarrow> x \<noteq> a \<Longrightarrow> sz' x = sz x"
  shows "tiled sz' base lim (insert (a + k) D)"
proof -
  have le: "a + sz a \<le> lim" and bs: "base \<le> a"
    using tiled_end[OF t a(1)] tiled_bounds[OF t a(1)] by auto
  have apart: "x + sz' x \<le> a" if "x \<in> D" "x < a + k" "x \<noteq> a" for x
    using that tiled_apart[OF t that(1) a(1)] tiled_apart[OF t a(1) that(1)] sz' a by fastforce
  have up: "a + sz a \<le> y" if "y \<in> D" "a < y" for y
    using tiled_apart[OF t a(1)] that by blast
  show ?thesis
    unfolding tiled_def
  proof (intro conjI ballI impI)
    show "insert (a + k) D \<subseteq> {base..<lim}"
      using t le bs a by (auto simp: tiled_def)
    show "base \<in> insert (a + k) D"
      using t by (simp add: tiled_def)
  next
    fix x
    assume "x \<in> insert (a + k) D"
    then consider "x = a + k" | "x = a" | "x \<in> D" "x \<noteq> a" "x \<noteq> a + k" by blast
    then have "0 < sz' x \<and> (x + sz' x = lim \<or> x + sz' x \<in> insert (a + k) D)"
      using t a sz' by cases (auto simp: tiled_def)
    then show "0 < sz' x" "x + sz' x = lim \<or> x + sz' x \<in> insert (a + k) D"
      by auto
  next
    fix x y
    assume "x \<in> insert (a + k) D" "y \<in> insert (a + k) D" "x < y"
    then show "x + sz' x \<le> y"
      using apart up a sz' tiled_apart[OF t] by (cases "x = a + k"; cases "x = a"; cases "y = a + k") force+
  qed
qed

lemma tiled_merge:
  assumes t: "tiled sz base lim D" and a: "a \<in> D" "b = a + sz a" "b \<in> D"
    and sz': "sz' a = sz a + sz b" "\<And>x. x \<in> D \<Longrightarrow> x \<noteq> a \<Longrightarrow> x \<noteq> b \<Longrightarrow> sz' x = sz x"
  shows "tiled sz' base lim (D - {b})"
proof -
  have ab: "a < b" using tiled_bounds[OF t a(1)] a(2) by simp
  have up: "b + sz b \<le> y" if "y \<in> D" "a < y" "y \<noteq> b" for y
    using tiled_apart[OF t a(1) that(1,2)] tiled_apart[OF t a(3) that(1)] a(2) that(3) by linarith
  have hit: "x + sz x \<noteq> b" if "x \<in> D" "x \<noteq> a" for x
    using that tiled_apart[OF t that(1) a(1)] tiled_apart[OF t a(1) that(1)] tiled_bounds[OF t that(1)] ab a(2)
    by (cases "x < a") auto
  show ?thesis
    unfolding tiled_def
  proof (intro conjI ballI impI)
    show "D - {b} \<subseteq> {base..<lim}" "base \<in> D - {b}"
      using t ab tiled_bounds[OF t a(1)] by (auto simp: tiled_def)
  next
    fix x
    assume x: "x \<in> D - {b}"
    show "0 < sz' x"
      using x sz' t a(1) by (cases "x = a") (auto simp: tiled_def)
    show "x + sz' x = lim \<or> x + sz' x \<in> D - {b}"
    proof (cases "x = a")
      case True
      then have "x + sz' x = b + sz b" using sz'(1) a(2) by simp
      then show ?thesis
        using t a(3) tiled_bounds[OF t a(3)] by (auto simp: tiled_def)
    next
      case False
      then show ?thesis
        using x sz'(2) t hit by (auto simp: tiled_def)
    qed
  next
    fix x y
    assume "x \<in> D - {b}" "y \<in> D - {b}" "x < y"
    then show "x + sz' x \<le> y"
      using sz' up[of y] a(2) tiled_apart[OF t] by (cases "x = a") (auto simp: add.assoc)
  qed
qed

text \<open>The sizes determine the blocks.\<close>

lemma tiled_subset:
  assumes "tiled sz base lim D" "tiled sz base lim D'"
  shows "D \<subseteq> D'"
proof
  fix a
  assume "a \<in> D"
  then show "a \<in> D'"
  proof (induction a rule: less_induct)
    case (less a)
    show ?case
    proof (cases "a = base")
      case True
      then show ?thesis using assms(2) by (simp add: tiled_def)
    next
      case False
      let ?S = "{b \<in> D. b < a}"
      have "base \<in> ?S" using assms(1) less.prems False by (auto simp: tiled_def)
      then have m: "Max ?S \<in> ?S" by (intro Max_in) (auto simp: tiled_finite[OF assms(1)])
      then have "Max ?S \<in> D'" using less.IH by auto
      have "Max ?S + sz (Max ?S) \<le> a" using m less.prems tiled_apart[OF assms(1)] by auto
      moreover have "\<not> Max ?S + sz (Max ?S) < a"
      proof
        assume lt: "Max ?S + sz (Max ?S) < a"
        moreover have "Max ?S + sz (Max ?S) = lim \<or> Max ?S + sz (Max ?S) \<in> D" "a < lim"
          using m assms(1) less.prems by (auto simp: tiled_def)
        ultimately have "Max ?S + sz (Max ?S) \<in> ?S"
          by auto
        then have "Max ?S + sz (Max ?S) \<le> Max ?S"
          by (intro Max_ge) (auto simp: tiled_finite[OF assms(1)])
        then show False using m tiled_bounds[OF assms(1), of "Max ?S"] by auto
      qed
      ultimately have "a = Max ?S + sz (Max ?S)" by simp
      moreover have "a < lim" using tiled_bounds[OF assms(1) less.prems] by simp
      ultimately show ?thesis
        using \<open>Max ?S \<in> D'\<close> assms(2) by (auto simp: tiled_def)
    qed
  qed
qed

lemma tiled_unique: "tiled sz base lim D \<Longrightarrow> tiled sz base lim D' \<Longrightarrow> D = D'"
  by (intro equalityI tiled_subset)


section \<open>The ring of free blocks\<close>

definition ring :: "headers \<Rightarrow> nat set \<Rightarrow> bool" where
  "ring h F \<longleftrightarrow> (\<forall>f\<in>F. hdr_next (h f) = nxt F f)"

lemma ring_cong: "ring h F \<Longrightarrow> (\<And>f. f \<in> F \<Longrightarrow> hdr_next (h' f) = hdr_next (h f)) \<Longrightarrow> ring h' F"
  by (simp add: ring_def)

lemma ring_insert:
  assumes "ring h F" "finite F" "F \<noteq> {}" "p \<notin> F" "c = prd F p"
    and "hdr_next (h' c) = p" "hdr_next (h' p) = hdr_next (h c)"
    and "\<And>f. f \<in> F \<Longrightarrow> f \<noteq> c \<Longrightarrow> hdr_next (h' f) = hdr_next (h f)"
  shows "ring h' (insert p F)"
  unfolding ring_def
proof
  fix f
  assume "f \<in> insert p F"
  then show "hdr_next (h' f) = nxt (insert p F) f"
    using assms nxt_insert[OF assms(2,4), of f] nxt_inserted[OF assms(2,3,4)]
    by (cases "f = c") (auto simp: ring_def)
qed

lemma ring_remove:
  assumes "ring h F" "finite F" "c \<in> F" "q \<in> F" "nxt F q = c" "q \<noteq> c"
    and "hdr_next (h' q) = hdr_next (h c)"
    and "\<And>f. f \<in> F \<Longrightarrow> f \<noteq> c \<Longrightarrow> f \<noteq> q \<Longrightarrow> hdr_next (h' f) = hdr_next (h f)"
  shows "ring h' (F - {c})"
  unfolding ring_def
proof
  fix f
  assume f: "f \<in> F - {c}"
  then have "nxt (F - {c}) f = (if nxt F f = c then nxt F c else nxt F f)"
    by (intro nxt_remove) (use assms in auto)
  moreover have "nxt F f = c \<longleftrightarrow> f = q"
    using f assms(2,4,5) nxt_inj[OF assms(2), of f q] by auto
  ultimately show "hdr_next (h' f) = nxt (F - {c}) f"
    using f assms by (auto simp: ring_def)
qed

lemma ring_single: "ring h {p} \<longleftrightarrow> hdr_next (h p) = p"
  by (simp add: ring_def nxt_def)


section \<open>Well-formed regions\<close>

definition frees :: "headers \<Rightarrow> nat set \<Rightarrow> nat set" where
  "frees h D = {a \<in> D. hdr_magic (h a) = GRUB_MM_FREE_MAGIC}"

definition allocs :: "headers \<Rightarrow> nat set \<Rightarrow> nat set" where
  "allocs h D = {a \<in> D. hdr_magic (h a) = GRUB_MM_ALLOC_MAGIC}"

text \<open>The blocks \<open>D\<close> fill the region, the free ones form the ring, no two free ones are neighbours, and
  \<open>first\<close> is free if any block is.\<close>

definition region_ok :: "headers \<Rightarrow> nat \<Rightarrow> nat \<Rightarrow> nat \<Rightarrow> nat set \<Rightarrow> bool" where
  "region_ok h first base lim D \<longleftrightarrow> 0 < base \<and> tiled (\<lambda>a. hdr_size (h a)) base lim D
    \<and> D = frees h D \<union> allocs h D \<and> ring h (frees h D)
    \<and> first \<in> D \<and> (frees h D \<noteq> {} \<longrightarrow> first \<in> frees h D)
    \<and> (\<forall>f\<in>frees h D. f + hdr_size (h f) \<notin> frees h D)"

lemma magics_differ [simp]:
  "GRUB_MM_ALLOC_MAGIC \<noteq> GRUB_MM_FREE_MAGIC" "GRUB_MM_FREE_MAGIC \<noteq> GRUB_MM_ALLOC_MAGIC"
  "GRUB_MM_ALLOC_MAGIC \<noteq> 0" "GRUB_MM_FREE_MAGIC \<noteq> 0" "0 \<noteq> GRUB_MM_ALLOC_MAGIC" "0 \<noteq> GRUB_MM_FREE_MAGIC"
  by (simp_all add: GRUB_MM_ALLOC_MAGIC_def GRUB_MM_FREE_MAGIC_def)

lemma frees_D: "f \<in> frees h D \<Longrightarrow> f \<in> D"
  by (simp add: frees_def)

lemma region_facts:
  assumes "region_ok h first base lim D"
  shows "tiled (\<lambda>a. hdr_size (h a)) base lim D" "finite D" "finite (frees h D)" "ring h (frees h D)"
    and "first \<in> D" "\<And>f. f \<in> frees h D \<Longrightarrow> f + hdr_size (h f) \<notin> frees h D"
    and "\<And>f. f \<in> frees h D \<Longrightarrow> hdr_magic (h f) = GRUB_MM_FREE_MAGIC \<and> hdr_next (h f) = nxt (frees h D) f"
    and "\<And>f. f \<in> frees h D \<Longrightarrow> first \<in> frees h D" "0 < base" "D = frees h D \<union> allocs h D"
    and "\<And>a. a \<in> D \<Longrightarrow> 0 < a"
proof -
  show "tiled (\<lambda>a. hdr_size (h a)) base lim D" "ring h (frees h D)" "first \<in> D" "0 < base"
    "D = frees h D \<union> allocs h D"
    using assms by (simp_all add: region_ok_def)
  then show "finite D" by (intro tiled_finite)
  then show "finite (frees h D)" by (simp add: frees_def)
  show "f + hdr_size (h f) \<notin> frees h D" if "f \<in> frees h D" for f
    using assms that by (simp add: region_ok_def)
  show "hdr_magic (h f) = GRUB_MM_FREE_MAGIC \<and> hdr_next (h f) = nxt (frees h D) f" if "f \<in> frees h D" for f
    using assms that by (simp add: region_ok_def ring_def) (simp add: frees_def)
  show "first \<in> frees h D" if "f \<in> frees h D" for f
    using assms that by (auto simp: region_ok_def)
  show "0 < a" if "a \<in> D" for a
    using assms that tiled_bounds[of _ base lim D a] by (force simp: region_ok_def)
qed

lemma region_okI:
  assumes "0 < base" "tiled (\<lambda>a. hdr_size (h a)) base lim D" "frees h D = F" "D = F \<union> allocs h D" "ring h F"
    and "first \<in> D" "F \<noteq> {} \<Longrightarrow> first \<in> F" "\<And>f. f \<in> F \<Longrightarrow> f + hdr_size (h f) \<notin> F"
  shows "region_ok h first base lim D"
  using assms by (auto simp: region_ok_def)

lemma nxt_self: "finite F \<Longrightarrow> c \<in> F \<Longrightarrow> nxt F c = c \<Longrightarrow> F = {c}"
  by (erule nxt_cases) (auto intro: le_antisym)

text \<open>A new block that starts inside the free block \<open>cur\<close> enters the ring between \<open>prev\<close> and \<open>cur\<close>.\<close>

lemma prd_inside:
  assumes ok: "region_ok h first base lim D" and p: "prev \<in> frees h D" "cur \<in> frees h D"
    and n: "nxt (frees h D) prev = cur" and k: "0 < k" "k < hdr_size (h cur)"
  shows "cur + k \<notin> D" "prev = prd (frees h D) (cur + k)"
proof -
  note f = region_facts[OF ok]
  show new: "cur + k \<notin> D"
    using tiled_inside[OF f(1) frees_D[OF p(2)] k] .
  have "cur + hdr_size (h cur) \<le> prev" if "cur < prev"
    using tiled_apart[OF f(1) frees_D[OF p(2)] frees_D[OF p(1)] that] .
  then have "cur < prev \<Longrightarrow> cur + k < prev"
    using k by simp
  then show "prev = prd (frees h D) (cur + k)"
    using prd_iff[OF f(3) _ p(1), of "cur + k"] new k n by (cases "cur < prev") (auto simp: frees_def)
qed

text \<open>The outcome of taking a block.\<close>

definition taken :: "nat \<Rightarrow> nat \<Rightarrow> nat \<Rightarrow> nat \<Rightarrow> headers \<Rightarrow> nat set \<Rightarrow> nat \<times> nat \<times> headers \<Rightarrow> bool" where
  "taken n align base lim h D = (\<lambda>(p, first', h').
    \<exists>c D'. p = c + 1 \<and> region_ok h' first' base lim D' \<and> c \<notin> allocs h D
      \<and> allocs h' D' = insert c (allocs h D) \<and> hdr_size (h' c) = n \<and> align dvd c + 1
      \<and> (\<forall>a\<in>allocs h D. h' a = h a) \<and> (\<forall>x. x \<notin> {base..<lim} \<longrightarrow> h' x = h x))"

lemma take_exact:
  assumes ok: "region_ok h first base lim D" and p: "prev \<in> frees h D" "cur \<in> frees h D"
    and n: "nxt (frees h D) prev = cur" and sz: "hdr_size (h cur) = n" and al: "align dvd cur + 1"
    and h1: "h1 = set_next prev (hdr_next (h cur)) h"
    and h': "h' = h1(cur := (h1 cur)\<lparr>hdr_magic := GRUB_MM_ALLOC_MAGIC, hdr_size := n\<rparr>)"
  shows "taken n align base lim h D (cur + 1, if n < 0x8000 div 16 \<or> first = cur then prev else first, h')"
proof -
  note f = region_facts[OF ok]
  let ?F = "frees h D" and ?first = "if n < 0x8000 div 16 \<or> first = cur then prev else first"
  have F': "frees h' D = ?F - {cur}" and A': "allocs h' D = insert cur (allocs h D)"
    using p by (auto simp: frees_def allocs_def h' h1)
  have first: "first \<in> ?F" using f(8) p by blast
  have single: "?F = {cur}" if "prev = cur" using nxt_self[OF f(3) p(2)] n that by simp
  have "region_ok h' ?first base lim D"
  proof (rule region_okI[OF _ _ F'])
    show "tiled (\<lambda>a. hdr_size (h' a)) base lim D"
      using f(1) by (rule tiled_cong) (auto simp: h' h1 sz)
    show "D = ?F - {cur} \<union> allocs h' D"
      using f(10) A' p(2) frees_D[OF p(2)] by auto
    show "ring h' (?F - {cur})"
    proof (cases "prev = cur")
      case True
      then show ?thesis using single by (simp add: ring_def)
    next
      case False
      show ?thesis
        by (rule ring_remove[OF f(4,3) p(2,1) n False]) (use False in \<open>auto simp: h' h1\<close>)
    qed
    show "?first \<in> D"
      using first p by (auto simp: frees_def)
    show "?first \<in> ?F - {cur}" if "?F - {cur} \<noteq> {}"
      using that first p single by auto
    show "g + hdr_size (h' g) \<notin> ?F - {cur}" if "g \<in> ?F - {cur}" for g
      using that f(6)[of g] by (auto simp: h' h1)
  qed (rule f(9))
  moreover have "h' a = h a" if "a \<in> allocs h D" for a
    using that p by (auto simp: h' h1 frees_def allocs_def)
  moreover have "h' x = h x" if "x \<notin> {base..<lim}" for x
    using that p tiled_bounds[OF f(1)] frees_D by (auto simp: h' h1)
  ultimately show ?thesis
    using A' al p(2) unfolding taken_def
    by (auto simp: h' frees_def allocs_def intro!: exI[of _ cur] exI[of _ D])
qed

lemma take_tail:
  assumes ok: "region_ok h first base lim D" and p: "prev \<in> frees h D" "cur \<in> frees h D"
    and k: "0 < k" "0 < n" "hdr_size (h cur) = n + k" and al: "align dvd cur + k + 1"
    and h1: "h1 = set_size cur k h"
    and h': "h' = h1(cur + k := (h1 (cur + k))\<lparr>hdr_magic := GRUB_MM_ALLOC_MAGIC, hdr_size := n\<rparr>)"
    and f': "first' \<in> {prev, first}"
  shows "taken n align base lim h D (cur + k + 1, first', h')"
proof -
  note f = region_facts[OF ok]
  let ?F = "frees h D" and ?D = "insert (cur + k) D"
  have new: "cur + k \<notin> D"
    using tiled_inside[OF f(1) frees_D[OF p(2)] k(1)] k by simp
  have F': "frees h' ?D = ?F" and A': "allocs h' ?D = insert (cur + k) (allocs h D)"
    using p new by (auto simp: frees_def allocs_def h' h1)
  have first: "first' \<in> ?F" using f' f(8) p by blast
  have "region_ok h' first' base lim ?D"
  proof (rule region_okI[OF _ _ F'])
    show "tiled (\<lambda>a. hdr_size (h' a)) base lim ?D"
      by (rule tiled_split[OF f(1) frees_D[OF p(2)]]) (use k new in \<open>auto simp: h' h1\<close>)
    show "?D = ?F \<union> allocs h' ?D"
      using f(10) A' by auto
    show "ring h' ?F"
      using f(4) by (rule ring_cong) (auto simp: h' h1 frees_def new)
    show "first' \<in> ?D" "first' \<in> ?F"
      using first by (auto simp: frees_def)
    show "g + hdr_size (h' g) \<notin> ?F" if "g \<in> ?F" for g
      using that f(6)[of g] new by (auto simp: h' h1 frees_def)
  qed (rule f(9))
  moreover have "h' a = h a" if "a \<in> allocs h D" for a
    using that p new by (auto simp: h' h1 frees_def allocs_def)
  moreover have "h' x = h x" if "x \<notin> {base..<lim}" for x
    using that tiled_bounds[OF f(1) frees_D[OF p(2)]] tiled_end[OF f(1) frees_D[OF p(2)]] k
    by (auto simp: h' h1)
  ultimately show ?thesis
    using A' al new unfolding taken_def
    by (auto simp: h' allocs_def intro!: exI[of _ "cur + k"] exI[of _ ?D])
qed


lemma take_head:
  assumes ok: "region_ok h first base lim D" and p: "prev \<in> frees h D" "cur \<in> frees h D"
    and n: "nxt (frees h D) prev = cur" and k: "0 < n" "n < hdr_size (h cur)" and al: "align dvd cur + 1"
    and h1: "h1 = h(cur + n := \<lparr>hdr_next = hdr_next (h cur), hdr_size = hdr_size (h cur) - n,
                       hdr_magic = GRUB_MM_FREE_MAGIC\<rparr>)"
    and h2: "h2 = set_next prev (cur + n) h1"
    and h3: "h3 = (if prev = cur then set_next (cur + n) (cur + n) h2 else h2)"
    and h': "h' = h3(cur := (h3 cur)\<lparr>hdr_magic := GRUB_MM_ALLOC_MAGIC, hdr_size := n\<rparr>)"
    and f': "first' \<in> {if prev = cur then cur + n else prev, first}" "first' \<noteq> cur"
  shows "taken n align base lim h D (cur + 1, first', h')"
proof -
  note f = region_facts[OF ok]
  let ?F = "frees h D" and ?r = "cur + n" and ?D = "insert (cur + n) D"
  have new: "?r \<notin> D" and prd: "prev = prd ?F ?r"
    using prd_inside[OF ok p n k] .
  have neq: "prev \<noteq> ?r" "cur \<noteq> ?r" using p new k by (auto simp: frees_def)
  have end_: "cur + hdr_size (h cur) \<notin> ?F" using f(6)[OF p(2)] .
  have lim: "cur + hdr_size (h cur) \<le> lim" "base \<le> cur"
    using tiled_end[OF f(1) frees_D[OF p(2)]] tiled_bounds[OF f(1) frees_D[OF p(2)]] by auto
  have F': "frees h' ?D = insert ?r (?F - {cur})" and A': "allocs h' ?D = insert cur (allocs h D)"
    using p new k by (auto simp: frees_def allocs_def h' h3 h2 h1)
  have first: "first \<in> ?F" using f(8) p by blast
  have single: "?F = {cur}" if "prev = cur" using nxt_self[OF f(3) p(2)] n that by simp
  have r: "?r \<notin> ?F" using new by (auto simp: frees_def)
  have ring': "ring h' (insert ?r (?F - {cur}))"
  proof (cases "prev = cur")
    case True
    then show ?thesis
      using single neq by (simp add: ring_single h' h3)
  next
    case False
    define g where "g = h(?r := (h ?r)\<lparr>hdr_next := cur\<rparr>, prev := (h prev)\<lparr>hdr_next := ?r\<rparr>)"
    have g: "ring g (insert ?r ?F)"
      by (rule ring_insert[OF f(4,3) _ r prd]) (use p neq r f(7)[OF p(1)] n in \<open>auto simp: g_def\<close>)
    have "nxt (insert ?r ?F) ?r = cur"
      using nxt_inserted[OF f(3) _ r] p n prd by auto
    then have "ring h' (insert ?r ?F - {cur})"
      by (intro ring_remove[OF g, where q = ?r]) (use p neq r f(3) False in \<open>auto simp: g_def h' h3 h2 h1\<close>)
    moreover have "insert ?r ?F - {cur} = insert ?r (?F - {cur})" using neq by auto
    ultimately show ?thesis by simp
  qed
  have "region_ok h' first' base lim ?D"
  proof (rule region_okI[OF _ _ F'])
    show "tiled (\<lambda>a. hdr_size (h' a)) base lim ?D"
      by (rule tiled_split[OF f(1) frees_D[OF p(2)] k]) (use neq new in \<open>auto simp: h' h3 h2 h1\<close>)
    show "?D = insert ?r (?F - {cur}) \<union> allocs h' ?D"
      using f(10) A' frees_D[OF p(2)] by auto
    show "ring h' (insert ?r (?F - {cur}))" by (rule ring')
    show "first' \<in> ?D" "first' \<in> insert ?r (?F - {cur})"
      using f' first p by (auto simp: frees_def split: if_splits)
    show "g + hdr_size (h' g) \<notin> insert ?r (?F - {cur})" if g: "g \<in> insert ?r (?F - {cur})" for g
    proof (cases "g = ?r")
      case True
      then have "g + hdr_size (h' g) = cur + hdr_size (h cur)"
        using neq k by (auto simp: h' h3 h2 h1)
      then show ?thesis using end_ k by auto
    next
      case False
      then have "g \<in> ?F" "hdr_size (h' g) = hdr_size (h g)"
        using g neq by (auto simp: h' h3 h2 h1)
      moreover have "g + hdr_size (h g) \<noteq> ?r"
        using \<open>g \<in> ?F\<close> f(1) new lim k frees_D[OF \<open>g \<in> ?F\<close>] by (auto simp: tiled_def)
      ultimately show ?thesis using f(6)[of g] by auto
    qed
  qed (rule f(9))
  moreover have "h' a = h a" if "a \<in> allocs h D" for a
    using that p new by (auto simp: h' h3 h2 h1 frees_def allocs_def)
  moreover have "h' x = h x" if "x \<notin> {base..<lim}" for x
    using that lim k tiled_bounds[OF f(1) frees_D[OF p(1)]] by (auto simp: h' h3 h2 h1)
  ultimately show ?thesis
    using A' al p(2) unfolding taken_def
    by (auto simp: h' frees_def allocs_def intro!: exI[of _ cur] exI[of _ ?D])
qed

lemma take_middle:
  assumes ok: "region_ok h first base lim D" and p: "prev \<in> frees h D" "cur \<in> frees h D"
    and n: "nxt (frees h D) prev = cur" and k: "0 < n" "0 < k" "k + n < hdr_size (h cur)"
    and al: "align dvd cur + k + 1"
    and h1: "h1 = h(cur + k + n := \<lparr>hdr_next = cur, hdr_size = hdr_size (h cur) - k - n,
                       hdr_magic = GRUB_MM_FREE_MAGIC\<rparr>)"
    and h2: "h2 = set_size cur k h1"
    and h3: "h3 = set_next prev (cur + k + n) h2"
    and h': "h' = h3(cur + k := (h3 (cur + k))\<lparr>hdr_magic := GRUB_MM_ALLOC_MAGIC, hdr_size := n\<rparr>)"
    and f': "first' \<in> {prev, first}"
  shows "taken n align base lim h D (cur + k + 1, first', h')"
proof -
  note f = region_facts[OF ok]
  let ?F = "frees h D" and ?r = "cur + k + n" and ?m = "cur + k" and ?D = "insert (cur + k + n) (insert (cur + k) D)"
  have new: "?r \<notin> D" and prd: "prev = prd ?F ?r"
    using prd_inside[OF ok p n, of "k + n"] k by (auto simp: add.assoc)
  have newm: "?m \<notin> D"
    using prd_inside(1)[OF ok p n, of k] k by auto
  have neq: "prev \<noteq> ?r" "cur \<noteq> ?r" "prev \<noteq> ?m" "?r \<noteq> ?m" "cur \<noteq> ?m"
    using p new newm k by (auto simp: frees_def)
  have end_: "cur + hdr_size (h cur) \<notin> ?F" using f(6)[OF p(2)] .
  have lim: "cur + hdr_size (h cur) \<le> lim" "base \<le> cur"
    using tiled_end[OF f(1) frees_D[OF p(2)]] tiled_bounds[OF f(1) frees_D[OF p(2)]] by auto
  have F': "frees h' ?D = insert ?r ?F" and A': "allocs h' ?D = insert ?m (allocs h D)"
    using p new newm neq by (auto simp: frees_def allocs_def h' h3 h2 h1)
  have first: "first' \<in> ?F" using f' f(8) p by blast
  have r: "?r \<notin> ?F" using new by (auto simp: frees_def)
  define g where "g = set_size ?m (hdr_size (h cur) - k) (set_size cur k h)"
  have "region_ok h' first' base lim ?D"
  proof (rule region_okI[OF _ _ F'])
    have "tiled (\<lambda>a. hdr_size (g a)) base lim (insert ?m D)"
      by (rule tiled_split[OF f(1) frees_D[OF p(2)]]) (use k neq newm in \<open>auto simp: g_def\<close>)
    then show "tiled (\<lambda>a. hdr_size (h' a)) base lim ?D"
      by (rule tiled_split) (use k neq new in \<open>auto simp: g_def h' h3 h2 h1\<close>)
    show "?D = insert ?r ?F \<union> allocs h' ?D"
      using f(10) A' by auto
    show "ring h' (insert ?r ?F)"
      by (rule ring_insert[OF f(4,3) _ r prd])
        (use p neq newm new f(7)[OF p(1)] n in \<open>auto simp: h' h3 h2 h1 frees_def\<close>)
    show "first' \<in> ?D" "first' \<in> insert ?r ?F"
      using first by (auto simp: frees_def)
    show "g + hdr_size (h' g) \<notin> insert ?r ?F" if g: "g \<in> insert ?r ?F" for g
    proof (cases "g = ?r \<or> g = cur")
      case True
      then have "g + hdr_size (h' g) = cur + hdr_size (h cur) \<or> g + hdr_size (h' g) = ?m"
        using neq k by (auto simp: h' h3 h2 h1)
      then show ?thesis using end_ k newm by (auto simp: frees_def)
    next
      case False
      then have "g \<in> ?F" "hdr_size (h' g) = hdr_size (h g)"
        using g neq newm by (auto simp: h' h3 h2 h1 frees_def)
      moreover have "g + hdr_size (h g) \<noteq> ?r"
        using \<open>g \<in> ?F\<close> f(1) new lim k frees_D[OF \<open>g \<in> ?F\<close>] by (auto simp: tiled_def)
      ultimately show ?thesis using f(6)[of g] by auto
    qed
  qed (rule f(9))
  moreover have "h' a = h a" if "a \<in> allocs h D" for a
    using that p new newm by (auto simp: h' h3 h2 h1 frees_def allocs_def)
  moreover have "h' x = h x" if "x \<notin> {base..<lim}" for x
    using that lim k tiled_bounds[OF f(1) frees_D[OF p(1)]] by (auto simp: h' h3 h2 h1)
  ultimately show ?thesis
    using A' al newm unfolding taken_def
    by (auto simp: h' allocs_def intro!: exI[of _ ?m] exI[of _ ?D])
qed


lemma and_mask_nat: "(x :: nat) AND (2 ^ e - 1) = x mod 2 ^ e"
  using take_bit_eq_mask[of e x] take_bit_eq_mod[of e x] mask_eq_exp_minus_1[of e, where 'a = nat] by simp

lemma align_extra_dvd:
  assumes a: "align = 2 ^ e"
  shows "align dvd cur + align_extra align cur + 1"
proof -
  let ?x = "(cur + 1) mod align"
  have x: "align_extra align cur = (if ?x = 0 then 0 else align - ?x)"
    unfolding align_extra_def a and_mask_nat Let_def by simp
  have d: "align dvd cur + 1 - ?x" by (rule dvd_minus_mod)
  show ?thesis
  proof (cases "?x = 0")
    case True
    then show ?thesis using d by (simp add: x)
  next
    case False
    have "?x < align" "?x \<le> cur + 1"
      using a by (simp_all only: mod_less_divisor zero_less_power zero_less_numeral mod_less_eq_dividend)
    then have "cur + (align - ?x) + 1 = cur + 1 - ?x + align"
      by linarith
    then show ?thesis
      using d False by (simp only: x if_False dvd_add_triv_right_iff)
  qed
qed

lemma take_block_taken:
  assumes ok: "region_ok h first base lim D" and p: "prev \<in> frees h D" "cur \<in> frees h D"
    and nx: "nxt (frees h D) prev = cur" and n: "0 < n" and al: "align = 2 ^ e"
    and fit: "n + align_extra align cur \<le> hdr_size (h cur)"
  shows "taken n align base lim h D (take_block first n align prev cur (align_extra align cur) h)"
proof -
  define sz where "sz = hdr_size (h cur)"
  define m where "m = sz - align_extra align cur - n"
  define k where "k = align_extra align cur + (m - m mod align)"
  have k: "align_extra align cur + (m - (m AND (align - 1))) = k"
    by (simp add: k_def al and_mask_nat[of m e, simplified])
  have le: "n + k \<le> sz"
    using fit mod_less_eq_dividend[of m align] by (simp add: k_def m_def sz_def)
  have "align dvd m - m mod align" by (simp add: dvd_minus_mod)
  then have "align dvd cur + align_extra align cur + 1 + (m - m mod align)"
    by (intro dvd_add align_extra_dvd[OF al])
  then have d: "align dvd cur + k + 1" by (simp add: k_def add.commute add.left_commute)
  have one: "sz = n + k" if "align = 1"
    using that fit by (simp add: k_def m_def sz_def)
  note f = region_facts[OF ok]
  have first: "first \<in> frees h D" using f(8) p by blast
  have tb: "take_block first n align prev cur (align_extra align cur) h =
    (let (prev, cur, h) =
           (if k = 0 \<and> sz = n then (prev, cur, set_next prev (hdr_next (h cur)) h)
            else if align = 1 \<or> sz = n + k then (prev, cur + (sz - n), set_size cur (sz - n) h)
            else if k = 0
            then (let r = cur + k + n;
                      h = h(r := \<lparr>hdr_next = hdr_next (h cur), hdr_size = sz - k - n,
                                  hdr_magic = GRUB_MM_FREE_MAGIC\<rparr>);
                      h = set_next prev r h
                  in if prev = cur then (r, cur, set_next r r h) else (prev, cur, h))
            else (let r = cur + k + n;
                      h = h(r := \<lparr>hdr_next = cur, hdr_size = sz - k - n,
                                  hdr_magic = GRUB_MM_FREE_MAGIC\<rparr>);
                      h = set_size cur k h;
                      h = set_next prev r h
                  in (prev, cur + k, h)));
         h = h(cur := (h cur)\<lparr>hdr_magic := GRUB_MM_ALLOC_MAGIC, hdr_size := n\<rparr>)
     in (cur + 1, (if n < 0x8000 div 16 \<or> first = cur then prev else first), h))"
    unfolding take_block_def Let_def sz_def[symmetric] m_def[symmetric] k ..
  consider (exact) "k = 0" "sz = n" | (tail) "0 < k" "sz = n + k" | (head) "k = 0" "n < sz" "align \<noteq> 1"
    | (middle) "0 < k" "n + k < sz" "align \<noteq> 1"
    using le one by linarith
  then show ?thesis
  proof cases
    case exact
    then show ?thesis
      using take_exact[OF ok p nx _ _ refl refl, of n align] d
      by (simp add: tb sz_def del: fun_upd_apply)
  next
    case tail
    then have "sz - n = k" "\<not> (k = 0 \<and> sz = n)" by auto
    then show ?thesis
      using take_tail[OF ok p _ n _ d refl refl, of "if n < 0x8000 div 16 \<or> first = cur + k then prev else first"] tail
      by (simp add: tb sz_def del: fun_upd_apply)
  next
    case head
    define f' where "f' = (if n < 0x8000 div 16 \<or> first = cur then (if prev = cur then cur + n else prev) else first)"
    have f': "f' \<in> {if prev = cur then cur + n else prev, first}" "f' \<noteq> cur"
      using n by (auto simp: f'_def)
    show ?thesis
    proof (cases "prev = cur")
      case True
      then show ?thesis
        using take_head[OF ok p nx n _ _ refl refl refl refl f', of align] d head
        by (simp add: tb[unfolded True] Let_def sz_def f'_def cong: if_cong del: fun_upd_apply)
    next
      case False
      then show ?thesis
        using take_head[OF ok p nx n _ _ refl refl refl refl f', of align] d head
        by (simp add: tb Let_def sz_def f'_def cong: if_cong del: fun_upd_apply)
    qed
  next
    case middle
    then show ?thesis
      using take_middle[OF ok p nx n _ _ d refl refl refl refl,
          of "if n < 0x8000 div 16 \<or> first = cur + k then prev else first"]
      by (simp add: tb Let_def sz_def add.commute del: fun_upd_apply)
  qed
qed



section \<open>Allocation in a region\<close>

lemma real_malloc_loop_result:
  assumes ok: "region_ok h first base lim D" and c: "cur \<in> frees h D"
    and prev: "prev \<in> frees h D" "nxt (frees h D) prev = cur"
  shows "\<exists>x. real_malloc_loop first n align prev cur h = Some (Inr x) \<and>
    ((\<exists>p c. p \<in> frees h D \<and> c \<in> frees h D \<and> nxt (frees h D) p = c \<and> n + align_extra align c \<le> hdr_size (h c)
        \<and> x = take_block first n align p c (align_extra align c) h)
     \<or> x = (0, first, h) \<and> (\<forall>g\<in>upto_first (frees h D) first cur. hdr_size (h g) < n + align_extra align g))"
  using c prev
proof (induction cur arbitrary: prev rule: ring_induct[where F = "frees h D" and c = first])
  case 1
  show ?case by (rule region_facts(3)[OF ok])
next
  case 2
  show ?case using region_facts(8)[OF ok c] .
next
  case 3
  show ?case by (rule c)
next
  case 4
  note f = region_facts[OF ok]
  have nz: "first \<noteq> 0" "hdr_magic (h first) = GRUB_MM_FREE_MAGIC"
    using f(7)[OF 4(1)] f(11)[OF frees_D[OF 4(1)]] by auto
  show ?case
  proof (cases "n + align_extra align first \<le> hdr_size (h first)")
    case True
    then show ?thesis
      using 4 nz by (subst real_malloc_loop.simps) (auto simp: Let_def)
  next
    case False
    then show ?thesis
      using 4 nz by (subst real_malloc_loop.simps) (auto simp: Let_def upto_first_first)
  qed
next
  case (5 cur)
  note f = region_facts[OF ok]
  have nz: "cur \<noteq> 0" "hdr_magic (h cur) = GRUB_MM_FREE_MAGIC" "hdr_next (h cur) = nxt (frees h D) cur"
    using f(7)[OF 5(1)] f(11)[OF frees_D[OF 5(1)]] by auto
  show ?case
  proof (cases "n + align_extra align cur \<le> hdr_size (h cur)")
    case True
    then show ?thesis
      using 5 nz by (subst real_malloc_loop.simps) (auto simp: Let_def)
  next
    case False
    have "real_malloc_loop first n align prev cur h = real_malloc_loop first n align cur (nxt (frees h D) cur) h"
      using False nz 5(2) by (subst real_malloc_loop.simps) (simp add: Let_def)
    moreover have "upto_first (frees h D) first cur = insert cur (upto_first (frees h D) first (nxt (frees h D) cur))"
      by (rule upto_first_step[OF f(3) f(8)[OF c] 5(1,2)])
    ultimately show ?thesis
      using 5(3)[OF nxt_in[OF f(3) 5(1)] 5(1) refl] False by auto
  qed
qed

text \<open>Searching a region always ends: with a block of \<open>n\<close> cells whose data is aligned, or without any when no
  free block has room for one.\<close>

lemma grub_real_malloc_result:
  assumes ok: "region_ok h first base lim D" and n: "0 < n" and al: "align = 2 ^ e"
  shows "\<exists>p first' h'. grub_real_malloc first n align h = Some (Inr (p, first', h'))
    \<and> (if p = 0 then first' = first \<and> h' = h \<and> (\<forall>g\<in>frees h D. hdr_size (h g) < n + align_extra align g)
       else taken n align base lim h D (p, first', h'))"
proof (cases "frees h D = {}")
  case True
  then have "first \<in> allocs h D"
    using region_facts(5,10)[OF ok] by auto
  then show ?thesis
    using True by (simp add: grub_real_malloc_def allocs_def)
next
  case False
  note f = region_facts[OF ok]
  have first: "first \<in> frees h D" using False f(8) by blast
  then have m: "hdr_magic (h first) \<noteq> GRUB_MM_ALLOC_MAGIC" "hdr_next (h first) = nxt (frees h D) first"
    using f(7) by auto
  have taken_pos: "taken n align base lim h D (p, x) \<Longrightarrow> p \<noteq> 0" for p x
    by (auto simp: taken_def)
  obtain x where x: "real_malloc_loop first n align first (nxt (frees h D) first) h = Some (Inr x)"
    "(\<exists>p c. p \<in> frees h D \<and> c \<in> frees h D \<and> nxt (frees h D) p = c \<and> n + align_extra align c \<le> hdr_size (h c)
        \<and> x = take_block first n align p c (align_extra align c) h)
     \<or> x = (0, first, h) \<and> (\<forall>g\<in>upto_first (frees h D) first (nxt (frees h D) first). hdr_size (h g) < n + align_extra align g)"
    using real_malloc_loop_result[OF ok nxt_in[OF f(3) first] first refl, of n align] by blast
  from x(2) have "taken n align base lim h D x \<or> x = (0, first, h) \<and> (\<forall>g\<in>frees h D. hdr_size (h g) < n + align_extra align g)"
    using take_block_taken[OF ok _ _ _ n al] by (auto simp: upto_first_all[OF f(3) first])
  then show ?thesis
    using x(1) m taken_pos by (cases x) (auto simp: grub_real_malloc_def)
qed


section \<open>Freeing in a region\<close>

lemma free_loop_result:
  assumes ok: "region_ok h first base lim D" and p: "p \<in> allocs h D"
    and cur: "cur \<in> frees h D" and prev: "prev \<in> frees h D" "nxt (frees h D) prev = cur"
  shows "\<exists>prev'. free_loop p prev cur h = Some (Inr (prev', prd (frees h D) p))
    \<and> prev' \<in> frees h D \<and> nxt (frees h D) prev' = prd (frees h D) p"
proof -
  note f = region_facts[OF ok]
  let ?F = "frees h D"
  have pF: "p \<notin> ?F" using p by (auto simp: frees_def allocs_def)
  have c: "prd ?F p \<in> ?F" using prd_in[OF f(3)] cur by blast
  have stop: "x = prd ?F p \<longleftrightarrow> \<not> (x \<le> p \<or> p \<le> hdr_next (h x)) \<or>
      x \<le> hdr_next (h x) \<and> (p < x \<or> hdr_next (h x) < p)" "hdr_magic (h x) = GRUB_MM_FREE_MAGIC"
      "hdr_next (h x) = nxt ?F x" if x: "x \<in> ?F" for x
    using prd_iff[OF f(3) pF x] f(7)[OF x] nxt_in[OF f(3) x] by (auto simp: not_le)
  show ?thesis
    using cur prev
  proof (induction cur arbitrary: prev rule: ring_induct[where F = ?F and c = "prd ?F p"])
    case 4
    then show ?case
      using stop[OF c] by (subst free_loop.simps) auto
  next
    case (5 x)
    have "\<not> (x \<le> hdr_next (h x) \<and> (p < x \<or> hdr_next (h x) < p))" "x \<le> p \<or> p \<le> hdr_next (h x)"
      using stop[OF 5(1)] 5(2) by blast+
    then have "free_loop p prev x h = free_loop p x (nxt ?F x) h"
      using stop[OF 5(1)] by (subst free_loop.simps) auto
    then show ?case
      using 5(3)[OF nxt_in[OF f(3) 5(1)] 5(1) refl] by simp
  qed (use f(3) c cur in auto)
qed

text \<open>The outcome of freeing \<open>p\<close>.\<close>

definition freed :: "nat \<Rightarrow> nat \<Rightarrow> nat \<Rightarrow> headers \<Rightarrow> nat set \<Rightarrow> nat \<times> headers \<Rightarrow> bool" where
  "freed p base lim h D = (\<lambda>(first', h').
    \<exists>D'. region_ok h' first' base lim D' \<and> allocs h' D' = allocs h D - {p}
      \<and> (\<forall>a\<in>allocs h D - {p}. h' a = h a) \<and> (\<forall>x. x \<notin> {base..<lim} \<longrightarrow> h' x = h x))"

text \<open>The heap between the two merges: the only free block that may have a free neighbour above is \<open>p\<close>, and
  that neighbour is \<open>c\<close>.\<close>

definition half_merged :: "headers \<Rightarrow> nat \<Rightarrow> nat \<Rightarrow> nat set \<Rightarrow> nat \<Rightarrow> nat \<Rightarrow> nat \<Rightarrow> bool" where
  "half_merged h base lim D p c prev \<longleftrightarrow> 0 < base \<and> tiled (\<lambda>a. hdr_size (h a)) base lim D
    \<and> D = frees h D \<union> allocs h D \<and> ring h (frees h D)
    \<and> p \<in> frees h D \<and> c \<in> frees h D \<and> c + hdr_size (h c) \<notin> frees h D
    \<and> nxt (frees h D) c = p \<and> prev \<in> frees h D
    \<and> (\<forall>f\<in>frees h D. f \<noteq> p \<longrightarrow> f + hdr_size (h f) \<notin> frees h D)
    \<and> (p + hdr_size (h p) \<in> frees h D \<longrightarrow> p + hdr_size (h p) = c)
    \<and> (c \<noteq> p \<longrightarrow> nxt (frees h D) (if c = prev then p else prev) = c)"

lemma merge_prev_ok:
  assumes hm: "half_merged h base lim D p c prev" and m: "merge_prev p prev c h = (first', h')"
  shows "\<exists>D'. region_ok h' first' base lim D' \<and> allocs h' D' = allocs h D
    \<and> (\<forall>x. x \<notin> frees h D \<longrightarrow> h' x = h x)"
proof (cases "c = p + hdr_size (h p)")
  case False
  then have e: "first' = c" "h' = h" using m by (auto simp: merge_prev_def)
  have "region_ok h c base lim D"
    using hm False by (intro region_okI[where F = "frees h D"]) (auto simp: half_merged_def frees_def)
  then show ?thesis unfolding e by blast
next
  case True
  let ?F = "frees h D"
  define q where "q = (if c = prev then p else prev)"
  note hm = hm[unfolded half_merged_def, folded q_def]
  have t: "tiled (\<lambda>a. hdr_size (h a)) base lim D" and fin: "finite ?F"
    using hm tiled_finite[of _ base lim D] by (auto simp: frees_def)
  have F: "p \<in> ?F" "c \<in> ?F" "ring h ?F" "D = ?F \<union> allocs h D" "nxt ?F c = p" "c + hdr_size (h c) \<notin> ?F"
    and others: "\<And>f. f \<in> ?F \<Longrightarrow> f \<noteq> p \<Longrightarrow> f + hdr_size (h f) \<notin> ?F"
    using hm by blast+
  have D: "p \<in> D" "c \<in> D" using F(1,2) by (simp_all add: frees_def)
  have pc: "c \<noteq> p" using True tiled_bounds[OF t D(1)] by simp
  have prev: "q \<in> ?F" "q \<noteq> c" "nxt ?F q = c"
    using hm pc by (simp_all add: q_def)
  define h1 where "h1 = set_size p (hdr_size (h p) + hdr_size (h c)) (set_magic c 0 h)"
  have e: "first' = q" "h' = set_next q p h1"
    using m True pc by (auto simp: merge_prev_def h1_def Let_def q_def)
  have F': "frees h' (D - {c}) = ?F - {c}" and A': "allocs h' (D - {c}) = allocs h D"
    using F(1,2) prev pc by (auto simp: e h1_def frees_def allocs_def)
  have "region_ok h' q base lim (D - {c})"
  proof (rule region_okI[OF _ _ F'])
    show "0 < base" using hm by blast
    show "tiled (\<lambda>a. hdr_size (h' a)) base lim (D - {c})"
      by (rule tiled_merge[OF t D(1) True D(2)]) (use pc prev in \<open>auto simp: e h1_def\<close>)
    show "D - {c} = ?F - {c} \<union> allocs h' (D - {c})"
      using F(2,4) A' by (auto simp: frees_def allocs_def)
    show "ring h' (?F - {c})"
      by (rule ring_remove[of h ?F c q]) (use F fin prev pc in \<open>auto simp: e h1_def ring_def\<close>)
    show "q \<in> D - {c}" "q \<in> ?F - {c}"
      using prev by (auto simp: frees_def)
    show "f + hdr_size (h' f) \<notin> ?F - {c}" if f: "f \<in> ?F - {c}" for f
    proof (cases "f = p")
      case True
      then have "f + hdr_size (h' f) = c + hdr_size (h c)"
        using pc \<open>c = p + _\<close> by (simp add: e h1_def)
      then show ?thesis using F(6) by auto
    next
      case False
      then show ?thesis using f others[of f] by (auto simp: e h1_def)
    qed
  qed
  moreover have "h' x = h x" if "x \<notin> ?F" for x
    using that F(1,2) prev by (auto simp: e h1_def)
  ultimately show ?thesis
    using A' unfolding e(1) by blast
qed


lemma neighbour_below:
  assumes ok: "region_ok h first base lim D" and p: "p \<in> allocs h D" and g: "g \<in> frees h D" "g + hdr_size (h g) = p"
  shows "nxt (frees h D) (prd (frees h D) p) = g"
proof -
  note f = region_facts[OF ok]
  let ?F = "frees h D"
  have pF: "p \<notin> ?F" using p by (auto simp: frees_def allocs_def)
  have gp: "g < p" using g tiled_bounds[OF f(1) frees_D[OF g(1)]] by simp
  have "nxt (insert p ?F) p = g"
  proof (rule nxt_eqI)
    fix x
    assume "x \<in> insert p ?F" "x < p"
    then show "x \<le> g"
      using tiled_apart[OF f(1) frees_D[OF g(1)], of x] g by (auto simp: frees_def not_less[symmetric])
  qed (use f(3) g gp in auto)
  then show ?thesis
    using nxt_inserted[OF f(3) _ pF] g(1) by (metis empty_iff)
qed

lemma neighbour_above:
  assumes ok: "region_ok h first base lim D" and p: "p \<in> allocs h D" and c: "p + hdr_size (h p) \<in> frees h D"
  shows "prd (frees h D) p = p + hdr_size (h p)"
proof -
  note f = region_facts[OF ok]
  have pD: "p \<in> D" using p by (simp add: allocs_def)
  have "p < p + hdr_size (h p)" using tiled_bounds[OF f(1) pD] by simp
  moreover have "p + hdr_size (h p) \<le> x" if "x \<in> frees h D" "p < x" for x
    using tiled_apart[OF f(1) pD frees_D[OF that(1)] that(2)] .
  ultimately show ?thesis
    using c f(3) by (auto simp: prd_def intro!: Min_eqI)
qed

lemma free_link_freed:
  assumes ok: "region_ok h first base lim D" and p: "p \<in> allocs h D"
    and prev: "prev \<in> frees h D" "nxt (frees h D) prev = c" and c: "c = prd (frees h D) p"
  shows "freed p base lim h D (free_link p prev c h)"
proof -
  note f = region_facts[OF ok]
  let ?F = "frees h D"
  have pF: "p \<notin> ?F" and pD: "p \<in> D" "hdr_magic (h p) = GRUB_MM_ALLOC_MAGIC"
    using p by (auto simp: frees_def allocs_def)
  have cF: "c \<in> ?F" using prev nxt_in[OF f(3)] by auto
  have cp: "c \<noteq> p" "prev \<noteq> p" using cF prev pF by auto
  have cD: "c \<in> D" using cF by (rule frees_D)
  define q where "q = nxt ?F c"
  have qF: "q \<in> ?F" "q \<noteq> p" "q \<in> D" using nxt_in[OF f(3) cF] pF frees_D by (auto simp: q_def)
  define h1 where "h1 = h(p := (h p)\<lparr>hdr_magic := GRUB_MM_FREE_MAGIC, hdr_next := q\<rparr>, c := (h c)\<lparr>hdr_next := p\<rparr>)"
  have h1: "set_next c p (h(p := (h p)\<lparr>hdr_magic := GRUB_MM_FREE_MAGIC, hdr_next := hdr_next (h c)\<rparr>)) = h1"
    using cp f(7)[OF cF] by (simp add: h1_def q_def)
  have sz1: "hdr_size (h1 x) = hdr_size (h x)" for x by (simp add: h1_def)
  have q1: "hdr_next (h1 p) = q" using cp by (simp add: h1_def)
  obtain p2 h2 where m: "merge_next p c h1 = (p2, h2)" by fastforce
  have "\<exists>D2. half_merged h2 base lim D2 p2 c prev \<and> allocs h2 D2 = allocs h D - {p} \<and> frees h2 D2 \<subseteq> insert p ?F
      \<and> (\<forall>x. x \<notin> insert p ?F \<longrightarrow> h2 x = h x)"
  proof (cases "q + hdr_size (h q) = p")
    case True
    define g where "g = h(p := (h1 p)\<lparr>hdr_magic := 0\<rparr>, q := (h q)\<lparr>hdr_size := hdr_size (h q) + hdr_size (h p)\<rparr>)"
    have nc: "hdr_next (h c) = q" using f(7)[OF cF] by (simp add: q_def)
    have "merge_next p c h1 = (q, set_next c q (set_size q (hdr_size (h1 q) + hdr_size (h1 p)) (set_magic p 0 h1)))"
      using True qF(2) by (simp add: merge_next_def q1 sz1 Let_def)
    moreover have "set_next c q (set_size q (hdr_size (h1 q) + hdr_size (h1 p)) (set_magic p 0 h1)) x = g x" for x
      using nc cp qF(2) by (cases "x = c"; cases "x = q"; cases "x = p") (simp_all add: g_def h1_def)
    ultimately have e: "p2 = q" "h2 = h(p := (h1 p)\<lparr>hdr_magic := 0\<rparr>, q := (h q)\<lparr>hdr_size := hdr_size (h q) + hdr_size (h p)\<rparr>)"
      using m by (simp_all add: g_def[symmetric] fun_eq_iff del: fun_upd_apply)
    have F': "frees h2 (D - {p}) = ?F" and A': "allocs h2 (D - {p}) = allocs h D - {p}"
      using qF pF by (auto simp: e frees_def allocs_def)
    have c2: "c + hdr_size (h2 c) \<notin> ?F"
    proof (cases "c = q")
      case True
      then have "c < p" using \<open>q + _ = p\<close> tiled_bounds[OF f(1) qF(3)] by simp
      then have "p + hdr_size (h p) \<notin> ?F"
        using neighbour_above[OF ok p] c by auto
      then show ?thesis using True \<open>q + _ = p\<close> cp by (simp add: e add.assoc[symmetric])
    next
      case False
      then show ?thesis using f(6)[OF cF] cp by (simp add: e)
    qed
    have "half_merged h2 base lim (D - {p}) p2 c prev"
      unfolding half_merged_def F'
    proof (intro conjI)
      show "tiled (\<lambda>a. hdr_size (h2 a)) base lim (D - {p})"
        by (rule tiled_merge[OF f(1) qF(3) True[symmetric] pD(1)]) (use qF True in \<open>auto simp: e\<close>)
      show "D - {p} = ?F \<union> allocs h2 (D - {p})"
        using f(10) pF A' by auto
      show "ring h2 ?F"
        using f(4) by (rule ring_cong) (use pF in \<open>auto simp: e\<close>)
      show "\<forall>x\<in>?F. x \<noteq> p2 \<longrightarrow> x + hdr_size (h2 x) \<notin> ?F"
        using f(6) pF by (auto simp: e)
      show "p2 + hdr_size (h2 p2) \<in> ?F \<longrightarrow> p2 + hdr_size (h2 p2) = c"
        using neighbour_above[OF ok p] c True qF by (auto simp: e add.assoc[symmetric])
      show "c \<noteq> p2 \<longrightarrow> nxt ?F (if c = prev then p2 else prev) = c"
        using prev by (auto simp: e q_def)
    qed (use f(9) qF cF c2 prev in \<open>auto simp: e(1) q_def\<close>)
    then show ?thesis
      using F' A' qF by (auto simp: e intro!: exI[of _ "D - {p}"])
  next
    case False
    then have e: "p2 = p" "h2 = h1"
      using m by (auto simp: merge_next_def q1 sz1 Let_def)
    have F': "frees h1 D = insert p ?F" and A': "allocs h1 D = allocs h D - {p}"
      using cF pD cp by (auto simp: h1_def frees_def allocs_def)
    have below: "x + hdr_size (h x) \<notin> insert p ?F" if "x \<in> ?F" for x
      using that f(6)[OF that] neighbour_below[OF ok p that] c False by (auto simp: q_def)
    have "half_merged h1 base lim D p c prev"
      unfolding half_merged_def F' sz1
    proof (intro conjI)
      show "D = insert p ?F \<union> allocs h1 D"
        using f(10) A' pD(1) by auto
      show "ring h1 (insert p ?F)"
        by (rule ring_insert[OF f(4,3) _ pF c]) (use cF cp pF f(7)[OF cF] in \<open>auto simp: h1_def q_def\<close>)
      show "nxt (insert p ?F) c = p"
        using nxt_insert[OF f(3) pF cF] c by simp
      show "\<forall>x\<in>insert p ?F. x \<noteq> p \<longrightarrow> x + hdr_size (h x) \<notin> insert p ?F"
        using below by blast
      show "p + hdr_size (h p) \<in> insert p ?F \<longrightarrow> p + hdr_size (h p) = c"
        using neighbour_above[OF ok p] c tiled_bounds[OF f(1) pD(1)] by auto
      show "c \<noteq> p \<longrightarrow> nxt (insert p ?F) (if c = prev then p else prev) = c"
      proof (cases "c = prev")
        case True
        then show ?thesis using nxt_inserted[OF f(3) _ pF] prev c cF by auto
      next
        case False
        then show ?thesis using nxt_insert[OF f(3) pF prev(1)] prev(2) c by auto
      qed
    qed (use f(1,9) below[OF cF] cF prev in auto)
    then show ?thesis
      using F' A' cF unfolding e by (auto simp: h1_def intro!: exI[of _ D])
  qed
  then obtain D2 where D2: "half_merged h2 base lim D2 p2 c prev" "allocs h2 D2 = allocs h D - {p}"
    "frees h2 D2 \<subseteq> insert p ?F" "\<And>x. x \<notin> insert p ?F \<Longrightarrow> h2 x = h x"
    by blast
  obtain first' h' where m': "merge_prev p2 prev c h2 = (first', h')" by fastforce
  obtain D' where D': "region_ok h' first' base lim D'" "allocs h' D' = allocs h D - {p}"
    "\<And>x. x \<notin> frees h2 D2 \<Longrightarrow> h' x = h2 x"
    using merge_prev_ok[OF D2(1) m'] D2(2) by auto
  have same: "h' x = h x" if "x \<notin> insert p ?F" for x
    using D'(3)[of x] D2(4)[OF that] that D2(3) by (metis subsetD)
  have "free_link p prev c h = (first', h')"
    unfolding free_link_def Let_def h1 m by (simp add: m')
  moreover have "x \<notin> insert p ?F" if "x \<notin> {base..<lim}" for x
    using that tiled_bounds[OF f(1)] pD(1) frees_D by auto
  moreover have "x \<notin> insert p ?F" if "x \<in> allocs h D - {p}" for x
    using that by (auto simp: frees_def allocs_def)
  ultimately show ?thesis
    using D' same by (auto simp: freed_def)
qed


lemma free_block_freed:
  assumes ok: "region_ok h first base lim D" and p: "p \<in> allocs h D"
  shows "\<exists>x. free_block p first h = Some (Inr x) \<and> freed p base lim h D x"
proof (cases "frees h D = {}")
  case True
  note f = region_facts[OF ok]
  have first: "hdr_magic (h first) = GRUB_MM_ALLOC_MAGIC" and pD: "p \<in> D" "hdr_magic (h p) = GRUB_MM_ALLOC_MAGIC"
    using f(5,10) True p by (auto simp: allocs_def)
  define h' where "h' = h(p := (h p)\<lparr>hdr_magic := GRUB_MM_FREE_MAGIC, hdr_next := p\<rparr>)"
  have F': "frees h' D = {p}" and A': "allocs h' D = allocs h D - {p}"
    using True pD by (auto simp: h'_def frees_def allocs_def)
  have "region_ok h' p base lim D"
  proof (rule region_okI[OF f(9) _ F'])
    show "tiled (\<lambda>a. hdr_size (h' a)) base lim D"
      using f(1) by (rule tiled_cong) (simp add: h'_def)
    show "D = {p} \<union> allocs h' D"
      using f(10) True A' pD by auto
  qed (use pD tiled_bounds[OF f(1) pD(1)] in \<open>auto simp: ring_single h'_def\<close>)
  moreover have "h' x = h x" if "x \<notin> {base..<lim}" for x
    using that tiled_bounds[OF f(1) pD(1)] by (auto simp: h'_def)
  ultimately have "freed p base lim h D (p, h')"
    using A' by (auto simp: freed_def h'_def)
  then show ?thesis
    using first by (auto simp: free_block_def h'_def)
next
  case False
  note f = region_facts[OF ok]
  have first: "first \<in> frees h D" using False f(8) by blast
  then have m: "hdr_magic (h first) = GRUB_MM_FREE_MAGIC" "hdr_next (h first) = nxt (frees h D) first"
    using f(7) by auto
  obtain prev' where "free_loop p first (nxt (frees h D) first) h = Some (Inr (prev', prd (frees h D) p))"
    "prev' \<in> frees h D" "nxt (frees h D) prev' = prd (frees h D) p"
    using free_loop_result[OF ok p nxt_in[OF f(3) first] first refl] by blast
  then show ?thesis
    using free_link_freed[OF ok p _ _ refl] m by (auto simp: free_block_def)
qed

end
