(* ===== verification/GrubMMHeap.thy ===== *)
theory GrubMMHeap
  imports GrubMMRegion
begin

text \<open>
  The whole heap of the boot loader: regions that do not overlap, the blocks in use, and the lemmas on
  allocating and freeing a block in it.  The last section has two small heaps that the witnesses use.
\<close>


section \<open>Well-formed heaps\<close>

definition reg_base :: "grub_mm_region \<Rightarrow> nat" where
  "reg_base r = reg_addr r + 2"

definition reg_lim :: "grub_mm_region \<Rightarrow> nat" where
  "reg_lim r = reg_base r + unat (reg_size r) div 16"

text \<open>The bytes that a region was given.\<close>

definition reg_area :: "grub_mm_region \<Rightarrow> nat set" where
  "reg_area r = {16 * reg_addr r - unat (reg_pre_size r)..<16 * reg_lim r + unat (reg_post_size r)}"

definition reg_wf :: "grub_mm_region \<Rightarrow> bool" where
  "reg_wf r \<longleftrightarrow> unat (reg_pre_size r) < 16 \<and> unat (reg_post_size r) < 16 \<and> 16 dvd unat (reg_size r)
    \<and> unat (reg_pre_size r) \<le> 16 * reg_addr r
    \<and> 16 * reg_lim r + unat (reg_post_size r) \<le> 2 ^ 32 - 0x1000"

definition heap_ok :: "mm_state \<Rightarrow> bool" where
  "heap_ok s \<longleftrightarrow> sorted_wrt disjnt (map reg_area (mm_base s)) \<and>
    (\<forall>r\<in>set (mm_base s). reg_wf r \<and> (\<exists>D. region_ok (mm_hdr s) (reg_first r) (reg_base r) (reg_lim r) D))"

text \<open>The blocks that are in use: address and size of their data, in bytes.\<close>

definition data_of :: "headers \<Rightarrow> nat \<Rightarrow> nat \<times> nat" where
  "data_of h a = (16 * (a + 1), 16 * (hdr_size (h a) - 1))"

definition live_in :: "headers \<Rightarrow> grub_mm_region \<Rightarrow> (nat \<times> nat) set" where
  "live_in h r = {data_of h a |a D. tiled (\<lambda>a. hdr_size (h a)) (reg_base r) (reg_lim r) D \<and> a \<in> allocs h D}"

definition live :: "mm_state \<Rightarrow> (nat \<times> nat) set" where
  "live s = (\<Union>r\<in>set (mm_base s). live_in (mm_hdr s) r)"

definition bytes_of :: "nat \<times> nat \<Rightarrow> nat set" where
  "bytes_of b = {fst b..<fst b + snd b}"

lemma live_in_eq:
  assumes "region_ok h first (reg_base r) (reg_lim r) D"
  shows "live_in h r = data_of h ` allocs h D"
proof -
  note t = region_facts(1)[OF assms]
  have "D' = D" if "tiled (\<lambda>a. hdr_size (h a)) (reg_base r) (reg_lim r) D'" for D'
    using tiled_unique[OF that t] .
  with t show ?thesis
    unfolding live_in_def by blast
qed

lemma inj_data_of: "data_of h a = data_of h b \<longleftrightarrow> a = b"
  by (auto simp: data_of_def)

text \<open>The cells of a region, with its descriptor, lie in its area.\<close>

lemma cells_in_area:
  assumes "reg_wf r" "reg_addr r \<le> a" "a < reg_lim r"
  shows "{16 * a..<16 * (a + 1)} \<subseteq> reg_area r"
  using assms by (auto simp: reg_wf_def reg_area_def)

lemma cells_apart:
  assumes "disjnt (reg_area r) (reg_area q)" "reg_wf r" "reg_wf q" "a \<in> {reg_base r..<reg_lim r}"
  shows "a \<notin> {reg_base q..<reg_lim q}"
proof
  assume "a \<in> {reg_base q..<reg_lim q}"
  then have "16 * a \<in> reg_area r" "16 * a \<in> reg_area q"
    using assms cells_in_area[of r a] cells_in_area[of q a] by (auto simp: reg_base_def)
  then show False using assms(1) by (auto simp: disjnt_iff)
qed

lemma heap_ok_wf: "heap_ok s \<Longrightarrow> i < length (mm_base s) \<Longrightarrow> reg_wf (mm_base s ! i)"
  by (simp add: heap_ok_def)

lemma heap_ok_region:
  "heap_ok s \<Longrightarrow> i < length (mm_base s) \<Longrightarrow>
    \<exists>D. region_ok (mm_hdr s) (reg_first (mm_base s ! i)) (reg_base (mm_base s ! i)) (reg_lim (mm_base s ! i)) D"
  by (simp add: heap_ok_def)

lemma areas_apart:
  assumes "heap_ok s" "i < length (mm_base s)" "j < length (mm_base s)" "i \<noteq> j"
  shows "disjnt (reg_area (mm_base s ! i)) (reg_area (mm_base s ! j))"
proof -
  have "disjnt (reg_area (mm_base s ! a)) (reg_area (mm_base s ! b))" if "a < b" "b < length (mm_base s)" for a b
    using assms(1) that by (auto simp: heap_ok_def sorted_wrt_iff_nth_less)
  then show ?thesis
    using assms(2-4) by (metis disjnt_sym linorder_neqE_nat)
qed

text \<open>Changing one region.\<close>

definition with_region :: "nat \<Rightarrow> nat \<Rightarrow> headers \<Rightarrow> mm_state \<Rightarrow> mm_state" where
  "with_region i first h s = s\<lparr>mm_base := (mm_base s)[i := (mm_base s ! i)\<lparr>reg_first := first\<rparr>], mm_hdr := h\<rparr>"

lemma reg_first_irrelevant [simp]:
  "reg_base (r\<lparr>reg_first := f\<rparr>) = reg_base r" "reg_lim (r\<lparr>reg_first := f\<rparr>) = reg_lim r"
  "reg_area (r\<lparr>reg_first := f\<rparr>) = reg_area r" "reg_wf (r\<lparr>reg_first := f\<rparr>) = reg_wf r"
  "live_in h (r\<lparr>reg_first := f\<rparr>) = live_in h r" "reg_start (r\<lparr>reg_first := f\<rparr>) = reg_start r"
  by (simp_all add: reg_base_def reg_lim_def reg_area_def reg_wf_def live_in_def reg_start_def)

lemma region_ok_cong:
  assumes "region_ok h first base lim D" "\<And>x. x \<in> {base..<lim} \<Longrightarrow> h' x = h x"
  shows "region_ok h' first base lim D"
proof -
  have e: "h' x = h x" if "x \<in> D" for x
    using assms that tiled_bounds[OF region_facts(1)[OF assms(1)] that] by auto
  then have "frees h' D = frees h D" "allocs h' D = allocs h D"
    by (auto simp: frees_def allocs_def)
  moreover have "tiled (\<lambda>a. hdr_size (h' a)) base lim D"
    using region_facts(1)[OF assms(1)] by (rule tiled_cong) (simp add: e)
  moreover have "ring h' (frees h D)"
    using region_facts(4)[OF assms(1)] by (rule ring_cong) (simp add: e frees_def)
  ultimately show ?thesis
    using assms(1) e by (auto simp: region_ok_def frees_def)
qed

lemma live_in_cong:
  assumes "region_ok h first (reg_base r) (reg_lim r) D" "\<And>x. x \<in> {reg_base r..<reg_lim r} \<Longrightarrow> h' x = h x"
  shows "live_in h' r = live_in h r"
proof -
  have e: "h' x = h x" if "x \<in> D" for x
    using assms that tiled_bounds[OF region_facts(1)[OF assms(1)] that] by auto
  then have "allocs h' D = allocs h D" by (auto simp: allocs_def)
  moreover have "data_of h' a = data_of h a" if "a \<in> allocs h D" for a
    using that e by (auto simp: allocs_def data_of_def)
  moreover have "live_in h r = data_of h ` allocs h D"
    by (rule live_in_eq[OF assms(1)])
  moreover have "live_in h' r = data_of h' ` allocs h' D"
    by (rule live_in_eq[OF region_ok_cong[OF assms(1)]]) (rule assms(2))
  ultimately show ?thesis
    by (simp add: image_def)
qed

lemma replace_region_ok:
  assumes ok: "heap_ok s" and i: "i < length (mm_base s)" and wf: "reg_wf r'"
    and disj: "\<And>j. j < length (mm_base s) \<Longrightarrow> j \<noteq> i \<Longrightarrow> disjnt (reg_area r') (reg_area (mm_base s ! j))"
    and ok': "region_ok h' (reg_first r') (reg_base r') (reg_lim r') D'"
    and frame: "\<And>x. x \<notin> {reg_base r'..<reg_lim r'} \<Longrightarrow> h' x = mm_hdr s x"
    and s': "s' = s\<lparr>mm_base := (mm_base s)[i := r'], mm_hdr := h'\<rparr>"
  shows "heap_ok s'"
    and "live s' = (\<Union>j\<in>{..<length (mm_base s)} - {i}. live_in (mm_hdr s) (mm_base s ! j)) \<union> data_of h' ` allocs h' D'"
proof -
  let ?rs = "mm_base s"
  have other: "region_ok h' (reg_first (?rs ! j)) (reg_base (?rs ! j)) (reg_lim (?rs ! j)) D
      \<and> live_in h' (?rs ! j) = live_in (mm_hdr s) (?rs ! j)"
    if j: "j < length ?rs" "j \<noteq> i"
      and D: "region_ok (mm_hdr s) (reg_first (?rs ! j)) (reg_base (?rs ! j)) (reg_lim (?rs ! j)) D" for j D
  proof -
    have "h' x = mm_hdr s x" if "x \<in> {reg_base (?rs ! j)..<reg_lim (?rs ! j)}" for x
      using cells_apart[OF disjnt_sym[OF disj[OF j]] heap_ok_wf[OF ok j(1)] wf that] frame[of x] by blast
    then show ?thesis
      using region_ok_cong[OF D] live_in_cong[OF D] by blast
  qed
  have len: "length (mm_base s') = length ?rs" and hdr: "mm_hdr s' = h'"
    and nth: "\<And>j. j < length ?rs \<Longrightarrow> mm_base s' ! j = (if j = i then r' else ?rs ! j)"
    by (auto simp: s')
  have "disjnt (reg_area (mm_base s' ! a)) (reg_area (mm_base s' ! b))" if "a < b" "b < length ?rs" for a b
    using that areas_apart[OF ok, of a b] disj[of a] disj[of b] by (auto simp: nth disjnt_sym)
  then have areas: "sorted_wrt disjnt (map reg_area (mm_base s'))"
    by (auto simp: sorted_wrt_iff_nth_less len)
  have "reg_wf (mm_base s' ! j) \<and> (\<exists>D. region_ok h' (reg_first (mm_base s' ! j)) (reg_base (mm_base s' ! j))
      (reg_lim (mm_base s' ! j)) D)" if j: "j < length ?rs" for j
  proof (cases "j = i")
    case True
    then show ?thesis using ok' wf by (auto simp: nth[OF i])
  next
    case False
    then show ?thesis using other[OF j False] heap_ok_region[OF ok j] heap_ok_wf[OF ok j] by (auto simp: nth[OF j])
  qed
  then show "heap_ok s'"
    using areas len by (auto simp: heap_ok_def hdr in_set_conv_nth)
  have "live s' = (\<Union>j<length ?rs. live_in h' (mm_base s' ! j))"
    by (auto simp: live_def hdr set_conv_nth len)
  also have "\<dots> = (\<Union>j\<in>{..<length ?rs} - {i}. live_in h' (mm_base s' ! j)) \<union> live_in h' (mm_base s' ! i)"
    using i by auto
  also have "live_in h' (mm_base s' ! i) = data_of h' ` allocs h' D'"
    using live_in_eq[OF ok'] i by (simp add: nth)
  also have "(\<Union>j\<in>{..<length ?rs} - {i}. live_in h' (mm_base s' ! j))
      = (\<Union>j\<in>{..<length ?rs} - {i}. live_in (mm_hdr s) (?rs ! j))"
  proof (intro SUP_cong refl)
    fix j
    assume "j \<in> {..<length ?rs} - {i}"
    then show "live_in h' (mm_base s' ! j) = live_in (mm_hdr s) (?rs ! j)"
      using other[of j] heap_ok_region[OF ok, of j] by (auto simp: nth)
  qed
  finally show "live s' = (\<Union>j\<in>{..<length ?rs} - {i}. live_in (mm_hdr s) (?rs ! j)) \<union> data_of h' ` allocs h' D'" .
qed

lemma with_region_ok:
  assumes ok: "heap_ok s" and i: "i < length (mm_base s)" and r: "r = mm_base s ! i"
    and ok': "region_ok h' first' (reg_base r) (reg_lim r) D'"
    and frame: "\<And>x. x \<notin> {reg_base r..<reg_lim r} \<Longrightarrow> h' x = mm_hdr s x"
  shows "heap_ok (with_region i first' h' s)"
    and "live (with_region i first' h' s) =
      (\<Union>j\<in>{..<length (mm_base s)} - {i}. live_in (mm_hdr s) (mm_base s ! j)) \<union> data_of h' ` allocs h' D'"
  using replace_region_ok[OF ok i, of "r\<lparr>reg_first := first'\<rparr>" h' D' "with_region i first' h' s"]
    heap_ok_wf[OF ok i] areas_apart[OF ok i] ok' frame
  by (auto simp: with_region_def r)


section \<open>Allocation in the heap\<close>

lemma live_split:
  assumes "heap_ok s" "i < length (mm_base s)" "r = mm_base s ! i"
    and "region_ok (mm_hdr s) (reg_first r) (reg_base r) (reg_lim r) D"
  shows "live s = (\<Union>j\<in>{..<length (mm_base s)} - {i}. live_in (mm_hdr s) (mm_base s ! j))
      \<union> data_of (mm_hdr s) ` allocs (mm_hdr s) D"
proof -
  have "live s = (\<Union>j<length (mm_base s). live_in (mm_hdr s) (mm_base s ! j))"
    by (auto simp: live_def set_conv_nth)
  then show ?thesis
    using assms(2,3) live_in_eq[OF assms(4)] by auto
qed

text \<open>The data of a block in another region starts elsewhere.\<close>

lemma live_elsewhere:
  assumes ok: "heap_ok s" and i: "i < length (mm_base s)" and j: "j < length (mm_base s)" "j \<noteq> i"
    and b: "(16 * (a + 1), k) \<in> live_in (mm_hdr s) (mm_base s ! j)"
  shows "a \<notin> {reg_base (mm_base s ! i)..<reg_lim (mm_base s ! i)}"
proof -
  obtain D where D: "tiled (\<lambda>a. hdr_size (mm_hdr s a)) (reg_base (mm_base s ! j)) (reg_lim (mm_base s ! j)) D"
      "a \<in> allocs (mm_hdr s) D"
    using b by (auto simp: live_in_def data_of_def)
  then have "a \<in> {reg_base (mm_base s ! j)..<reg_lim (mm_base s ! j)}"
    using tiled_bounds[OF D(1), of a] by (auto simp: allocs_def)
  then show ?thesis
    using cells_apart[OF areas_apart[OF ok j(1) i j(2)] heap_ok_wf[OF ok j(1)] heap_ok_wf[OF ok i]] by blast
qed

definition region_full :: "nat \<Rightarrow> nat \<Rightarrow> headers \<Rightarrow> grub_mm_region \<Rightarrow> bool" where
  "region_full n align h r \<longleftrightarrow> (\<forall>D. region_ok h (reg_first r) (reg_base r) (reg_lim r) D \<longrightarrow>
    (\<forall>f\<in>frees h D. hdr_size (h f) < n + align_extra align f))"

lemma region_full_iff:
  assumes "region_ok h (reg_first r) (reg_base r) (reg_lim r) D"
  shows "region_full n align h r \<longleftrightarrow> (\<forall>f\<in>frees h D. hdr_size (h f) < n + align_extra align f)"
proof -
  have "D' = D" if "region_ok h (reg_first r) (reg_base r) (reg_lim r) D'" for D'
    using tiled_unique[OF region_facts(1)[OF that] region_facts(1)[OF assms]] .
  with assms show ?thesis
    unfolding region_full_def by blast
qed

lemma malloc_regions_result:
  assumes "\<And>r. r \<in> set rs \<Longrightarrow> \<exists>D. region_ok h (reg_first r) (reg_base r) (reg_lim r) D" "0 < n" "align = 2 ^ e"
  shows "\<exists>p rs' h'. malloc_regions n align rs h = Some (Inr (p, rs', h')) \<and>
    (if p = 0 then rs' = rs \<and> h' = h \<and> (\<forall>r\<in>set rs. region_full n align h r)
     else \<exists>i first' D. i < length rs \<and> rs' = rs[i := (rs ! i)\<lparr>reg_first := first'\<rparr>]
       \<and> region_ok h (reg_first (rs ! i)) (reg_base (rs ! i)) (reg_lim (rs ! i)) D
       \<and> taken n align (reg_base (rs ! i)) (reg_lim (rs ! i)) h D (p, first', h'))"
  using assms(1)
proof (induction rs)
  case Nil
  then show ?case by simp
next
  case (Cons r rs)
  obtain D where D: "region_ok h (reg_first r) (reg_base r) (reg_lim r) D"
    using Cons.prems[of r] by auto
  obtain p first' h' where p: "grub_real_malloc (reg_first r) n align h = Some (Inr (p, first', h'))"
    "if p = 0 then first' = reg_first r \<and> h' = h \<and> (\<forall>g\<in>frees h D. hdr_size (h g) < n + align_extra align g)
     else taken n align (reg_base r) (reg_lim r) h D (p, first', h')"
    using grub_real_malloc_result[OF D assms(2,3)] by blast
  show ?case
  proof (cases "p = 0")
    case False
    have "\<exists>i f D. i < length (r # rs) \<and> r\<lparr>reg_first := first'\<rparr> # rs = (r # rs)[i := ((r # rs) ! i)\<lparr>reg_first := f\<rparr>]
       \<and> region_ok h (reg_first ((r # rs) ! i)) (reg_base ((r # rs) ! i)) (reg_lim ((r # rs) ! i)) D
       \<and> taken n align (reg_base ((r # rs) ! i)) (reg_lim ((r # rs) ! i)) h D (p, f, h')"
      by (rule exI[where x = 0], rule exI[where x = first'], rule exI[where x = D]) (use p(2) D False in simp)
    then show ?thesis
      using p(1) False by simp
  next
    case True
    then have e: "first' = reg_first r" "h' = h" and full: "region_full n align h r"
      using p(2) region_full_iff[OF D] by auto
    obtain q rs' h2 where q: "malloc_regions n align rs h = Some (Inr (q, rs', h2))"
      "if q = 0 then rs' = rs \<and> h2 = h \<and> (\<forall>r\<in>set rs. region_full n align h r)
       else \<exists>i first' D. i < length rs \<and> rs' = rs[i := (rs ! i)\<lparr>reg_first := first'\<rparr>]
         \<and> region_ok h (reg_first (rs ! i)) (reg_base (rs ! i)) (reg_lim (rs ! i)) D
         \<and> taken n align (reg_base (rs ! i)) (reg_lim (rs ! i)) h D (q, first', h2)"
      using Cons.IH Cons.prems by auto
    have m: "malloc_regions n align (r # rs) h = Some (Inr (q, r # rs', h2))"
      using p(1) True q(1) by (simp add: e)
    show ?thesis
    proof (cases "q = 0")
      case True
      then show ?thesis using m q(2) full by auto
    next
      case False
      then obtain i first' D where "i < length rs" "rs' = rs[i := (rs ! i)\<lparr>reg_first := first'\<rparr>]"
         "region_ok h (reg_first (rs ! i)) (reg_base (rs ! i)) (reg_lim (rs ! i)) D"
         "taken n align (reg_base (rs ! i)) (reg_lim (rs ! i)) h D (q, first', h2)"
        using q(2) by auto
      then have "\<exists>i f D. i < length (r # rs) \<and> r # rs' = (r # rs)[i := ((r # rs) ! i)\<lparr>reg_first := f\<rparr>]
         \<and> region_ok h (reg_first ((r # rs) ! i)) (reg_base ((r # rs) ! i)) (reg_lim ((r # rs) ! i)) D
         \<and> taken n align (reg_base ((r # rs) ! i)) (reg_lim ((r # rs) ! i)) h D (q, f, h2)"
        by - (rule exI[where x = "Suc i"], rule exI[where x = first'], rule exI[where x = D], simp)
      then show ?thesis
        using m False by simp
    qed
  qed
qed

text \<open>One round of \<open>grub_memalign\<close>.\<close>

lemma malloc_round:
  assumes ok: "heap_ok s" and n: "0 < n" and al: "align = 2 ^ e"
  shows "\<exists>p rs' h'. malloc_regions n align (mm_base s) (mm_hdr s) = Some (Inr (p, rs', h')) \<and>
    (if p = 0 then s\<lparr>mm_base := rs', mm_hdr := h'\<rparr> = s \<and> (\<forall>r\<in>set (mm_base s). region_full n align (mm_hdr s) r)
     else heap_ok (s\<lparr>mm_base := rs', mm_hdr := h'\<rparr>) \<and> (16 * p, 16 * (n - 1)) \<notin> live s
       \<and> live (s\<lparr>mm_base := rs', mm_hdr := h'\<rparr>) = insert (16 * p, 16 * (n - 1)) (live s)
       \<and> align dvd p \<and> 16 * p < 2 ^ 32)"
proof -
  obtain p rs' h' where m: "malloc_regions n align (mm_base s) (mm_hdr s) = Some (Inr (p, rs', h'))"
    "if p = 0 then rs' = mm_base s \<and> h' = mm_hdr s \<and> (\<forall>r\<in>set (mm_base s). region_full n align (mm_hdr s) r)
     else \<exists>i first' D. i < length (mm_base s) \<and> rs' = (mm_base s)[i := (mm_base s ! i)\<lparr>reg_first := first'\<rparr>]
       \<and> region_ok (mm_hdr s) (reg_first (mm_base s ! i)) (reg_base (mm_base s ! i)) (reg_lim (mm_base s ! i)) D
       \<and> taken n align (reg_base (mm_base s ! i)) (reg_lim (mm_base s ! i)) (mm_hdr s) D (p, first', h')"
    using malloc_regions_result[OF _ n al, of "mm_base s" "mm_hdr s"] ok unfolding heap_ok_def by blast
  show ?thesis
  proof (cases "p = 0")
    case True
    then show ?thesis using m by auto
  next
    case False
    then obtain i first' D where i: "i < length (mm_base s)"
      and rs': "rs' = (mm_base s)[i := (mm_base s ! i)\<lparr>reg_first := first'\<rparr>]"
      and D: "region_ok (mm_hdr s) (reg_first (mm_base s ! i)) (reg_base (mm_base s ! i)) (reg_lim (mm_base s ! i)) D"
      and t: "taken n align (reg_base (mm_base s ! i)) (reg_lim (mm_base s ! i)) (mm_hdr s) D (p, first', h')"
      using m(2) by auto
    let ?r = "mm_base s ! i"
    obtain c D' where c: "p = c + 1" "region_ok h' first' (reg_base ?r) (reg_lim ?r) D'" "c \<notin> allocs (mm_hdr s) D"
      "allocs h' D' = insert c (allocs (mm_hdr s) D)" "hdr_size (h' c) = n" "align dvd c + 1"
      and same: "\<And>a. a \<in> allocs (mm_hdr s) D \<Longrightarrow> h' a = mm_hdr s a"
      and frame: "\<And>x. x \<notin> {reg_base ?r..<reg_lim ?r} \<Longrightarrow> h' x = mm_hdr s x"
      using t unfolding taken_def by auto
    have s': "s\<lparr>mm_base := rs', mm_hdr := h'\<rparr> = with_region i first' h' s"
      by (simp add: with_region_def rs')
    have data: "data_of h' ` allocs h' D' = insert (16 * p, 16 * (n - 1)) (data_of (mm_hdr s) ` allocs (mm_hdr s) D)"
      unfolding c(4) image_insert using same c(1,5) by (auto simp: data_of_def image_def)
    have cin: "c \<in> {reg_base ?r..<reg_lim ?r}"
      using tiled_bounds[OF region_facts(1)[OF c(2)], of c] c(4) by (auto simp: allocs_def)
    have "(16 * p, 16 * (n - 1)) \<notin> live s"
      using live_elsewhere[OF ok i, of _ c] cin c(3) unfolding live_split[OF ok i refl D] c(1)
      by (auto simp: data_of_def)
    moreover have "16 * p < 2 ^ 32"
      using heap_ok_wf[OF ok i] cin c(1) by (auto simp: reg_wf_def)
    ultimately show ?thesis
      using m(1) False with_region_ok[OF ok i refl c(2) frame] live_split[OF ok i refl D] data c(1,6)
      unfolding s' by (intro exI[of _ p] exI[of _ rs'] exI[of _ h']) (auto simp: s')
  qed
qed


text \<open>A change of the heap that leaves the blocks \<open>K\<close> alone, with their contents.\<close>

definition keeps :: "(nat \<times> nat) set \<Rightarrow> mm_state \<Rightarrow> mm_state \<Rightarrow> bool" where
  "keeps K s s' \<longleftrightarrow> heap_ok s' \<and> K \<subseteq> live s' \<and>
    (\<forall>b\<in>K. \<forall>x\<in>bytes_of b. mm_bytes s' (of_nat x) = mm_bytes s (of_nat x))"

text \<open>What the allocator relies on when it calls back: the heap stays well-formed, and the blocks that the
  caller holds stay.\<close>

definition env_keeps :: "mm_env \<Rightarrow> (nat \<times> nat) set \<Rightarrow> bool" where
  "env_keeps env K \<longleftrightarrow> (\<forall>s. heap_ok s \<and> K \<subseteq> live s \<longrightarrow> keeps K s (cache_invalidate env s) \<and>
    (\<forall>f grow c. add_region_fn env = Some f \<longrightarrow> keeps K s (snd (f grow c s))))"

lemma keeps_refl: "heap_ok s \<Longrightarrow> K \<subseteq> live s \<Longrightarrow> keeps K s s"
  by (simp add: keeps_def)

lemma keeps_trans: "keeps K s s' \<Longrightarrow> keeps K s' s'' \<Longrightarrow> keeps K s s''"
  by (simp add: keeps_def)

lemma keepsD: "keeps K s s' \<Longrightarrow> heap_ok s'" "keeps K s s' \<Longrightarrow> K \<subseteq> live s'"
  by (simp_all add: keeps_def)

definition memalign_result :: "(nat \<times> nat) set \<Rightarrow> nat \<Rightarrow> nat \<Rightarrow> mm_state \<Rightarrow> (mm_fatal + (u32 \<times> mm_state)) option \<Rightarrow> bool" where
  "memalign_result K n align s res \<longleftrightarrow> (\<exists>ret s'. res = Some (Inr (ret, s')) \<and> keeps K s s' \<and>
    (ret \<noteq> 0 \<longrightarrow> (unat ret, 16 * (n - 1)) \<in> live s' - K \<and> 16 * align dvd unat ret))"

lemma memalign_result_keeps:
  "keeps K s s' \<Longrightarrow> memalign_result K n align s' res \<Longrightarrow> memalign_result K n align s res"
  unfolding memalign_result_def using keeps_trans by blast

lemma memalign_again_result:
  assumes env: "env_keeps env K" and n: "0 < n" and al: "align = 2 ^ e"
    and ok: "heap_ok s" and K: "K \<subseteq> live s"
  shows "memalign_result K n align s (memalign_again env n align count grow s)"
  using ok K
proof (induction "3 - count" arbitrary: count grow s rule: less_induct)
  case less
  have IH: "memalign_result K n align s (memalign_again env n align c g s2)" if "keeps K s s2" "3 - c < 3 - count" for c g s2
    using memalign_result_keeps[OF that(1) less.hyps[OF that(2) keepsD(1)[OF that(1)] keepsD(2)[OF that(1)]]] .
  have inv: "keeps K s (cache_invalidate env s)"
    and add: "\<And>f g c. add_region_fn env = Some f \<Longrightarrow> keeps K s (snd (f g c s))"
    using env less.prems by (auto simp: env_keeps_def)
  have add2: "keeps K s (snd (f g c' (snd (f g' c s))))" if "add_region_fn env = Some f" for f g c g' c'
  proof (rule keeps_trans[OF add[OF that]])
    have "keeps K s (snd (f g' c s))" by (rule add[OF that])
    then show "keeps K (snd (f g' c s)) (snd (f g c' (snd (f g' c s))))"
      using env that by (auto simp: env_keeps_def dest: keepsD)
  qed
  obtain p rs' h' where m: "malloc_regions n align (mm_base s) (mm_hdr s) = Some (Inr (p, rs', h'))"
    and r: "if p = 0 then s\<lparr>mm_base := rs', mm_hdr := h'\<rparr> = s \<and> (\<forall>r\<in>set (mm_base s). region_full n align (mm_hdr s) r)
     else heap_ok (s\<lparr>mm_base := rs', mm_hdr := h'\<rparr>) \<and> (16 * p, 16 * (n - 1)) \<notin> live s
       \<and> live (s\<lparr>mm_base := rs', mm_hdr := h'\<rparr>) = insert (16 * p, 16 * (n - 1)) (live s)
       \<and> align dvd p \<and> 16 * p < 2 ^ 32"
    using malloc_round[OF less.prems(1) n al] by blast
  show ?case
  proof (cases "p = 0")
    case False
    then have "memalign_again env n align count grow s = Some (Inr (cell_addr p, s\<lparr>mm_base := rs', mm_hdr := h'\<rparr>))"
      using m by (subst memalign_again.simps) (simp add: Let_def)
    moreover have "unat (cell_addr p) = 16 * p"
      using False r by (simp del: of_nat_mult)
    ultimately show ?thesis
      using False r less.prems(2) by (auto simp: memalign_result_def keeps_def)
  next
    case True
    then have s: "s\<lparr>mm_base := rs', mm_hdr := h'\<rparr> = s" using r by simp
    have fail: "memalign_result K n align s (Some (Inr (0, s)))"
      using keeps_refl[OF less.prems] by (simp add: memalign_result_def)
    show ?thesis
    proof (cases "count \<ge> 3")
      case True
      then show ?thesis
        using \<open>p = 0\<close> m s fail by (subst memalign_again.simps) (simp add: Let_def)
    next
      case False
      then show ?thesis
        using \<open>p = 0\<close> m s fail inv add add2
        by (subst memalign_again.simps) (auto simp: Let_def intro!: IH split: option.split prod.split, (metis snd_conv)+)
    qed
  qed
qed

lemma cells_for_small:
  assumes "unat sz \<le> 0xFFFFFFF0"
  shows "unat (cells_for sz) = (unat sz + 15) div 16 + 1"
proof -
  have "unat (sz + 16 - 1) = unat sz + 15"
  proof -
    have "sz + 16 - 1 = sz + 15" by simp
    then show ?thesis using assms by (simp add: unat_word_ariths)
  qed
  then have "unat (drop_bit 4 (sz + 16 - 1)) = (unat sz + 15) div 16"
    by (simp add: unat_drop_bit)
  moreover have "(unat sz + 15) div 16 + 1 < 2 ^ 32" using unat_less[of sz] by simp
  ultimately show ?thesis unfolding cells_for_def by (simp add: unat_word_ariths)
qed

lemma cells_for_value:
  assumes "sz \<le> NOT 0x100000"
  shows "unat (cells_for sz) = (unat sz + 15) div 16 + 1"
  using assms by (intro cells_for_small) (simp add: word_le_nat_alt unat_not)



lemma live_bounds:
  assumes ok: "heap_ok s" and b: "b \<in> live s"
  shows "16 dvd fst b" "0 < fst b" "fst b + snd b < 2 ^ 32" "fst b + snd b \<le> 2 ^ 32 - 0x1000"
proof -
  obtain i where i: "i < length (mm_base s)" "b \<in> live_in (mm_hdr s) (mm_base s ! i)"
    using b by (auto simp: live_def in_set_conv_nth)
  obtain a D where t: "tiled (\<lambda>a. hdr_size (mm_hdr s a)) (reg_base (mm_base s ! i)) (reg_lim (mm_base s ! i)) D"
    and a: "a \<in> D" "b = data_of (mm_hdr s) a"
    using i(2) by (auto simp: live_in_def allocs_def)
  have "a + hdr_size (mm_hdr s a) \<le> reg_lim (mm_base s ! i)" "0 < hdr_size (mm_hdr s a)"
    using tiled_end[OF t a(1)] tiled_bounds[OF t a(1)] by auto
  moreover have "16 * reg_lim (mm_base s ! i) \<le> 2 ^ 32 - 0x1000"
    using heap_ok_wf[OF ok i(1)] by (simp add: reg_wf_def)
  ultimately show "16 dvd fst b" "0 < fst b" "fst b + snd b < 2 ^ 32" "fst b + snd b \<le> 2 ^ 32 - 0x1000"
    by (auto simp: a(2) data_of_def)
qed

text \<open>Between two blocks in use there is at least a header.\<close>

lemma live_gap:
  assumes ok: "heap_ok s" and b: "b \<in> live s" "b' \<in> live s" "b \<noteq> b'"
  shows "fst b + snd b + 16 \<le> fst b' \<or> fst b' + snd b' + 16 \<le> fst b"
proof -
  let ?rs = "mm_base s" and ?h = "mm_hdr s"
  obtain i where i: "i < length ?rs" "b \<in> live_in ?h (?rs ! i)" using b(1) by (auto simp: live_def in_set_conv_nth)
  obtain j where j: "j < length ?rs" "b' \<in> live_in ?h (?rs ! j)" using b(2) by (auto simp: live_def in_set_conv_nth)
  obtain a D where t: "tiled (\<lambda>a. hdr_size (?h a)) (reg_base (?rs ! i)) (reg_lim (?rs ! i)) D"
    and a: "a \<in> D" "b = data_of ?h a"
    using i(2) by (auto simp: live_in_def allocs_def)
  obtain a' D' where t': "tiled (\<lambda>a. hdr_size (?h a)) (reg_base (?rs ! j)) (reg_lim (?rs ! j)) D'"
    and a': "a' \<in> D'" "b' = data_of ?h a'"
    using j(2) by (auto simp: live_in_def allocs_def)
  have pos: "0 < hdr_size (?h a)" "0 < hdr_size (?h a')" using tiled_bounds[OF t a(1)] tiled_bounds[OF t' a'(1)] by auto
  have "a + hdr_size (?h a) \<le> a' \<or> a' + hdr_size (?h a') \<le> a"
  proof (cases "i = j")
    case True
    then have "D' = D" using tiled_unique[OF t'] t by simp
    then show ?thesis
      using tiled_apart[OF t a(1), of a'] tiled_apart[OF t, of a' a] a a' b(3) by (metis linorder_neqE_nat)
  next
    case False
    have "a \<notin> {reg_base (?rs ! j)..<reg_lim (?rs ! j)}" "a' \<notin> {reg_base (?rs ! i)..<reg_lim (?rs ! i)}"
      using cells_apart[OF areas_apart[OF ok i(1) j(1) False] heap_ok_wf[OF ok i(1)] heap_ok_wf[OF ok j(1)]]
        tiled_bounds[OF t a(1)] tiled_bounds[OF t' a'(1)] by fastforce+
    then show ?thesis
      using tiled_bounds[OF t a(1)] tiled_bounds[OF t' a'(1)] tiled_end[OF t a(1)] tiled_end[OF t' a'(1)]
      by fastforce
  qed
  then show ?thesis using pos by (auto simp: a(2) a'(2) data_of_def)
qed

lemma live_apart:
  assumes "heap_ok s" "b \<in> live s" "b' \<in> live s" "b \<noteq> b'"
  shows "bytes_of b \<inter> bytes_of b' = {}"
  using live_gap[OF assms] by (auto simp: bytes_of_def)


lemma grub_memalign_keeps:
  assumes ok: "heap_ok s" "K \<subseteq> live s" and env: "env_keeps env K" and al: "align = 0 \<or> (\<exists>e. unat align = 2 ^ e)"
  shows "\<exists>ret s'. grub_memalign env align sz s = Some (Inr (ret, s')) \<and> keeps K s s' \<and>
    (ret \<noteq> 0 \<longrightarrow> sz \<le> NOT 0x100000 \<and> 16 dvd unat ret \<and> (align = 0 \<or> unat align dvd unat ret) \<and>
      (unat ret, 16 * (unat (cells_for sz) - 1)) \<in> live s' - K \<and> unat sz \<le> 16 * (unat (cells_for sz) - 1))"
proof -
  define a where "a = (if drop_bit 4 align = 0 then 1 else drop_bit 4 align)"
  have da: "unat (drop_bit 4 align) = unat align div 16"
    using unat_drop_bit[of 4 align] by simp
  have a: "(\<exists>e. unat a = 2 ^ e) \<and> (align = 0 \<or> unat align dvd 16 * unat a)"
  proof (cases "unat align div 16 = 0")
    case True
    then have "a = 1" using da by (simp add: a_def unat_eq_0[symmetric] del: unat_eq_0)
    moreover have "align = 0 \<or> unat align dvd 16"
    proof (cases "align = 0")
      case False
      then obtain e where e: "unat align = 2 ^ e" using al by auto
      have "(2 :: nat) ^ e < 2 ^ 4" using True e by (simp add: div_eq_0_iff)
      then have "e \<le> 4" by (rule less_imp_le_nat[OF power_less_imp_less_exp[rotated]]) simp
      then show ?thesis using e le_imp_power_dvd[of e 4 "2 :: nat"] by simp
    qed simp
    ultimately show ?thesis by (auto intro: exI[of _ 0])
  next
    case False
    then have "align \<noteq> 0" by auto
    then obtain e where e: "unat align = 2 ^ e" using al by auto
    have "4 \<le> e"
    proof (rule ccontr)
      assume "\<not> 4 \<le> e"
      then have "(2 :: nat) ^ e < 2 ^ 4" by (intro power_strict_increasing) auto
      then show False using False e by simp
    qed
    then have d: "unat align div 16 = 2 ^ (e - 4)" "16 * 2 ^ (e - 4) = unat align"
      using e power_add[of "2 :: nat" 4 "e - 4"] by simp_all
    have "unat a = 2 ^ (e - 4)"
      using False da d by (simp add: a_def unat_eq_0[symmetric] del: unat_eq_0)
    then show ?thesis using d by auto
  qed
  have refl: "keeps K s s" using keeps_refl[OF ok] .
  show ?thesis
  proof (cases "mm_base s = [] \<or> sz > NOT align \<or> sz + align > NOT 0x100000")
    case True
    then show ?thesis using refl by (auto simp: grub_memalign_def Let_def)
  next
    case False
    then have m: "grub_memalign env align sz s =
        memalign_again env (unat (cells_for sz)) (unat a) 0 (sz + align) s"
      by (simp add: grub_memalign_def Let_def a_def)
    have "unat sz \<le> 2 ^ 32 - 1 - unat align" and g: "unat (sz + align) \<le> 2 ^ 32 - 1 - 0x100000"
      using False by (simp_all add: not_less word_le_nat_alt unat_not)
    then have "unat (sz + align) = unat sz + unat align"
      using unat_less[of align] by (simp add: unat_word_ariths)
    then have le: "sz \<le> NOT 0x100000"
      using g by (simp add: word_le_nat_alt unat_not)
    have n: "unat (cells_for sz) = (unat sz + 15) div 16 + 1" by (rule cells_for_value[OF le])
    obtain e where e: "unat a = 2 ^ e" using a by blast
    have "memalign_result K (unat (cells_for sz)) (unat a) s (grub_memalign env align sz s)"
      unfolding m by (rule memalign_again_result[OF env _ e ok]) (simp add: n)
    then obtain ret s' where r: "grub_memalign env align sz s = Some (Inr (ret, s'))" "keeps K s s'"
      "ret \<noteq> 0 \<Longrightarrow> (unat ret, 16 * (unat (cells_for sz) - 1)) \<in> live s' - K \<and> 16 * unat a dvd unat ret"
      by (auto simp: memalign_result_def)
    moreover have "16 dvd unat ret \<and> (align = 0 \<or> unat align dvd unat ret)" if "ret \<noteq> 0"
      using r(3)[OF that] a dvd_trans dvd_mult_left by blast
    moreover have "unat sz \<le> 16 * (unat (cells_for sz) - 1)" by (simp add: n)
    ultimately show ?thesis using le by blast
  qed
qed



section \<open>Freeing in the heap\<close>

lemma region_of_index:
  assumes "i < length rs" "reg_start (rs ! i) < ptr" "ptr \<le> reg_start (rs ! i) + unat (reg_size (rs ! i))"
    and "\<And>j. j < i \<Longrightarrow> \<not> (reg_start (rs ! j) < ptr \<and> ptr \<le> reg_start (rs ! j) + unat (reg_size (rs ! j)))"
  shows "region_of ptr rs k = Some (k + i)"
  using assms
proof (induction rs arbitrary: i k)
  case (Cons r rs)
  show ?case
  proof (cases i)
    case 0
    then show ?thesis using Cons.prems by simp
  next
    case (Suc j)
    have "\<not> (reg_start r < ptr \<and> ptr \<le> reg_start r + unat (reg_size r))"
      using Cons.prems(4)[of 0] Suc by simp
    moreover have "region_of ptr rs (Suc k) = Some (Suc k + j)"
      using Cons.prems(1-3) Cons.prems(4)[of "Suc _"] Suc by (intro Cons.IH) auto
    ultimately show ?thesis using Suc by simp
  qed
qed simp

lemma low_bits_zero: "16 dvd unat (ptr :: u32) \<Longrightarrow> ptr AND 15 = 0"
proof -
  assume d: "16 dvd unat ptr"
  have "unat (ptr AND 15) = unat (take_bit 4 ptr)"
    by (simp add: take_bit_eq_mask mask_eq_exp_minus_1)
  also have "\<dots> = unat ptr mod 16"
    by (simp only: unsigned_take_bit_eq) (simp add: take_bit_eq_mod)
  finally show ?thesis using d by (simp add: unat_eq_0)
qed

text \<open>The header of a block in use is found, with its region.\<close>

lemma get_header_live:
  assumes ok: "heap_ok s" and b: "(unat ptr, len) \<in> live s"
  obtains i a D where "i < length (mm_base s)"
    and "region_ok (mm_hdr s) (reg_first (mm_base s ! i)) (reg_base (mm_base s ! i)) (reg_lim (mm_base s ! i)) D"
    and "a \<in> allocs (mm_hdr s) D" "(unat ptr, len) = data_of (mm_hdr s) a"
    and "get_header_from_pointer ptr s = Inr (a, i)" "ptr \<noteq> 0"
proof -
  obtain i where i: "i < length (mm_base s)" "(unat ptr, len) \<in> live_in (mm_hdr s) (mm_base s ! i)"
    using b by (auto simp: live_def in_set_conv_nth)
  obtain D where D: "region_ok (mm_hdr s) (reg_first (mm_base s ! i)) (reg_base (mm_base s ! i)) (reg_lim (mm_base s ! i)) D"
    using heap_ok_region[OF ok i(1)] by blast
  obtain a where a: "a \<in> allocs (mm_hdr s) D" "(unat ptr, len) = data_of (mm_hdr s) a"
    using i(2) live_in_eq[OF D] by auto
  then have p: "unat ptr = 16 * (a + 1)" by (simp add: data_of_def)
  have start: "reg_start r = 16 * reg_base r" for r by (simp add: reg_start_def reg_base_def)
  have lim: "16 * reg_lim (mm_base s ! j) = reg_start (mm_base s ! j) + unat (reg_size (mm_base s ! j))"
    if "j < length (mm_base s)" for j
    using heap_ok_wf[OF ok that] by (auto simp: reg_wf_def reg_lim_def start)
  have ain: "a \<in> {reg_base (mm_base s ! i)..<reg_lim (mm_base s ! i)}"
    using tiled_bounds[OF region_facts(1)[OF D], of a] a(1) by (auto simp: allocs_def)
  have "region_of (unat ptr) (mm_base s) 0 = Some (0 + i)"
  proof (rule region_of_index)
    show "reg_start (mm_base s ! i) < unat ptr" "unat ptr \<le> reg_start (mm_base s ! i) + unat (reg_size (mm_base s ! i))"
      using ain lim[OF i(1)] by (auto simp: p start)
    fix j
    assume j: "j < i"
    then have "a \<notin> {reg_base (mm_base s ! j)..<reg_lim (mm_base s ! j)}"
      using cells_apart[OF areas_apart[OF ok i(1), of j] heap_ok_wf[OF ok i(1)] heap_ok_wf[OF ok, of j] ain] i(1) by auto
    then show "\<not> (reg_start (mm_base s ! j) < unat ptr \<and>
        unat ptr \<le> reg_start (mm_base s ! j) + unat (reg_size (mm_base s ! j)))"
      using lim[of j] j i(1) by (auto simp: p start)
  qed (rule i(1))
  moreover have "ptr AND 15 = 0" by (rule low_bits_zero) (simp add: p)
  ultimately have "get_header_from_pointer ptr s = Inr (a, i)"
    using a(1) by (simp add: get_header_from_pointer_def p allocs_def)
  moreover have "ptr \<noteq> 0" using p by auto
  ultimately show thesis
    using that i(1) D a by blast
qed

lemma union_remove: "d \<notin> A \<Longrightarrow> A \<union> (X - {d}) = A \<union> X - {d}"
  by blast

lemma grub_free_live:
  assumes ok: "heap_ok s" and b: "(unat ptr, len) \<in> live s"
  shows "\<exists>s'. grub_free ptr s = Some (Inr s') \<and> heap_ok s' \<and> live s' = live s - {(unat ptr, len)}
    \<and> mm_bytes s' = mm_bytes s \<and> map reg_area (mm_base s') = map reg_area (mm_base s)"
proof -
  obtain i a D where i: "i < length (mm_base s)"
    and D: "region_ok (mm_hdr s) (reg_first (mm_base s ! i)) (reg_base (mm_base s ! i)) (reg_lim (mm_base s ! i)) D"
    and a: "a \<in> allocs (mm_hdr s) D" "(unat ptr, len) = data_of (mm_hdr s) a"
    and g: "get_header_from_pointer ptr s = Inr (a, i)" "ptr \<noteq> 0"
    using get_header_live[OF ok b] by blast
  let ?r = "mm_base s ! i" and ?h = "mm_hdr s"
  obtain first' h' where f: "free_block a (reg_first ?r) ?h = Some (Inr (first', h'))"
    and fr: "freed a (reg_base ?r) (reg_lim ?r) ?h D (first', h')"
    using free_block_freed[OF D a(1)] by auto
  obtain D' where D': "region_ok h' first' (reg_base ?r) (reg_lim ?r) D'" "allocs h' D' = allocs ?h D - {a}"
    and same: "\<And>x. x \<in> allocs ?h D - {a} \<Longrightarrow> h' x = ?h x"
    and frame: "\<And>x. x \<notin> {reg_base ?r..<reg_lim ?r} \<Longrightarrow> h' x = ?h x"
    using fr by (auto simp: freed_def)
  have s': "grub_free ptr s = Some (Inr (with_region i first' h' s))"
    by (simp add: grub_free_def g f with_region_def)
  have ain: "a \<in> {reg_base ?r..<reg_lim ?r}"
    using tiled_bounds[OF region_facts(1)[OF D], of a] a(1) by (auto simp: allocs_def)
  have data: "data_of h' ` allocs h' D' = data_of ?h ` allocs ?h D - {data_of ?h a}"
    unfolding D'(2) using same by (auto simp: data_of_def image_def)
  have out: "data_of ?h a \<notin> (\<Union>j\<in>{..<length (mm_base s)} - {i}. live_in ?h (mm_base s ! j))"
    using live_elsewhere[OF ok i, of _ a] ain by (auto simp: data_of_def)
  have "live (with_region i first' h' s) = live s - {data_of ?h a}"
    by (subst with_region_ok(2)[OF ok i refl D'(1) frame], assumption, subst live_split[OF ok i refl D], subst data)
       (rule union_remove[OF out])
  moreover have "map reg_area (mm_base (with_region i first' h' s)) = map reg_area (mm_base s)"
    using i by (simp add: with_region_def map_update list_update_same_conv)
  ultimately show ?thesis
    using s' with_region_ok(1)[OF ok i refl D'(1) frame] a(2) by (auto simp: with_region_def)
qed


section \<open>Concrete heaps\<close>

text \<open>A heap with one region of 14 cells, all free or with the last four in use, and callbacks that do nothing.\<close>

definition heap_with :: "headers \<Rightarrow> mm_state" where
  "heap_with h = \<lparr>mm_base = [\<lparr>reg_addr = 0x100, reg_first = 0x102, reg_pre_size = 0, reg_post_size = 0, reg_size = 224\<rparr>],
     mm_hdr = h, mm_bytes = (\<lambda>_. 0)\<rparr>"

definition fresh_headers :: headers where
  "fresh_headers = (\<lambda>_. \<lparr>hdr_next = 0, hdr_size = 0, hdr_magic = 0\<rparr>)
     (0x102 := \<lparr>hdr_next = 0x102, hdr_size = 14, hdr_magic = GRUB_MM_FREE_MAGIC\<rparr>)"

definition used_headers :: headers where
  "used_headers = (\<lambda>_. \<lparr>hdr_next = 0, hdr_size = 0, hdr_magic = 0\<rparr>)
     (0x102 := \<lparr>hdr_next = 0x102, hdr_size = 10, hdr_magic = GRUB_MM_FREE_MAGIC\<rparr>,
      0x10C := \<lparr>hdr_next = 0, hdr_size = 4, hdr_magic = GRUB_MM_ALLOC_MAGIC\<rparr>)"

definition quiet :: mm_env where
  "quiet = \<lparr>add_region_fn = None, cache_invalidate = (\<lambda>s. s)\<rparr>"

lemma quiet_keeps: "env_keeps quiet K"
  by (auto simp: env_keeps_def quiet_def keeps_refl)

lemma frees_used: "frees used_headers {0x102, 0x10C} = {0x102}" "allocs used_headers {0x102, 0x10C} = {0x10C}"
  and frees_fresh: "frees fresh_headers {0x102} = {0x102}" "allocs fresh_headers {0x102} = {}"
  by (auto simp: frees_def allocs_def used_headers_def fresh_headers_def)

lemma nxt_single: "nxt {a} a = a"
  by (simp add: nxt_def)

lemma used_region: "region_ok used_headers 0x102 0x102 0x110 {0x102, 0x10C}"
  by (simp add: region_ok_def frees_used ring_def nxt_single) (auto simp: tiled_def used_headers_def)

lemma fresh_region: "region_ok fresh_headers 0x102 0x102 0x110 {0x102}"
  by (simp add: region_ok_def frees_fresh ring_def nxt_single) (auto simp: tiled_def fresh_headers_def)

lemma heap_with_ok:
  assumes "region_ok h 0x102 0x102 0x110 D"
  shows "heap_ok (heap_with h)" "live (heap_with h) = data_of h ` allocs h D"
proof -
  define r where "r = hd (mm_base (heap_with h))"
  have "region_ok h 0x102 (reg_base r) (reg_lim r) D"
    using assms by (simp add: r_def heap_with_def reg_base_def reg_lim_def)
  from live_in_eq[OF this] show "live (heap_with h) = data_of h ` allocs h D"
    by (simp add: live_def r_def heap_with_def)
  show "heap_ok (heap_with h)"
    using assms by (auto simp: heap_ok_def heap_with_def reg_wf_def reg_base_def reg_lim_def)
qed

lemmas used_ok = heap_with_ok(1)[OF used_region] and fresh_ok = heap_with_ok(1)[OF fresh_region]

lemma used_live: "live (heap_with used_headers) = {(0x10D0, 48)}"
  by (simp only: heap_with_ok(2)[OF used_region] frees_used) (simp add: data_of_def used_headers_def)

lemma fresh_live: "live (heap_with fresh_headers) = {}"
  by (simp only: heap_with_ok(2)[OF fresh_region] frees_fresh) simp

end
