(* ===== verification/GrubMMGrow.thy ===== *)
theory GrubMMGrow
  imports GrubMMHeap
begin

text \<open>
  Giving memory to the heap of the boot loader: \<open>grub_mm_init_region\<close> extends a region that the memory
  adjoins, from below or from above, or makes a new region of it.
\<close>

unbundle bit_operations_syntax


section \<open>Adding memory\<close>

lemma mask4: "(15 :: u32) = mask 4"
  by (simp add: mask_eq_exp_minus_1)

lemma align_up_value:
  assumes "unat addr < 2 ^ 32 - 0x1000"
  shows "unat (align_up addr) = 16 * ((unat addr + 15) div 16)"
proof -
  have "unat (addr + 15) = unat addr + 15" using assms by (simp add: unat_word_ariths)
  then show ?thesis
    using unat_and_not_mask[of "addr + 15" 4] by (simp add: align_up_def mask4[symmetric] ac_simps)
qed

lemma and15_value: "unat (x AND (16 - 1) :: u32) = unat x mod 16"
proof -
  have "x AND (16 - 1) = take_bit 4 x" by (simp add: mask4 take_bit_eq_mask)
  then show ?thesis by (simp only: unsigned_take_bit_eq) (simp add: take_bit_eq_mod)
qed

lemma shift4_value: "unat (push_bit 4 (drop_bit 4 x :: u32)) = 16 * (unat x div 16)"
proof -
  have "push_bit 4 (drop_bit 4 x) = x AND NOT (mask 4)"
    by (rule bit_word_eqI) (auto simp: bit_simps)
  then show ?thesis using unat_and_not_mask[of x 4] by (simp add: mult.commute)
qed

text \<open>One more block at an end of a region, marked as in use.\<close>

lemma grown_region:
  assumes ok: "region_ok h first base lim D" and b: "0 < base'" "0 < k" "base' \<le> c" "c + k \<le> lim'"
    and ends: "c = base' \<and> c + k = base \<and> lim' = lim \<or> base' = base \<and> c = lim \<and> lim' = lim + k"
    and h': "h' = h(c := (h c)\<lparr>hdr_size := k, hdr_magic := GRUB_MM_ALLOC_MAGIC\<rparr>)"
  shows "region_ok h' first base' lim' (insert c D)" "allocs h' (insert c D) = insert c (allocs h D)" "c \<notin> D"
proof -
  note f = region_facts[OF ok]
  have bounds: "\<And>a. a \<in> D \<Longrightarrow> base \<le> a \<and> a < lim \<and> 0 < hdr_size (h a)" using tiled_bounds[OF f(1)] .
  show c: "c \<notin> D" using bounds ends b(2) by fastforce
  have F': "frees h' (insert c D) = frees h D" using c by (auto simp: frees_def h')
  show A': "allocs h' (insert c D) = insert c (allocs h D)" using c by (auto simp: allocs_def h')
  have t: "tiled (\<lambda>a. hdr_size (h' a)) base' lim' (insert c D)"
    unfolding tiled_def
  proof (intro conjI ballI impI)
    show "insert c D \<subseteq> {base'..<lim'}" using bounds ends b by fastforce
    show "base' \<in> insert c D" using ends f(1) by (auto simp: tiled_def)
    fix x
    assume x: "x \<in> insert c D"
    show "0 < hdr_size (h' x)" using x b bounds by (auto simp: h')
    show "x + hdr_size (h' x) = lim' \<or> x + hdr_size (h' x) \<in> insert c D"
      using x ends f(1) c by (auto simp: h' tiled_def)
    fix y
    assume "y \<in> insert c D" "x < y"
    then show "x + hdr_size (h' x) \<le> y"
      using x ends bounds tiled_apart[OF f(1)] tiled_end[OF f(1)] b c by (cases "x = c"; cases "y = c") (force simp: h')+
  qed
  show "region_ok h' first base' lim' (insert c D)"
  proof (rule region_okI[OF b(1) t F'])
    show "insert c D = frees h D \<union> allocs h' (insert c D)" using f(10) A' by auto
    show "ring h' (frees h D)" using f(4) by (rule ring_cong) (use c in \<open>auto simp: h' frees_def\<close>)
    show "first \<in> insert c D" using f(5) by simp
    show "first \<in> frees h D" if "frees h D \<noteq> {}" using that f(8) by blast
    show "g + hdr_size (h' g) \<notin> frees h D" if "g \<in> frees h D" for g
      using that f(6)[OF that] c by (auto simp: h' frees_def)
  qed
qed

lemma Union_update:
  assumes "xs ! i = X" "i < length xs"
  shows "\<Union> (set (xs[i := N \<union> X])) = N \<union> \<Union> (set xs)"
  using assms
proof (induction xs arbitrary: i)
  case (Cons x xs)
  then show ?case
    using Cons.IH[of "i - 1"] by (cases i) auto
qed simp

text \<open>The memory that \<open>grub_mm_init_region\<close> can use: the last 4 KiB of the address space are left out.\<close>

definition usable :: "u32 \<Rightarrow> u32 \<Rightarrow> nat" where
  "usable addr sz = min (unat sz) (2 ^ 32 - 0x1000 - unat addr)"

text \<open>Growing region \<open>i\<close> by one block, which is then freed.\<close>

lemma extend_region:
  assumes ok: "heap_ok s" and i: "i < length (mm_base s)" and q: "q = mm_base s ! i"
    and N: "\<And>r. r \<in> set (mm_base s) \<Longrightarrow> N \<inter> reg_area r = {}"
    and r: "reg_wf r" "reg_first r = reg_first q" "reg_area r = N \<union> reg_area q"
    and k: "0 < k" and ends: "c = reg_base r \<and> c + k = reg_base q \<and> reg_lim r = reg_lim q
      \<or> reg_base r = reg_base q \<and> c = reg_lim q \<and> reg_lim r = reg_lim q + k"
    and h': "h' = (mm_hdr s)(c := (mm_hdr s c)\<lparr>hdr_size := k, hdr_magic := GRUB_MM_ALLOC_MAGIC\<rparr>)"
  shows "\<exists>s'. grub_free (cell_addr (c + 1)) (s\<lparr>mm_hdr := h', mm_base := (mm_base s)[i := r]\<rparr>) = Some (Inr s')
    \<and> heap_ok s' \<and> live s' = live s \<and> mm_bytes s' = mm_bytes s
    \<and> (\<Union>r\<in>set (mm_base s'). reg_area r) = N \<union> (\<Union>r\<in>set (mm_base s). reg_area r)"
proof -
  obtain D where D: "region_ok (mm_hdr s) (reg_first q) (reg_base q) (reg_lim q) D"
    using heap_ok_region[OF ok i] q by auto
  have base: "reg_base q < reg_lim q" using tiled_bounds[OF region_facts(1,5)[OF D]] by simp
  have cb: "0 < reg_base r" "reg_base r \<le> c" "c + k \<le> reg_lim r"
    using ends base by (auto simp: reg_base_def)
  have g: "region_ok h' (reg_first r) (reg_base r) (reg_lim r) (insert c D)"
    "allocs h' (insert c D) = insert c (allocs (mm_hdr s) D)" "c \<notin> D"
    using grown_region[OF D cb(1) k cb(2,3) ends h'] by (simp_all add: r(2))
  have disj: "disjnt (reg_area r) (reg_area (mm_base s ! j))" if "j < length (mm_base s)" "j \<noteq> i" for j
    using areas_apart[OF ok i that(1)] that N[of "mm_base s ! j"] q r(3) by (auto simp: disjnt_def)
  have frame: "h' x = mm_hdr s x" if "x \<notin> {reg_base r..<reg_lim r}" for x
    using that cb k by (auto simp: h')
  define s1 where "s1 = s\<lparr>mm_base := (mm_base s)[i := r], mm_hdr := h'\<rparr>"
  have e: "s\<lparr>mm_hdr := h', mm_base := (mm_base s)[i := r]\<rparr> = s1" by (simp add: s1_def)
  have rr: "heap_ok s1" "live s1 = (\<Union>j\<in>{..<length (mm_base s)} - {i}. live_in (mm_hdr s) (mm_base s ! j))
      \<union> data_of h' ` allocs h' (insert c D)"
    by (rule replace_region_ok[OF ok i r(1) _ g(1) _ s1_def], erule (1) disj, erule frame)+
  have data: "data_of h' ` allocs h' (insert c D) = insert (16 * (c + 1), 16 * (k - 1)) (data_of (mm_hdr s) ` allocs (mm_hdr s) D)"
    unfolding g(2) using g(3) by (auto simp: h' data_of_def allocs_def image_def)
  have live1: "live s1 = insert (16 * (c + 1), 16 * (k - 1)) (live s)"
    by (simp only: rr(2) data live_split[OF ok i q D] Un_insert_right)
  have new: "(16 * (c + 1), 16 * (k - 1)) \<notin> live s"
  proof
    assume "(16 * (c + 1), 16 * (k - 1)) \<in> live s"
    then obtain j where j: "j < length (mm_base s)" "(16 * (c + 1), 16 * (k - 1)) \<in> live_in (mm_hdr s) (mm_base s ! j)"
      by (auto simp: live_def in_set_conv_nth)
    show False
    proof (cases "j = i")
      case True
      then show False using j(2) live_in_eq[OF D] g(3) q by (auto simp: data_of_def allocs_def)
    next
      case False
      obtain E where "tiled (\<lambda>a. hdr_size (mm_hdr s a)) (reg_base (mm_base s ! j)) (reg_lim (mm_base s ! j)) E" "c \<in> E"
        using j(2) by (auto simp: live_in_def data_of_def allocs_def)
      then have "c \<in> {reg_base (mm_base s ! j)..<reg_lim (mm_base s ! j)}" using tiled_bounds by fastforce
      then show False
        using cells_apart[OF disjnt_sym[OF disj[OF j(1) False]] heap_ok_wf[OF ok j(1)] r(1)] cb k by fastforce
    qed
  qed
  have ptr: "unat (cell_addr (c + 1)) = 16 * (c + 1)"
    using cb(3) k r(1) by (intro unat_of_nat_id) (auto simp: reg_wf_def)
  have "(unat (cell_addr (c + 1)), 16 * (k - 1)) \<in> live s1"
    unfolding ptr live1 by simp
  from grub_free_live[OF rr(1) this] obtain s' where
    f: "grub_free (cell_addr (c + 1)) s1 = Some (Inr s')" "heap_ok s'" "live s' = live s" "mm_bytes s' = mm_bytes s1"
      "map reg_area (mm_base s') = map reg_area (mm_base s1)"
    using new unfolding ptr live1 by auto
  have "(\<Union>r\<in>set (mm_base s'). reg_area r) = \<Union> (set (map reg_area (mm_base s1)))"
    unfolding f(5)[symmetric] by simp
  also have "map reg_area (mm_base s1) = (map reg_area (mm_base s))[i := N \<union> reg_area q]"
    by (simp add: s1_def map_update r(3))
  also have "\<Union> (set ((map reg_area (mm_base s))[i := N \<union> reg_area q])) = N \<union> (\<Union>r\<in>set (mm_base s). reg_area r)"
  proof -
    have "map reg_area (mm_base s) ! i = reg_area q" "i < length (map reg_area (mm_base s))" using i q by simp_all
    then have "\<Union> (set ((map reg_area (mm_base s))[i := N \<union> reg_area q])) = N \<union> \<Union> (set (map reg_area (mm_base s)))"
      by (rule Union_update)
    then show ?thesis by simp
  qed
  finally show ?thesis
    using f unfolding e by (auto simp: s1_def)
qed

lemma find_adjacent_index:
  "find_adjacent addr sz qs k = Some (k + i, below) \<Longrightarrow> i < length qs \<and>
    (if below then addr + sz + reg_pre_size (qs ! i) = cell_addr (reg_addr (qs ! i))
     else cell_addr (reg_addr (qs ! i)) + 32 + reg_size (qs ! i) + reg_post_size (qs ! i) = addr)"
proof (induction qs arbitrary: i k)
  case (Cons q qs)
  show ?case
  proof (cases i)
    case 0
    have "find_adjacent addr sz qs (Suc k) \<noteq> Some (k, below)"
    proof
      assume "find_adjacent addr sz qs (Suc k) = Some (k, below)"
      moreover have "find_adjacent addr sz qs m = Some (n, b) \<Longrightarrow> m \<le> n" for m n b
        by (induction qs arbitrary: m) (auto split: if_splits dest: Suc_leD)
      ultimately show False by fastforce
    qed
    then show ?thesis using Cons.prems 0 by (auto split: if_splits)
  next
    case (Suc j)
    then show ?thesis using Cons.IH[of "Suc k" j] Cons.prems by (auto split: if_splits)
  qed
qed simp

lemma insert_region_set: "set (insert_region r qs) = insert r (set qs)"
  by (induction qs) auto

lemma insert_region_sorted:
  assumes "sorted_wrt disjnt (map reg_area qs)" "\<And>q. q \<in> set qs \<Longrightarrow> disjnt (reg_area r) (reg_area q)"
  shows "sorted_wrt disjnt (map reg_area (insert_region r qs))"
  using assms by (induction qs) (auto simp: insert_region_set disjnt_sym)

lemma add_region_ok:
  assumes ok: "heap_ok s" and wf: "reg_wf r" and first: "reg_first r = reg_base r" and lim: "reg_base r < reg_lim r"
    and disj: "\<And>q. q \<in> set (mm_base s) \<Longrightarrow> disjnt (reg_area r) (reg_area q)"
    and s': "s' = s\<lparr>mm_hdr := (mm_hdr s)(reg_base r := \<lparr>hdr_next = reg_base r,
      hdr_size = reg_lim r - reg_base r, hdr_magic = GRUB_MM_FREE_MAGIC\<rparr>), mm_base := insert_region r (mm_base s)\<rparr>"
  shows "heap_ok s'" "live s' = live s"
proof -
  let ?h = "mm_hdr s'"
  have h: "?h = (mm_hdr s)(reg_base r := \<lparr>hdr_next = reg_base r, hdr_size = reg_lim r - reg_base r,
      hdr_magic = GRUB_MM_FREE_MAGIC\<rparr>)" by (simp add: s')
  have F: "frees ?h {reg_base r} = {reg_base r}" and A: "allocs ?h {reg_base r} = {}"
    by (auto simp: frees_def allocs_def h)
  have new: "region_ok ?h (reg_first r) (reg_base r) (reg_lim r) {reg_base r}"
    using lim by (simp add: region_ok_def F A first) (auto simp: tiled_def ring_def nxt_def upto_first_def h reg_base_def)
  have same: "?h x = mm_hdr s x" if "q \<in> set (mm_base s)" "x \<in> {reg_base q..<reg_lim q}" for q x
    using cells_apart[OF disj[OF that(1)] wf, of "reg_base r"] that ok lim by (auto simp: h heap_ok_def)
  have old: "\<exists>D. region_ok ?h (reg_first q) (reg_base q) (reg_lim q) D \<and> live_in ?h q = live_in (mm_hdr s) q"
    if q: "q \<in> set (mm_base s)" for q
  proof -
    obtain D where D: "region_ok (mm_hdr s) (reg_first q) (reg_base q) (reg_lim q) D"
      using ok q by (auto simp: heap_ok_def)
    show ?thesis using region_ok_cong[OF D same[OF q]] live_in_cong[OF D same[OF q]] by blast
  qed
  have rs: "mm_base s' = insert_region r (mm_base s)" by (simp add: s')
  have "sorted_wrt disjnt (map reg_area (mm_base s))" using ok by (simp add: heap_ok_def)
  then have "sorted_wrt disjnt (map reg_area (mm_base s'))"
    unfolding rs by (rule insert_region_sorted) (rule disj)
  then show "heap_ok s'"
    using ok wf new old by (auto simp: heap_ok_def rs insert_region_set)
  have "live_in ?h r = {}" using live_in_eq[OF new] A by simp
  then show "live s' = live s"
    using old by (simp add: live_def rs insert_region_set)
qed

lemma new_region_overhead:
  assumes a: "unat addr < 2 ^ 32 - 0x1000"
  shows "unat (16 + align_up addr - addr + 32) = 16 * ((unat addr + 15) div 16) - unat addr + 48"
    "unat (16 + align_up addr - addr + 32) < 64"
proof -
  define A where "A = (unat addr + 15) div 16"
  have up: "unat (align_up addr) = 16 * A" using align_up_value[OF a] by (simp add: A_def)
  have A: "unat addr \<le> 16 * A" "16 * A < unat addr + 16" by (auto simp: A_def)
  then have pre: "unat (align_up addr - addr) = 16 * A - unat addr"
    by (simp add: unat_sub word_le_nat_alt up)
  have "16 + align_up addr - addr + 32 = (align_up addr - addr) + 48" by simp
  then have "unat (16 + align_up addr - addr + 32) = 16 * A - unat addr + 48"
    using A by (simp only: unat_word_ariths pre) simp
  then show "unat (16 + align_up addr - addr + 32) = 16 * ((unat addr + 15) div 16) - unat addr + 48"
    "unat (16 + align_up addr - addr + 32) < 64"
    using A by (simp_all only: A_def)
qed

lemma new_region_fields:
  assumes a: "unat addr < 2 ^ 32 - 0x1000" and le: "unat addr + unat sz \<le> 2 ^ 32 - 0x1000"
    and big: "\<not> sz < 16 + align_up addr - addr + 32"
    and sz': "sz' = sz - (align_up addr - addr + 32)"
    and r: "r = \<lparr>reg_addr = unat (align_up addr) div 16, reg_first = unat (align_up addr) div 16 + 2,
      reg_pre_size = align_up addr - addr, reg_post_size = sz' - push_bit 4 (drop_bit 4 sz'),
      reg_size = push_bit 4 (drop_bit 4 sz')\<rparr>"
  shows "reg_wf r" "reg_base r < reg_lim r" "unat (drop_bit 4 sz') = reg_lim r - reg_base r"
    "reg_area r = {unat addr..<unat addr + unat sz}"
proof -
  define A where "A = (unat addr + 15) div 16"
  have up: "unat (align_up addr) = 16 * A" using align_up_value[OF a] by (simp add: A_def)
  have A: "unat addr \<le> 16 * A" "16 * A < unat addr + 16" by (auto simp: A_def)
  then have pre: "unat (align_up addr - addr) = 16 * A - unat addr"
    by (simp add: unat_sub word_le_nat_alt up)
  have "unat (align_up addr - addr + 32) = 16 * A - unat addr + 32"
    using A by (simp add: unat_word_ariths pre del: unat_sub)
  moreover have "unat (16 + align_up addr - addr + 32) = 16 * A - unat addr + 48"
    using new_region_overhead(1)[OF a] by (simp only: A_def)
  ultimately have sz: "16 * A - unat addr + 48 \<le> unat sz" and s': "unat sz' = unat sz - (16 * A - unat addr + 32)"
    using big by (simp_all add: word_less_nat_alt sz' unat_sub word_le_nat_alt)
  have rs: "unat (push_bit 4 (drop_bit 4 sz')) = 16 * (unat sz' div 16)" by (rule shift4_value)
  have post: "unat (sz' - push_bit 4 (drop_bit 4 sz')) = unat sz' mod 16"
    by (simp add: unat_sub word_le_nat_alt rs minus_mult_div_eq_mod)
  have d: "unat (drop_bit 4 sz') = unat sz' div 16" by (simp add: unat_drop_bit)
  have f: "reg_addr r = A" "unat (reg_pre_size r) = 16 * A - unat addr" "unat (reg_post_size r) = unat sz' mod 16"
    "unat (reg_size r) = 16 * (unat sz' div 16)"
    by (simp_all add: r up pre rs post)
  have l: "reg_lim r = A + 2 + unat sz' div 16" by (simp add: reg_lim_def reg_base_def f)
  have e: "16 * reg_lim r + unat sz' mod 16 = unat addr + unat sz"
    using mult_div_mod_eq[of 16 "unat sz'"] s' sz A by (simp add: l)
  show "reg_base r < reg_lim r" "unat (drop_bit 4 sz') = reg_lim r - reg_base r"
    using s' sz by (auto simp: l reg_base_def f d)
  show "reg_area r = {unat addr..<unat addr + unat sz}"
    using A by (simp add: reg_area_def f e)
  show "reg_wf r" using A le by (simp add: reg_wf_def f e)
qed

lemma new_region_ok:
  assumes ok: "heap_ok s" and a: "unat addr < 2 ^ 32 - 0x1000" and le: "unat addr + unat sz \<le> 2 ^ 32 - 0x1000"
    and N: "\<And>r. r \<in> set (mm_base s) \<Longrightarrow> {unat addr..<unat addr + unat sz} \<inter> reg_area r = {}"
    and big: "\<not> sz < 16 + align_up addr - addr + 32"
  shows "heap_ok (new_region addr sz s)" "live (new_region addr sz s) = live s"
    "mm_bytes (new_region addr sz s) = mm_bytes s"
    "(\<Union>r\<in>set (mm_base (new_region addr sz s)). reg_area r)
      = {unat addr..<unat addr + unat sz} \<union> (\<Union>r\<in>set (mm_base s). reg_area r)"
proof -
  define sz' where "sz' = sz - (align_up addr - addr + 32)"
  define r where "r = \<lparr>reg_addr = unat (align_up addr) div 16, reg_first = unat (align_up addr) div 16 + 2,
      reg_pre_size = align_up addr - addr, reg_post_size = sz' - push_bit 4 (drop_bit 4 sz'),
      reg_size = push_bit 4 (drop_bit 4 sz')\<rparr>"
  note f = new_region_fields[OF a le big sz'_def r_def]
  have b: "reg_base r = unat (align_up addr) div 16 + 2" by (simp add: r_def reg_base_def)
  have s': "new_region addr sz s = s\<lparr>mm_hdr := (mm_hdr s)(reg_base r := \<lparr>hdr_next = reg_base r,
      hdr_size = reg_lim r - reg_base r, hdr_magic = GRUB_MM_FREE_MAGIC\<rparr>), mm_base := insert_region r (mm_base s)\<rparr>"
    unfolding f(3)[symmetric] unfolding b using big by (simp add: new_region_def Let_def sz'_def r_def)
  have disj: "disjnt (reg_area r) (reg_area q)" if "q \<in> set (mm_base s)" for q
    using N[OF that] by (simp add: f(4) disjnt_def)
  have "reg_first r = reg_base r" by (simp add: b) (simp add: r_def)
  from add_region_ok[OF ok f(1) this f(2) disj s']
  show "heap_ok (new_region addr sz s)" "live (new_region addr sz s) = live s" by simp_all
  show "mm_bytes (new_region addr sz s) = mm_bytes s"
    "(\<Union>r\<in>set (mm_base (new_region addr sz s)). reg_area r)
      = {unat addr..<unat addr + unat sz} \<union> (\<Union>r\<in>set (mm_base s). reg_area r)"
    by (simp_all add: s' insert_region_set f(4))
qed

text \<open>The region that the memory from \<open>addr\<close> on extends downwards.\<close>

lemma grown_below:
  assumes wf: "reg_wf q" and a: "unat addr < 2 ^ 32 - 0x1000" and le: "unat addr + unat n \<le> 2 ^ 32 - 0x1000" and n: "16 \<le> unat n"
    and adj: "addr + n + reg_pre_size q = cell_addr (reg_addr q)"
    and p: "p = reg_pre_size q + n"
    and r: "r = q\<lparr>reg_addr := unat (align_up addr) div 16, reg_size := reg_size q + push_bit 4 (drop_bit 4 p),
      reg_pre_size := p AND (16 - 1)\<rparr>"
  shows "0 < unat (drop_bit 4 p)" "reg_base r + unat (drop_bit 4 p) = reg_base q" "reg_lim r = reg_lim q"
    "reg_wf r" "reg_area r = {unat addr..<unat addr + unat n} \<union> reg_area q"
proof -
  define A where "A = (unat addr + 15) div 16"
  have up: "unat (align_up addr) = 16 * A" using align_up_value[OF a] by (simp add: A_def)
  have w: "unat (reg_pre_size q) < 16" "unat (reg_post_size q) < 16" "16 dvd unat (reg_size q)"
    "unat (reg_pre_size q) \<le> 16 * reg_addr q" "16 * reg_lim q + unat (reg_post_size q) \<le> 2 ^ 32 - 0x1000"
    using wf by (simp_all add: reg_wf_def)
  have l: "reg_lim q = reg_addr q + 2 + unat (reg_size q) div 16" by (simp add: reg_lim_def reg_base_def)
  have sum: "unat (addr + n + reg_pre_size q) = unat addr + unat n + unat (reg_pre_size q)"
    using le w(1) by (simp add: unat_word_ariths)
  have "unat (cell_addr (reg_addr q)) = 16 * reg_addr q"
    using w(5) l by (intro unat_of_nat_id) simp
  with sum adj have q: "unat addr + unat n + unat (reg_pre_size q) = 16 * reg_addr q" by simp
  have p': "unat p = 16 * reg_addr q - unat addr"
    using le w(1) q by (simp add: p unat_word_ariths)
  define B where "B = reg_addr q"
  have "A + unat p div 16 = B" "unat addr \<le> 16 * A" "A \<le> B"
    using n q p' by (auto simp: A_def B_def)
  moreover from this have "unat p mod 16 = 16 * A - unat addr"
    using mult_div_mod_eq[of 16 "unat p"] p' unfolding B_def by linarith
  ultimately have div: "A + unat p div 16 = B" "unat p mod 16 = 16 * A - unat addr" "unat addr \<le> 16 * A" "A \<le> B"
    by simp_all
  have d: "unat (drop_bit 4 p) = unat p div 16" by (simp add: unat_drop_bit)
  show pos: "0 < unat (drop_bit 4 p)" using p' n q by (simp add: d)
  have "16 * (unat p div 16) \<le> 16 * B" using div by simp
  then have sz: "unat (reg_size q + push_bit 4 (drop_bit 4 p)) = unat (reg_size q) + 16 * (unat p div 16)"
    using w(3,5) l by (simp add: unat_word_ariths shift4_value B_def)
  have f: "reg_addr r = A" "unat (reg_size r) = unat (reg_size q) + 16 * (unat p div 16)"
    "unat (reg_pre_size r) = 16 * A - unat addr" "reg_post_size r = reg_post_size q"
    using div sz by (simp_all add: r up and15_value[simplified] del: One_nat_def)
  show b: "reg_base r + unat (drop_bit 4 p) = reg_base q" using div by (simp add: reg_base_def f d B_def)
  then show l': "reg_lim r = reg_lim q" using w(3) by (simp add: reg_lim_def f d)
  show "reg_wf r" using w div by (simp add: reg_wf_def l' f)
  show "reg_area r = {unat addr..<unat addr + unat n} \<union> reg_area q"
    unfolding reg_area_def l' f using div q by (auto simp: B_def l)
qed

text \<open>The region that the memory from \<open>addr\<close> on extends upwards.\<close>

lemma grown_above:
  assumes wf: "reg_wf q" and a: "unat addr < 2 ^ 32 - 0x1000" and le: "unat addr + unat n \<le> 2 ^ 32 - 0x1000" and n: "16 \<le> unat n"
    and adj: "cell_addr (reg_addr q) + 32 + reg_size q + reg_post_size q = addr"
    and r: "r = q\<lparr>reg_size := reg_size q + push_bit 4 (drop_bit 4 (n + reg_post_size q)),
      reg_post_size := (reg_post_size q + n) AND (16 - 1)\<rparr>"
  shows "0 < unat (drop_bit 4 (n + reg_post_size q))" "unat (addr - reg_post_size q) div 16 = reg_lim q"
    "reg_lim r = reg_lim q + unat (drop_bit 4 (n + reg_post_size q))"
    "reg_wf r" "reg_area r = {unat addr..<unat addr + unat n} \<union> reg_area q"
proof -
  have w: "unat (reg_pre_size q) < 16" "unat (reg_post_size q) < 16" "16 dvd unat (reg_size q)"
    "unat (reg_pre_size q) \<le> 16 * reg_addr q" "16 * reg_lim q + unat (reg_post_size q) \<le> 2 ^ 32 - 0x1000"
    using wf by (simp_all add: reg_wf_def)
  define B where "B = unat (reg_size q) div 16"
  have B: "unat (reg_size q) = 16 * B" using w(3) by (simp add: B_def)
  have l: "reg_lim q = reg_addr q + 2 + B" by (simp add: reg_lim_def reg_base_def B_def)
  have "unat (cell_addr (reg_addr q)) = 16 * reg_addr q"
    using w(5) l by (intro unat_of_nat_id) simp
  then have "unat (cell_addr (reg_addr q) + 32 + reg_size q + reg_post_size q) = 16 * reg_lim q + unat (reg_post_size q)"
    using w(5) l B by (simp add: unat_word_ariths)
  then have q: "unat addr = 16 * reg_lim q + unat (reg_post_size q)" by (simp only: adj)
  have p: "unat (n + reg_post_size q) = unat n + unat (reg_post_size q)"
    using le w(2) by (simp add: unat_word_ariths)
  define m where "m = unat n + unat (reg_post_size q)"
  have d: "unat (drop_bit 4 (n + reg_post_size q)) = m div 16" by (simp add: unat_drop_bit p m_def)
  show "0 < unat (drop_bit 4 (n + reg_post_size q))" using n by (simp add: d) (simp add: m_def)
  have "unat (addr - reg_post_size q) = 16 * reg_lim q"
    using q by (simp add: unat_sub word_le_nat_alt)
  then show "unat (addr - reg_post_size q) div 16 = reg_lim q" by simp
  have m: "16 * reg_lim q + m \<le> 2 ^ 32 - 0x1000" using le q by (simp add: m_def)
  have "unat (reg_size q + push_bit 4 (drop_bit 4 (n + reg_post_size q))) = 16 * B + 16 * (m div 16)"
  proof -
    have "16 * (m div 16) \<le> m" by simp
    then show ?thesis using m l by (simp add: unat_word_ariths shift4_value p B flip: m_def)
  qed
  then have f: "reg_addr r = reg_addr q" "unat (reg_size r) = 16 * (B + m div 16)"
    "reg_pre_size r = reg_pre_size q" "unat (reg_post_size r) = m mod 16"
    using p by (simp_all add: r and15_value[simplified] add.commute m_def del: One_nat_def)
  show l': "reg_lim r = reg_lim q + unat (drop_bit 4 (n + reg_post_size q))"
    by (simp add: d l) (simp add: reg_lim_def reg_base_def f)
  have e: "16 * reg_lim r + m mod 16 = unat addr + unat n"
    using mult_div_mod_eq[of 16 m] q by (simp add: l' d m_def)
  show "reg_wf r" using w le by (simp add: reg_wf_def f e)
  show "reg_area r = {unat addr..<unat addr + unat n} \<union> reg_area q"
    unfolding reg_area_def f e using q l by auto
qed

lemma usable_size:
  assumes "unat addr < 2 ^ 32 - 0x1000"
  shows "unat (if addr + 0x1000 > NOT sz then - 0x1000 - addr else sz) = usable addr sz"
proof -
  have "unat (addr + 0x1000) = unat addr + 0x1000" using assms by (simp add: unat_word_ariths)
  moreover have "unat (- 0x1000 - addr) = 2 ^ 32 - 0x1000 - unat addr"
    using assms by (simp add: unat_sub word_le_nat_alt)
  ultimately show ?thesis
    using unsigned_less[of sz, where 'a = nat] by (simp add: word_less_nat_alt unat_not usable_def min_def) (use assms in arith)
qed

lemma extend_below_correct:
  assumes ok: "heap_ok s" and i: "i < length (mm_base s)"
    and a: "unat addr < 2 ^ 32 - 0x1000" and le: "unat addr + unat n \<le> 2 ^ 32 - 0x1000" and n: "16 \<le> unat n"
    and N: "\<And>r. r \<in> set (mm_base s) \<Longrightarrow> {unat addr..<unat addr + unat n} \<inter> reg_area r = {}"
    and adj: "addr + n + reg_pre_size (mm_base s ! i) = cell_addr (reg_addr (mm_base s ! i))"
  shows "\<exists>s'. extend_below addr n i s = Some (Inr s') \<and> heap_ok s' \<and> live s' = live s \<and> mm_bytes s' = mm_bytes s
    \<and> (\<Union>r\<in>set (mm_base s'). reg_area r) = {unat addr..<unat addr + unat n} \<union> (\<Union>r\<in>set (mm_base s). reg_area r)"
proof -
  define q where "q = mm_base s ! i"
  define p where "p = reg_pre_size q + n"
  define r where "r = q\<lparr>reg_addr := unat (align_up addr) div 16, reg_size := reg_size q + push_bit 4 (drop_bit 4 p),
      reg_pre_size := p AND (16 - 1)\<rparr>"
  define c where "c = reg_base r"
  define h where "h = (mm_hdr s)(c := (mm_hdr s c)\<lparr>hdr_size := unat (drop_bit 4 p), hdr_magic := GRUB_MM_ALLOC_MAGIC\<rparr>)"
  have wf: "reg_wf q" using heap_ok_wf[OF ok i] by (simp add: q_def)
  note g = grown_below[OF wf a le n adj[folded q_def] p_def r_def]
  have c: "c = unat (align_up addr) div 16 + 2" by (simp add: c_def reg_base_def r_def)
  have nz: "drop_bit 4 p \<noteq> 0" using g(1) by auto
  have "extend_below addr n i s
      = grub_free (cell_addr (c + 1)) (s\<lparr>mm_hdr := h, mm_base := (mm_base s)[i := r]\<rparr>)"
    using nz unfolding extend_below_def Let_def q_def[symmetric]
    by (simp add: p_def[symmetric] h_def r_def c)
  moreover have "reg_first r = reg_first q" by (simp add: r_def)
  ultimately show ?thesis
    using extend_region[OF ok i q_def N g(4) _ g(5,1) _ h_def] g(2,3) by (auto simp: c_def)
qed

lemma extend_above_correct:
  assumes ok: "heap_ok s" and i: "i < length (mm_base s)"
    and a: "unat addr < 2 ^ 32 - 0x1000" and le: "unat addr + unat n \<le> 2 ^ 32 - 0x1000" and n: "16 \<le> unat n"
    and N: "\<And>r. r \<in> set (mm_base s) \<Longrightarrow> {unat addr..<unat addr + unat n} \<inter> reg_area r = {}"
    and adj: "cell_addr (reg_addr (mm_base s ! i)) + 32 + reg_size (mm_base s ! i) + reg_post_size (mm_base s ! i) = addr"
  shows "\<exists>s'. extend_above addr n i s = Some (Inr s') \<and> heap_ok s' \<and> live s' = live s \<and> mm_bytes s' = mm_bytes s
    \<and> (\<Union>r\<in>set (mm_base s'). reg_area r) = {unat addr..<unat addr + unat n} \<union> (\<Union>r\<in>set (mm_base s). reg_area r)"
proof -
  define q where "q = mm_base s ! i"
  define k where "k = drop_bit 4 (n + reg_post_size q)"
  define r where "r = q\<lparr>reg_size := reg_size q + push_bit 4 (drop_bit 4 (n + reg_post_size q)),
      reg_post_size := (reg_post_size q + n) AND (16 - 1)\<rparr>"
  define c where "c = reg_lim q"
  define h where "h = (mm_hdr s)(c := (mm_hdr s c)\<lparr>hdr_size := unat k, hdr_magic := GRUB_MM_ALLOC_MAGIC\<rparr>)"
  have wf: "reg_wf q" using heap_ok_wf[OF ok i] by (simp add: q_def)
  note g = grown_above[OF wf a le n adj[folded q_def] r_def, folded k_def]
  have "extend_above addr n i s
      = grub_free (cell_addr (c + 1)) (s\<lparr>mm_hdr := h, mm_base := (mm_base s)[i := r]\<rparr>)"
    unfolding extend_above_def Let_def q_def[symmetric] g(2) k_def[symmetric]
    by (simp add: h_def r_def c_def flip: k_def)
  moreover have "reg_first r = reg_first q" "reg_base r = reg_base q" by (simp_all add: r_def reg_base_def)
  ultimately show ?thesis
    using extend_region[OF ok i q_def N g(4) _ g(5,1) _ h_def] g(3) by (auto simp: c_def)
qed



text \<open>C40. Memory directly above the only region, too little of it to make a block together with the bytes left over
  there, is not ignored: the allocator makes a block of size 0, frees it and aborts.\<close>

theorem grub_mm_init_region_tiny_aborts:
  assumes ok: "heap_ok s" and q: "mm_base s = [q]" and addr: "unat addr = 16 * reg_lim q + unat (reg_post_size q)"
    and sz: "unat (reg_post_size q) + unat sz < 16" and le: "unat addr + unat sz \<le> 2 ^ 32 - 0x1000 - 1"
  shows "grub_mm_init_region addr sz s = Some (Inl Out_Of_Range_Pointer)"
proof -
  have w: "unat (reg_pre_size q) < 16" "unat (reg_post_size q) < 16" "16 dvd unat (reg_size q)"
    "16 * reg_lim q + unat (reg_post_size q) \<le> 2 ^ 32 - 0x1000"
    using ok q by (auto simp: heap_ok_def reg_wf_def)
  define B where "B = unat (reg_size q) div 16"
  have B: "unat (reg_size q) = 16 * B" using w(3) by (simp add: B_def)
  have l: "reg_lim q = reg_addr q + 2 + B" by (simp add: reg_lim_def reg_base_def B_def)
  have a: "unat addr < 2 ^ 32 - 0x1000" using le by simp
  have "unat (if addr + 0x1000 > NOT sz then - 0x1000 - addr else sz) = unat sz"
    using usable_size[OF a] le by (simp add: usable_def)
  then have n: "(if addr + 0x1000 > NOT sz then - 0x1000 - addr else sz) = sz"
    by (rule word_unat_eq_iff[THEN iffD2])
  have c: "unat (cell_addr (reg_addr q)) = 16 * reg_addr q"
    using w(4) l by (intro unat_of_nat_id) simp
  then have e: "cell_addr (reg_addr q) + 32 + reg_size q + reg_post_size q = addr"
    using w(4) l B addr by (intro word_unat_eq_iff[THEN iffD2]) (simp add: unat_word_ariths)
  have "unat (addr + sz + reg_pre_size q) = unat addr + unat sz + unat (reg_pre_size q)"
    using le w(1) by (simp add: unat_word_ariths)
  then have "addr + sz + reg_pre_size q \<noteq> cell_addr (reg_addr q)" using c addr l by auto
  then have f: "find_adjacent addr sz [q] 0 = Some (0, False)" using e by simp
  have "unat (addr - reg_post_size q) = 16 * reg_lim q"
    using addr by (simp add: unat_sub word_le_nat_alt)
  then have h: "unat (addr - reg_post_size q) div 16 = reg_lim q" by simp
  have "unat (sz + reg_post_size q) < 16" using sz by (simp add: unat_word_ariths)
  then have z: "drop_bit 4 (sz + reg_post_size q) = 0"
    by (intro word_unat_eq_iff[THEN iffD2]) (simp add: unat_drop_bit)
  have p: "unat (cell_addr (reg_lim q + 1)) = 16 * (reg_lim q + 1)"
    using w(4) by (intro unat_of_nat_id) simp
  then have p': "cell_addr (reg_lim q + 1) AND 15 = 0" "cell_addr (reg_lim q + 1) \<noteq> 0"
    using low_bits_zero[of "cell_addr (reg_lim q + 1)"] unat_0 by (auto simp del: of_nat_mult)
  have "grub_free (cell_addr (reg_lim q + 1)) (s\<lparr>mm_hdr := x, mm_base := [q\<lparr>reg_size := reg_size q, reg_post_size := y\<rparr>]\<rparr>)
      = Some (Inl Out_Of_Range_Pointer)" for x y
    unfolding grub_free_def get_header_from_pointer_def p using p' B l by (simp add: reg_start_def)
  then have "extend_above addr sz 0 s = Some (Inl Out_Of_Range_Pointer)"
    unfolding extend_above_def Let_def by (simp add: q h z)
  moreover have "\<not> addr > NOT 0x1000" using a by (simp add: word_less_nat_alt)
  ultimately show ?thesis
    unfolding grub_mm_init_region_def Let_def n q f by simp
qed

theorem grub_mm_init_region_tiny_aborts_witness:
  "grub_mm_init_region 0x1100 8 (heap_with used_headers) = Some (Inl Out_Of_Range_Pointer)"
  using grub_mm_init_region_tiny_aborts[OF used_ok, of "hd (mm_base (heap_with used_headers))" "0x1100" 8]
  by (simp add: heap_with_def reg_lim_def reg_base_def)

end
