(* ===== verification/GrubMMOps.thy ===== *)
theory GrubMMOps
  imports GrubMMGrow
begin

text \<open>
  The operations of the heap of the boot loader, as its callers see them: blocks in use never overlap and
  keep their contents, freeing is exact, and reallocation moves the contents.
\<close>

unbundle bit_operations_syntax


section \<open>The operations\<close>

lemma bytes_offset:
  assumes "unat (p :: u32) + n \<le> 2 ^ 32" "x < 2 ^ 32"
  shows "unat (of_nat x - p) < n \<longleftrightarrow> x \<in> {unat p..<unat p + n}"
  using assms by (auto simp: unat_sub_if_size word_size)

text \<open>Bytes written inside a block do not change any other block.\<close>

lemma fill_keeps:
  assumes k: "keeps K s s'" and b: "(unat ret, len) \<in> live s' - K" and n: "n \<le> len"
    and m: "\<And>x. x < 2 ^ 32 \<Longrightarrow> x \<notin> {unat ret..<unat ret + n} \<Longrightarrow> m (of_nat x) = mm_bytes s' (of_nat x)"
  shows "keeps K s (s'\<lparr>mm_bytes := m\<rparr>)"
proof -
  have ok: "heap_ok s'" and K: "K \<subseteq> live s'" using k by (simp_all add: keeps_def)
  have "m (of_nat x) = mm_bytes s (of_nat x)" if c: "c \<in> K" and x: "x \<in> bytes_of c" for c x
  proof -
    have "bytes_of c \<inter> bytes_of (unat ret, len) = {}"
      using live_apart[OF ok, of c "(unat ret, len)"] c K b by auto
    then have "x \<notin> {unat ret..<unat ret + n}" using x n by (auto simp: bytes_of_def)
    moreover have "x < 2 ^ 32" using live_bounds(3)[OF ok, of c] c K x by (auto simp: bytes_of_def)
    ultimately have "m (of_nat x) = mm_bytes s' (of_nat x)" by (rule m[rotated])
    then show ?thesis using k c x by (simp add: keeps_def)
  qed
  then show ?thesis
    using ok K by (simp add: keeps_def heap_ok_def live_def)
qed

lemma live_bytes [simp]: "live (s\<lparr>mm_bytes := m\<rparr>) = live s" "heap_ok (s\<lparr>mm_bytes := m\<rparr>) = heap_ok s"
  by (simp_all add: live_def heap_ok_def)

text \<open>Allocating cleared memory.\<close>

lemma clear_new_keeps:
  assumes r: "keeps K s s'" "ret \<noteq> 0 \<Longrightarrow> (unat ret, len) \<in> live s' - K \<and> n \<le> len"
  shows "\<exists>s''. clear_new n (ret, s') = (ret, s'') \<and> keeps K s s'' \<and> live s'' = live s' \<and>
    (ret \<noteq> 0 \<longrightarrow> (\<forall>x<n. mm_bytes s'' (ret + of_nat x) = 0))"
proof (cases "ret = 0")
  case True
  then show ?thesis using r by (simp add: clear_new_def)
next
  case False
  then have b: "(unat ret, len) \<in> live s' - K" "n \<le> len" using r(2) by auto
  have "unat ret + n \<le> 2 ^ 32"
    using live_bounds(3)[OF keepsD(1)[OF r(1)]] b by fastforce
  then have sp: "in_space ret n" by (simp add: in_space_def)
  define m where "m = filled ret 0 n (mm_bytes s')"
  have m: "grub_memset ret 0 n (mm_bytes s') = m"
    using memset_bytes_filled[OF sp] by (simp add: grub_memset_bytes m_def)
  have "keeps K s (s'\<lparr>mm_bytes := m\<rparr>)"
    by (rule fill_keeps[OF r(1) b]) (use bytes_offset[of ret n] sp in \<open>auto simp: m_def filled_def in_space_def\<close>)
  moreover have "m (ret + of_nat x) = 0" if "x < n" for x
    using that sp unat_less[of ret] by (simp add: m_def filled_def in_space_def)
  ultimately show ?thesis
    using False m by (simp add: clear_new_def)
qed

text \<open>C6. Allocation is safe: while the caller holds the blocks \<open>K\<close>, \<open>grub_memalign\<close> always returns and never
  aborts, keeps the heap well-formed and the blocks of \<open>K\<close> with their contents, and a pointer it returns is
  the start of a new block with the requested size and alignment that overlaps no block of \<open>K\<close>;
  \<open>grub_calloc\<close> also clears it.  The hypothesis on the two callbacks is that they keep the heap
  well-formed and the caller's blocks.\<close>

theorem grub_memalign_correct:
  assumes "heap_ok s" and "K \<subseteq> live s" and "env_keeps env K" and "align = 0 \<or> (\<exists>e. unat align = 2 ^ e)"
  shows "(\<exists>ret s'. grub_memalign env align sz s = Some (Inr (ret, s')) \<and> keeps K s s' \<and>
      (ret \<noteq> 0 \<longrightarrow> (\<exists>len. (unat ret, len) \<in> live s' - K \<and> unat sz \<le> len \<and> 16 dvd unat ret
        \<and> (align = 0 \<or> unat align dvd unat ret) \<and> (\<forall>b\<in>K. bytes_of (unat ret, len) \<inter> bytes_of b = {}))))
    \<and> (\<exists>ret s'. grub_calloc env nmemb sz s = Some (Inr (ret, s')) \<and> keeps K s s' \<and>
      (ret \<noteq> 0 \<longrightarrow> (\<exists>len. (unat ret, len) \<in> live s' - K \<and> unat nmemb * unat sz \<le> len
        \<and> (\<forall>x < unat nmemb * unat sz. mm_bytes s' (ret + of_nat x) = 0))))"
proof (intro conjI)
  obtain ret s' where r: "grub_memalign env align sz s = Some (Inr (ret, s'))" "keeps K s s'"
    "ret \<noteq> 0 \<Longrightarrow> 16 dvd unat ret \<and> (align = 0 \<or> unat align dvd unat ret) \<and>
      (unat ret, 16 * (unat (cells_for sz) - 1)) \<in> live s' - K \<and> unat sz \<le> 16 * (unat (cells_for sz) - 1)"
    using grub_memalign_keeps[OF assms] by blast
  moreover have "bytes_of (unat ret, len) \<inter> bytes_of b = {}" if "(unat ret, len) \<in> live s' - K" "b \<in> K" for len b
    using live_apart[OF keepsD(1)[OF r(2)], of "(unat ret, len)" b] that keepsD(2)[OF r(2)] by auto
  ultimately show "\<exists>ret s'. grub_memalign env align sz s = Some (Inr (ret, s')) \<and> keeps K s s' \<and>
      (ret \<noteq> 0 \<longrightarrow> (\<exists>len. (unat ret, len) \<in> live s' - K \<and> unat sz \<le> len \<and> 16 dvd unat ret
        \<and> (align = 0 \<or> unat align dvd unat ret) \<and> (\<forall>b\<in>K. bytes_of (unat ret, len) \<inter> bytes_of b = {})))"
    by blast
next
  show "\<exists>ret s'. grub_calloc env nmemb sz s = Some (Inr (ret, s')) \<and> keeps K s s' \<and>
      (ret \<noteq> 0 \<longrightarrow> (\<exists>len. (unat ret, len) \<in> live s' - K \<and> unat nmemb * unat sz \<le> len
        \<and> (\<forall>x < unat nmemb * unat sz. mm_bytes s' (ret + of_nat x) = 0)))"
  proof (cases "unat nmemb * unat sz \<ge> 2 ^ 32")
    case True
    then show ?thesis using keeps_refl[OF assms(1,2)] by (simp add: grub_calloc_def)
  next
    case False
    then have t: "unat (nmemb * sz) = unat nmemb * unat sz" by (simp add: unat_word_ariths)
    obtain ret s1 where r: "grub_memalign env 0 (nmemb * sz) s = Some (Inr (ret, s1))" "keeps K s s1"
      "ret \<noteq> 0 \<Longrightarrow> (unat ret, 16 * (unat (cells_for (nmemb * sz)) - 1)) \<in> live s1 - K
        \<and> unat (nmemb * sz) \<le> 16 * (unat (cells_for (nmemb * sz)) - 1)"
      using grub_memalign_keeps[OF assms(1-3), of 0] by blast
    obtain s2 where s2: "clear_new (unat (nmemb * sz)) (ret, s1) = (ret, s2)" "keeps K s s2" "live s2 = live s1"
      "ret \<noteq> 0 \<Longrightarrow> \<forall>x<unat (nmemb * sz). mm_bytes s2 (ret + of_nat x) = 0"
      using clear_new_keeps[OF r(2,3)] by blast
    have "grub_calloc env nmemb sz s = Some (Inr (ret, s2))"
      using False r(1) s2(1) by (simp add: grub_calloc_def)
    then show ?thesis
      using s2(2,3,4) r(3) unfolding t by blast
  qed
qed

theorem grub_memalign_correct_witness:
  "(\<exists>ret s'. grub_memalign quiet 64 20 (heap_with used_headers) = Some (Inr (ret, s'))
      \<and> keeps {(0x10D0, 48)} (heap_with used_headers) s' \<and> (ret \<noteq> 0 \<longrightarrow> 64 dvd unat ret))"
proof -
  have "unat (64 :: u32) = 2 ^ 6" by simp
  then show ?thesis
    using grub_memalign_correct[OF used_ok, of "{(0x10D0, 48)}" quiet 64 20] used_live quiet_keeps by fastforce
qed

text \<open>A freed block is not marked as in use any more.\<close>

lemma free_block_magic:
  assumes "free_block p first h = Some (Inr (first', h'))"
  shows "hdr_magic (h' p) = GRUB_MM_FREE_MAGIC \<or> hdr_magic (h' p) = 0"
  using assms
  by (auto simp: free_block_def free_link_def merge_next_def merge_prev_def Let_def
      split: if_splits option.splits sum.splits prod.splits)

lemma map_sum_Inr:
  assumes "map_sum f g z = Inr y"
  obtains x where "z = Inr x" "y = g x"
  using assms by (cases z) auto

lemma region_of_first:
  "region_of ptr (rs[i := (rs ! i)\<lparr>reg_first := f\<rparr>]) k = region_of ptr rs k"
proof (induction rs arbitrary: i k)
  case (Cons r rs)
  then show ?case by (cases i) simp_all
qed simp

text \<open>C16. Freeing is exact and a double free is detected: for a block in use, \<open>grub_free\<close> returns, keeps the heap
  well-formed and takes that block, and no other, out of the blocks in use without touching any byte of data;
  freeing the same pointer again aborts, with a double free when the block was not merged into the one below
  it and with a broken magic otherwise.\<close>

theorem grub_free_correct:
  assumes ok: "heap_ok s" and b: "(unat ptr, len) \<in> live s"
  shows "\<exists>s'. grub_free ptr s = Some (Inr s') \<and> heap_ok s' \<and> live s' = live s - {(unat ptr, len)}
    \<and> mm_bytes s' = mm_bytes s
    \<and> grub_free ptr s' \<in> {Some (Inl Double_Free), Some (Inl Alloc_Magic_Broken)}"
proof -
  obtain s' where s': "grub_free ptr s = Some (Inr s')" "heap_ok s'" "live s' = live s - {(unat ptr, len)}"
    "mm_bytes s' = mm_bytes s"
    using grub_free_live[OF assms] by blast
  obtain i a where g: "get_header_from_pointer ptr s = Inr (a, i)" "ptr \<noteq> 0"
    using get_header_live[OF assms] by metis
  then have p: "ptr AND 15 = 0" "region_of (unat ptr) (mm_base s) 0 = Some i" "a = unat ptr div 16 - 1"
    by (auto simp: get_header_from_pointer_def Let_def split: if_splits option.splits)
  obtain first' h' where f: "free_block a (reg_first (mm_base s ! i)) (mm_hdr s) = Some (Inr (first', h'))"
    and e: "s' = s\<lparr>mm_base := (mm_base s)[i := (mm_base s ! i)\<lparr>reg_first := first'\<rparr>], mm_hdr := h'\<rparr>"
    using s'(1) g by (auto simp: grub_free_def elim!: map_sum_Inr)
  have "get_header_from_pointer ptr s' \<in> {Inl Double_Free, Inl Alloc_Magic_Broken}"
    using free_block_magic[OF f] p by (auto simp: get_header_from_pointer_def e region_of_first Let_def)
  then have "grub_free ptr s' \<in> {Some (Inl Double_Free), Some (Inl Alloc_Magic_Broken)}"
    using g(2) by (auto simp: grub_free_def)
  with s' show ?thesis by blast
qed

theorem grub_free_correct_witness:
  "\<exists>s'. grub_free 0x10D0 (heap_with used_headers) = Some (Inr s') \<and> live s' = {}
    \<and> grub_free 0x10D0 s' \<in> {Some (Inl Double_Free), Some (Inl Alloc_Magic_Broken)}"
  using grub_free_correct[OF used_ok, of "0x10D0" 48] by (simp add: used_live) blast

lemma header_size:
  assumes ok: "heap_ok s" and b: "(unat ptr, len) \<in> live s"
  obtains i where "get_header_from_pointer ptr s = Inr (unat ptr div 16 - 1, i)" "ptr \<noteq> 0"
    "16 * hdr_size (mm_hdr s (unat ptr div 16 - 1)) = len + 16"
proof -
  obtain i a D where i: "region_ok (mm_hdr s) (reg_first (mm_base s ! i)) (reg_base (mm_base s ! i)) (reg_lim (mm_base s ! i)) D"
    and a: "a \<in> allocs (mm_hdr s) D" "(unat ptr, len) = data_of (mm_hdr s) a"
    and g: "get_header_from_pointer ptr s = Inr (a, i)" "ptr \<noteq> 0"
    using get_header_live[OF ok b] by metis
  have "0 < hdr_size (mm_hdr s a)" using tiled_bounds[OF region_facts(1)[OF i]] a(1) by (auto simp: allocs_def)
  moreover have "a = unat ptr div 16 - 1" using a(2) by (simp add: data_of_def)
  ultimately show ?thesis using that[of i] g a(2) by (simp add: data_of_def)
qed

lemma without_one: "x \<in> A - K \<Longrightarrow> b \<in> K \<Longrightarrow> x \<in> A - {b} - (K - {b})"
  by auto

lemma keeps_subset: "keeps K s s' \<Longrightarrow> J \<subseteq> K \<Longrightarrow> keeps J s s'"
  by (auto simp: keeps_def)

lemma grub_free_keeps:
  assumes k: "keeps K s s'" and b: "(unat ptr, len) \<in> live s'"
  obtains s'' where "grub_free ptr s' = Some (Inr s'')" "keeps (K - {(unat ptr, len)}) s s''"
    "live s'' = live s' - {(unat ptr, len)}" "mm_bytes s'' = mm_bytes s'"
  using grub_free_live[OF keepsD(1)[OF k] b] keepsD(2)[OF k] k by (fastforce simp: keeps_def)

text \<open>The copy of the old block and of the header after it into a bigger block.\<close>

lemma realloc_copy:
  assumes k: "keeps K s s'" and b: "(unat ptr, len) \<in> K" and q: "(unat q, len') \<in> live s' - K" and le: "len + 16 \<le> len'"
    and m: "m = grub_memcpy q ptr (len + 16) (mm_bytes s')"
  shows "keeps K s (s'\<lparr>mm_bytes := m\<rparr>)" "\<And>x. x < len \<Longrightarrow> m (q + of_nat x) = mm_bytes s (ptr + of_nat x)"
proof -
  note ok = keepsD(1)[OF k]
  have lb: "(unat ptr, len) \<in> live s'" "(unat q, len') \<in> live s'" using keepsD(2)[OF k] b q by auto
  have gap: "unat ptr + len + 16 \<le> unat q \<or> unat q + len' + 16 \<le> unat ptr"
    using live_gap[OF ok lb] q b by fastforce
  have bd: "unat ptr + len + 16 \<le> 2 ^ 32" "unat q + len' < 2 ^ 32"
    using live_bounds(4)[OF ok lb(1)] live_bounds(4)[OF ok lb(2)] by simp_all
  then have ap: "apart q ptr (len + 16)" using gap le by (auto simp: apart_def in_space_def)
  have mc: "m = copied q ptr (len + 16) (mm_bytes s')" by (simp only: m grub_memcpy_copied[OF ap])
  show "keeps K s (s'\<lparr>mm_bytes := m\<rparr>)"
    by (rule fill_keeps[OF k q le]) (use bytes_offset[of q "len + 16"] bd le in \<open>auto simp: mc copied_def\<close>)
  show "m (q + of_nat x) = mm_bytes s (ptr + of_nat x)" if x: "x < len" for x
  proof -
    have "unat (of_nat x :: u32) = x" using x bd by (simp add: unat_of_nat_id)
    then have "m (q + of_nat x) = mm_bytes s' (ptr + of_nat x)"
      using x by (simp add: mc copied_def)
    moreover have "ptr + of_nat x = (of_nat (unat ptr + x) :: u32)" by simp
    moreover have "unat ptr + x \<in> bytes_of (unat ptr, len)" using x by (simp add: bytes_of_def)
    ultimately show ?thesis using k b unfolding keeps_def by metis
  qed
qed



text \<open>C39. A size that rounds up past the end of the address space is taken for the smallest one: \<open>grub_realloc\<close> of a
  block in use to 0xFFFFFFF1 bytes or more reports success with the old pointer and changes nothing, although
  the block is smaller.\<close>

theorem grub_realloc_size_wraps:
  assumes ok: "heap_ok s" and b: "(unat ptr, len) \<in> live s" and sz: "0xFFFFFFF0 < sz"
  shows "grub_realloc env ptr sz s = Some (Inr (ptr, s)) \<and> len < unat sz"
proof -
  have u: "0xFFFFFFF0 < unat sz" using sz by (simp add: word_less_nat_alt)
  have "unat (sz + 15) < 16" using u unat_less[of sz] by (simp add: unat_word_ariths mod_if) arith
  then have "drop_bit 4 (sz + 15) = 0"
    by (intro word_unat_eq_iff[THEN iffD2]) (simp only: unat_drop_bit, simp)
  then have "unat (cells_for sz) = 1" by (simp add: cells_for_def add.commute)
  moreover obtain i where i: "get_header_from_pointer ptr s = Inr (unat ptr div 16 - 1, i)" "ptr \<noteq> 0"
    "16 * hdr_size (mm_hdr s (unat ptr div 16 - 1)) = len + 16"
    using header_size[OF ok b] by blast
  moreover have "1 \<le> hdr_size (mm_hdr s (unat ptr div 16 - 1))" using i(3) by linarith
  moreover have "sz \<noteq> 0" using u by auto
  moreover have "len < unat sz" using live_bounds(4)[OF ok b] u by simp
  ultimately show ?thesis by (simp add: grub_realloc_def)
qed

theorem grub_realloc_size_wraps_witness:
  "grub_realloc quiet 0x10D0 0xFFFFFFF8 (heap_with used_headers) = Some (Inr (0x10D0, heap_with used_headers))"
  using grub_realloc_size_wraps[OF used_ok, of "0x10D0" 48 "0xFFFFFFF8" quiet] by (simp add: used_live)


lemma all_free_region:
  assumes D: "region_ok h first base lim D" and A: "allocs h D = {}"
  shows "base \<in> frees h D" "base + hdr_size (h base) = lim"
proof -
  note f = region_facts[OF D]
  have "D = frees h D" using f(10) A by simp
  moreover have "base \<in> D" "base + hdr_size (h base) = lim \<or> base + hdr_size (h base) \<in> D"
    using f(1) by (auto simp: tiled_def)
  ultimately show "base \<in> frees h D" "base + hdr_size (h base) = lim" using f(6)[of base] by auto
qed

text \<open>C17. Nothing is lost to fragmentation: when every block has been freed, \<open>grub_malloc\<close> finds room for any
  request that fits into one of the regions with its header, without asking for more memory.\<close>

theorem malloc_after_all_freed:
  assumes ok: "heap_ok s" and free: "live s = {}" and r: "r \<in> set (mm_base s)"
    and fits: "unat sz + 16 \<le> unat (reg_size r)" and sz: "unat sz < 2 ^ 32 - 0x100000"
  shows "\<exists>ret s'. grub_malloc env sz s = Some (Inr (ret, s')) \<and> ret \<noteq> 0 \<and> heap_ok s'
    \<and> live s' = {(unat ret, 16 * ((unat sz + 15) div 16))}"
proof -
  define n where "n = (unat sz + 15) div 16 + 1"
  have c: "unat (cells_for sz) = n"
    using sz by (simp add: n_def) (intro cells_for_small[unfolded One_nat_def add_Suc_right add_0_right], simp)
  have m: "grub_malloc env sz s = memalign_again env n 1 0 sz s"
  proof -
    have "unat (NOT 0 :: u32) = 2 ^ 32 - 1" by (simp only: unat_not) simp
    then have "\<not> NOT 0 < sz" "\<not> NOT 0x100000 < sz" "mm_base s \<noteq> []"
      using r sz by (auto simp: word_less_nat_alt not_less unat_not)
    then show ?thesis by (simp add: grub_malloc_def grub_memalign_def Let_def c)
  qed
  obtain D where D: "region_ok (mm_hdr s) (reg_first r) (reg_base r) (reg_lim r) D"
    using ok r by (auto simp: heap_ok_def)
  have "allocs (mm_hdr s) D = {}"
    using free r live_in_eq[OF D] by (auto simp: live_def)
  note b = all_free_region[OF D this]
  have "16 dvd unat (reg_size r)" using ok r by (auto simp: heap_ok_def reg_wf_def)
  then have "n \<le> unat (reg_size r) div 16" using fits by (auto simp: n_def elim!: dvdE)
  then have fit: "n \<le> hdr_size (mm_hdr s (reg_base r))" using b(2) by (simp add: reg_lim_def)
  have nf: "\<not> region_full n 1 (mm_hdr s) r"
    using b(1) fit unfolding region_full_iff[OF D] by (auto simp: align_extra_def not_less)
  obtain p rs' h' where p: "malloc_regions n 1 (mm_base s) (mm_hdr s) = Some (Inr (p, rs', h'))"
    "if p = 0 then s\<lparr>mm_base := rs', mm_hdr := h'\<rparr> = s \<and> (\<forall>r\<in>set (mm_base s). region_full n 1 (mm_hdr s) r)
     else heap_ok (s\<lparr>mm_base := rs', mm_hdr := h'\<rparr>) \<and> (16 * p, 16 * (n - 1)) \<notin> live s
       \<and> live (s\<lparr>mm_base := rs', mm_hdr := h'\<rparr>) = insert (16 * p, 16 * (n - 1)) (live s)
       \<and> 1 dvd p \<and> 16 * p < 2 ^ 32"
    using malloc_round[OF ok, of n 1 0] by (auto simp: n_def)
  have p0: "p \<noteq> 0"
  proof
    assume "p = 0"
    then have "\<forall>r\<in>set (mm_base s). region_full n 1 (mm_hdr s) r" using p(2) by presburger
    then show False using nf r by blast
  qed
  then have "memalign_again env n 1 0 sz s = Some (Inr (cell_addr p, s\<lparr>mm_base := rs', mm_hdr := h'\<rparr>))"
    by (subst memalign_again.simps) (simp add: p(1) del: One_nat_def)
  moreover have u: "unat (cell_addr p) = 16 * p" using p(2) p0 by (intro unat_of_nat_id) auto
  moreover have "cell_addr p \<noteq> 0" using u p0 by (metis mult_eq_0_iff unat_0 zero_neq_numeral)
  ultimately show ?thesis
    using p(2) p0 free m by (intro exI[of _ "cell_addr p"] exI[of _ "s\<lparr>mm_base := rs', mm_hdr := h'\<rparr>"]) (auto simp: n_def)
qed

theorem malloc_after_all_freed_witness:
  "\<exists>ret s'. grub_malloc quiet 200 (heap_with fresh_headers) = Some (Inr (ret, s')) \<and> ret \<noteq> 0
    \<and> live s' = {(unat ret, 208)}"
  using malloc_after_all_freed[OF fresh_ok fresh_live, of _ 200 quiet] by (simp add: heap_with_def) blast


text \<open>C32. The two loops over the free list end: in a well-formed region the search for a free block and the search
  for the place of a block in use return, and without aborting.\<close>

theorem free_list_loops_end:
  assumes "region_ok h first base lim D" and "0 < n" and "p \<in> allocs h D"
  shows "(\<exists>r. grub_real_malloc first n (2 ^ e) h = Some (Inr r)) \<and> (\<exists>r. free_block p first h = Some (Inr r))"
  using grub_real_malloc_result[OF assms(1,2) refl, of e] free_block_freed[OF assms(1,3)] by blast

theorem free_list_loops_end_witness:
  "(\<exists>r. grub_real_malloc 0x102 20 (2 ^ 3) used_headers = Some (Inr r))
    \<and> (\<exists>r. free_block 0x10C 0x102 used_headers = Some (Inr r))"
  using free_list_loops_end[OF used_region, of 20 "0x10C" 3] by (simp add: frees_used)

end
