(* ===== verification/GrubMMClient.thy ===== *)
theory GrubMMClient
  imports GrubMMHeap
begin

text \<open>
  The contract of an allocator and a client that holds on to what it was given: whatever it asks for and gives
  back, in any order, no call aborts and the blocks it holds stay apart.
\<close>


section \<open>The contract\<close>

text \<open>\<open>inv\<close> is the invariant of the state, \<open>blocks\<close> the blocks in use (address and size), \<open>fair\<close> what is asked of the
  callbacks of the allocator.  A request may fail, but keeps the blocks \<open>K\<close> of the caller.\<close>

locale allocator =
  fixes inv :: "'s \<Rightarrow> bool" and blocks :: "'s \<Rightarrow> (nat \<times> nat) set" and fair :: "'e \<Rightarrow> bool"
    and alloc :: "'e \<Rightarrow> u32 \<Rightarrow> 's \<Rightarrow> (mm_fatal + (u32 \<times> 's)) option"
    and release :: "u32 \<Rightarrow> 's \<Rightarrow> (mm_fatal + 's) option"
  assumes gap: "inv s \<Longrightarrow> b \<in> blocks s \<Longrightarrow> b' \<in> blocks s \<Longrightarrow> b \<noteq> b' \<Longrightarrow>
      fst b + snd b < fst b' \<or> fst b' + snd b' < fst b"
    and alloc: "inv s \<Longrightarrow> K \<subseteq> blocks s \<Longrightarrow> fair e \<Longrightarrow> \<exists>ret s'. alloc e sz s = Some (Inr (ret, s')) \<and> inv s' \<and> K \<subseteq> blocks s' \<and>
      (ret \<noteq> 0 \<longrightarrow> (\<exists>len. (unat ret, len) \<in> blocks s' - K \<and> unat sz \<le> len))"
    and release: "inv s \<Longrightarrow> (unat ptr, len) \<in> blocks s \<Longrightarrow>
      \<exists>s'. release ptr s = Some (Inr s') \<and> inv s' \<and> blocks s' = blocks s - {(unat ptr, len)}"
begin

text \<open>The pointers that the client holds, with the sizes it asked for.\<close>

definition holds :: "(u32 \<times> u32) list \<Rightarrow> 's \<Rightarrow> bool" where
  "holds hs s \<longleftrightarrow> inv s \<and> distinct (map fst hs) \<and> (\<forall>(p, sz) \<in> set hs. \<exists>len. (unat p, len) \<in> blocks s \<and> unat sz \<le> len)"

definition held :: "(u32 \<times> u32) list \<Rightarrow> 's \<Rightarrow> (nat \<times> nat) set" where
  "held hs s = {b \<in> blocks s. \<exists>(p, sz) \<in> set hs. fst b = unat p}"

lemma holds_alloc:
  assumes h: "holds hs s" and e: "fair e"
  shows "\<exists>ret s'. alloc e sz s = Some (Inr (ret, s')) \<and> holds (if ret = 0 then hs else (ret, sz) # hs) s'"
proof -
  have "inv s" "held hs s \<subseteq> blocks s" using h by (auto simp: holds_def held_def)
  from alloc[OF this e] obtain ret s' where a: "alloc e sz s = Some (Inr (ret, s'))" "inv s'" "held hs s \<subseteq> blocks s'"
    "ret \<noteq> 0 \<Longrightarrow> \<exists>len. (unat ret, len) \<in> blocks s' - held hs s \<and> unat sz \<le> len" by blast
  have old: "\<exists>len. (unat p, len) \<in> held hs s \<and> unat n \<le> len" if "(p, n) \<in> set hs" for p n
    using h that by (fastforce simp: holds_def held_def)
  have new: "ret \<notin> fst ` set hs" if nz: "ret \<noteq> 0"
  proof
    assume "ret \<in> fst ` set hs"
    then obtain len where l: "(unat ret, len) \<in> held hs s" using old by fastforce
    obtain len' where l': "(unat ret, len') \<in> blocks s' - held hs s" using a(4)[OF nz] by blast
    have "(unat ret, len) \<noteq> (unat ret, len')" using l l' by auto
    then show False using gap[OF a(2), of "(unat ret, len)" "(unat ret, len')"] l l' a(3) by auto
  qed
  have keep: "\<exists>len. (unat p, len) \<in> blocks s' \<and> unat n \<le> len" if "(p, n) \<in> set hs" for p n
    using old[OF that] a(3) by blast
  have "distinct (map fst hs)" using h by (simp add: holds_def)
  then have "holds (if ret = 0 then hs else (ret, sz) # hs) s'"
    using a(2) keep new a(4) by (cases "ret = 0") (auto simp: holds_def)
  with a(1) show ?thesis by blast
qed

lemma holds_release:
  assumes h: "holds hs s" and i: "i < length hs"
  shows "\<exists>s'. release (fst (hs ! i)) s = Some (Inr s') \<and> holds (take i hs @ drop (Suc i) hs) s'"
proof -
  define p where "p = fst (hs ! i)"
  have hs: "hs = take i hs @ hs ! i # drop (Suc i) hs" using id_take_nth_drop[OF i] .
  have d: "distinct (map fst (take i hs @ hs ! i # drop (Suc i) hs))" using h hs by (simp add: holds_def)
  obtain len where l: "(unat p, len) \<in> blocks s"
    using h nth_mem[OF i] by (fastforce simp: holds_def p_def)
  from release[OF _ this] h obtain s' where s': "release p s = Some (Inr s')" "inv s'"
    "blocks s' = blocks s - {(unat p, len)}" by (auto simp: holds_def)
  have out: "p \<notin> fst ` set (take i hs @ drop (Suc i) hs)"
    using d unfolding map_append list.map p_def[symmetric] by (simp add: image_Un)
  have "\<exists>l. (unat q, l) \<in> blocks s' \<and> unat n \<le> l" if q: "(q, n) \<in> set (take i hs @ drop (Suc i) hs)" for q n
  proof -
    have "(q, n) \<in> set hs" using q by (auto dest: in_set_takeD in_set_dropD)
    then obtain l where "(unat q, l) \<in> blocks s" "unat n \<le> l" using h unfolding holds_def by blast
    moreover have "q \<noteq> p" using image_eqI[of q fst "(q, n)", OF _ q] out by auto
    ultimately show ?thesis unfolding s'(3) by (intro exI[of _ l]) (simp add: word_unat_eq_iff)
  qed
  moreover have "distinct (map fst (take i hs @ drop (Suc i) hs))" using d by simp
  ultimately have "holds (take i hs @ drop (Suc i) hs) s'" using s'(2) by (auto simp: holds_def)
  with s'(1) show ?thesis by (auto simp: p_def)
qed

lemma holds_apart:
  assumes h: "holds hs s" and i: "i < length hs" "j < length hs" "i \<noteq> j"
  shows "{unat (fst (hs ! i))..<unat (fst (hs ! i)) + unat (snd (hs ! i))}
    \<inter> {unat (fst (hs ! j))..<unat (fst (hs ! j)) + unat (snd (hs ! j))} = {}"
proof -
  obtain li where li: "(unat (fst (hs ! i)), li) \<in> blocks s" "unat (snd (hs ! i)) \<le> li"
    using h nth_mem[OF i(1)] by (fastforce simp: holds_def)
  obtain lj where lj: "(unat (fst (hs ! j)), lj) \<in> blocks s" "unat (snd (hs ! j)) \<le> lj"
    using h nth_mem[OF i(2)] by (fastforce simp: holds_def)
  have "fst (hs ! i) \<noteq> fst (hs ! j)" and v: "inv s"
    using h i by (simp_all add: holds_def distinct_conv_nth)
  then have "(unat (fst (hs ! i)), li) \<noteq> (unat (fst (hs ! j)), lj)" by (simp add: word_unat_eq_iff)
  from gap[OF v li(1) lj(1) this] show ?thesis
    using li(2) lj(2) by auto
qed

end

section \<open>A client of the heap\<close>

text \<open>A request: memory of some size, or giving back the block at some place of the list of held ones.\<close>

datatype request = Malloc u32 | Release nat

fun serve :: "mm_env \<Rightarrow> request list \<Rightarrow> (u32 \<times> u32) list \<times> mm_state \<Rightarrow> (mm_fatal + ((u32 \<times> u32) list \<times> mm_state)) option" where
  "serve env [] (hs, s) = Some (Inr (hs, s))"
| "serve env (Malloc sz # rs) (hs, s) =
    (case grub_malloc env sz s of
       None \<Rightarrow> None
     | Some (Inl e) \<Rightarrow> Some (Inl e)
     | Some (Inr (ret, s)) \<Rightarrow> serve env rs (if ret = 0 then hs else (ret, sz) # hs, s))"
| "serve env (Release i # rs) (hs, s) =
    (if i < length hs
     then (case grub_free (fst (hs ! i)) s of
             None \<Rightarrow> None
           | Some (Inl e) \<Rightarrow> Some (Inl e)
           | Some (Inr s) \<Rightarrow> serve env rs (take i hs @ drop (Suc i) hs, s))
     else serve env rs (hs, s))"

interpretation grub_heap: allocator heap_ok live "\<lambda>env. \<forall>K. env_keeps env K" grub_malloc grub_free
proof
  show "fst b + snd b < fst b' \<or> fst b' + snd b' < fst b"
    if "heap_ok s" "b \<in> live s" "b' \<in> live s" "b \<noteq> b'" for s b b'
    using live_gap[OF that] by auto
  show "\<exists>ret s'. grub_malloc e sz s = Some (Inr (ret, s')) \<and> heap_ok s' \<and> K \<subseteq> live s' \<and>
      (ret \<noteq> 0 \<longrightarrow> (\<exists>len. (unat ret, len) \<in> live s' - K \<and> unat sz \<le> len))"
    if "heap_ok s" "K \<subseteq> live s" "\<forall>K. env_keeps e K" for s K e sz
    using grub_memalign_keeps[OF that(1,2) that(3)[rule_format], of 0 sz] keepsD unfolding grub_malloc_def by blast
  show "\<exists>s'. grub_free ptr s = Some (Inr s') \<and> heap_ok s' \<and> live s' = live s - {(unat ptr, len)}"
    if "heap_ok s" "(unat ptr, len) \<in> live s" for s ptr len
    using grub_free_live[OF that] by blast
qed

lemma serve_holds:
  assumes "grub_heap.holds hs s" and env: "\<forall>K. env_keeps env K"
  shows "\<exists>hs' s'. serve env rs (hs, s) = Some (Inr (hs', s')) \<and> grub_heap.holds hs' s'"
  using assms(1)
proof (induction rs arbitrary: hs s)
  case (Cons r rs)
  show ?case
  proof (cases r)
    case (Malloc sz)
    obtain ret s' where "grub_malloc env sz s = Some (Inr (ret, s'))"
      "grub_heap.holds (if ret = 0 then hs else (ret, sz) # hs) s'"
      using grub_heap.holds_alloc[OF Cons.prems env] by blast
    then show ?thesis using Cons.IH by (simp add: Malloc)
  next
    case (Release i)
    show ?thesis
    proof (cases "i < length hs")
      case True
      then show ?thesis using grub_heap.holds_release[OF Cons.prems True] Cons.IH by (auto simp: Release)
    next
      case False
      then show ?thesis using Cons.IH[OF Cons.prems] by (simp add: Release)
    qed
  qed
qed simp



end
