(* ===== verification/Spec2Isabelle.thy ===== *)
theory Spec2Isabelle
  imports Framebuffer Memory Keyboard GrubErr GrubMemory GrubPrintf GrubParser GrubDatetime GrubPQueue GrubEnvblk
    GrubCharset GrubMMOps GrubMMClient
begin

text \<open>
  Verification of VVBright OS: its own 32-bit kernel (\<open>src/kernel\<close>) and the core of the GRUB boot loader
  that the repository builds it with (\<open>src/grub\<close>).

  \<^bold>\<open>The program.\<close>  The boot loader reads its configuration with a command-line parser, keeps variables in
  an environment that can be saved to a file, formats messages and loads the kernel.  The kernel writes to
  the VGA text page, paints a desktop on a linear framebuffer, manages physical frames, page tables and a
  bump heap, fills the interrupt table and serves the keyboard.  Kernel code and boot loader share no
  functions, so the development has two groups of theories over one \<open>Prelude\<close> (machine integers, loops as
  folds, words, collections of lemmas).

  \<^bold>\<open>Conventions.\<close>  A C struct is a record and an enum a datatype with the source's constructors.  Integers
  have their width (\<open>u8\<close>, \<open>u16\<close>, \<open>u32\<close>, \<open>u64\<close>) wherever it can matter; on the 32-bit target \<open>size_t\<close> and
  \<open>long\<close> have 32 bits.  A C string is a HOL string without its terminator (\<open>is_cstr\<close> when it has no NUL
  inside); comparisons of \<open>char\<close> go through \<open>schar\<close> and \<open>uchar\<close>.  State is passed and returned explicitly.
  An access outside an array or past a terminator is the result \<open>None\<close> (\<open>OutOfBounds\<close> for the interrupt
  dispatcher), so a theorem that a function returns \<open>Some\<close> is a theorem of memory safety.  Errors are values
  of \<open>grub_err_t\<close>, and \<open>grub_fatal\<close> is a value of its own (\<open>mm_fatal\<close>).  The heap allocator is modelled; in the
  operations of other parts that allocate, whether an allocation succeeds is a parameter.

  \<^bold>\<open>The kernel.\<close>
  \<^item> \<open>Terminal\<close> (\<open>terminal.c\<close>): cells, scrolling, writing.  The locale \<open>console\<close> states what a text screen
    promises, its interpretation \<open>vga\<close> discharges it for the code: writing never leaves the text page and
    shows what an abstract screen of lines shows.
  \<^item> \<open>Framebuffer\<close> (\<open>video/framebuffer.c\<close>, \<open>video/draw.c\<close>, \<open>kernel.c\<close>): every pixel of the desktop.
  \<^item> \<open>Memory\<close> (\<open>memory.c\<close>): frame bitmap, paging and heap in one physical memory, so that the bitmap and
    the page tables overlap where the code lets them.  The locale \<open>frame_pool\<close> (interpreted as \<open>pool\<close>) is the
    contract of the frame allocator.  The lemmas show lowest-free-frame allocation, translation after
    \<open>map_page\<close>, the identity mapping, disjoint heap blocks, and where requests wrap.
  \<^item> \<open>Interrupts\<close> (\<open>interrupts.c\<close>): the table, the controllers, dispatch, exceptions.  A function pointer is
    an address, and the parameter \<open>code\<close> says what the function at an address does.
  \<^item> \<open>Keyboard\<close> (\<open>keyboard.c\<close>): layout tables, modifiers, handler, initialisation.
  This theory puts the last two and the terminal together.

  \<^bold>\<open>The boot loader.\<close>
  \<^item> \<open>GrubErr\<close> (\<open>kern/err.c\<close>): the stack of saved errors.
  \<^item> \<open>GrubMemory\<close>, \<open>GrubString\<close>, \<open>GrubNumber\<close>, \<open>GrubPrintf\<close> (\<open>kern/misc.c\<close>, \<open>misc.h\<close>): overlapping and word-wise
    copies, comparison and search, 64-bit division, number parsing and printing, formatted output.  Each
    optimised routine equals a plain reference; parsing and printing are inverse; bounded formatting stores
    a prefix of the specified text.
  \<^item> \<open>GrubEnv\<close> (\<open>kern/env.c\<close>, \<open>normal/context.c\<close>): the hash table refines a map (locale \<open>variable_store\<close>,
    interpretation \<open>env\<close>), contexts nest, every allocation may fail.
  \<^item> \<open>GrubBuffer\<close> (\<open>kern/buffer.c\<close>): the growing buffer is a byte queue (locale \<open>byte_buffer\<close>, interpretation
    \<open>buf\<close>), with its size doubling and overflow checks.
  \<^item> \<open>GrubParser\<close> (\<open>kern/parser.c\<close>): splitting on two buffers refines a list-level state machine, and reads
    back every printed command of plain, quoted, escaped and variable pieces.
  \<^item> \<open>GrubDatetime\<close> (\<open>lib/datetime.c\<close>): Unix time and calendar dates are inverse on every year of 16 bits.
  \<^item> \<open>GrubPQueue\<close> (\<open>lib/priority_queue.c\<close>, the queue of \<open>net/tcp.c\<close>): the array heap refines a multiset with a
    greatest element (locale \<open>preference\<close>, interpretation \<open>tcp\<close>).
  \<^item> \<open>GrubEnvblk\<close> (\<open>lib/envblk.c\<close>): the text block of fixed size implements a finite map.
  \<^item> \<open>GrubCharset\<close> (\<open>charset.h\<close>, \<open>normal/charset.c\<close>): UTF-8, UTF-16 and UCS-4 convert into each other without
    loss, and an encoded text is cut between characters.

  \<^item> \<open>GrubMM\<close> (\<open>kern/mm.c\<close>, \<open>mm_private.h\<close>): the heap allocator.  A header is found by its cell (its address
    divided by 16); the state has the regions, the headers, which the code overwrites in place, and the bytes
    of the data.  \<open>GrubRing\<close> has the ring of free blocks, which goes from high to low addresses.  \<open>GrubMMRegion\<close>
    has the invariant of one region (\<open>region_ok\<close>: blocks fill it, the free ones form the ring, no two free ones
    adjoin) and that taking and freeing a block keep it.  \<open>GrubMMHeap\<close> has the invariant of the heap (\<open>heap_ok\<close>) and
    the blocks in use (\<open>live\<close>).  \<open>GrubMMGrow\<close> (\<open>grub_mm_init_region\<close>) and \<open>GrubMMOps\<close> (\<open>grub_memalign\<close>,
    \<open>grub_calloc\<close>, \<open>grub_free\<close>, \<open>grub_realloc\<close>) have what the callers rely on: new blocks are apart from the
    old ones, contents stay, freed memory is found again, a double free aborts.  \<open>GrubMMClient\<close> has the
    contract as a locale (\<open>allocator\<close>, interpretation \<open>grub_heap\<close>) and any sequence of calls of a client.

  \<^bold>\<open>Loops.\<close>  A loop over a range or a list is a fold or structural recursion; the others are functions with a
  termination proof (a measure on what is left of the source, of the array or of the count).  No definition
  takes fuel.  The loop that doubles a buffer size ends because shifting a word left reaches zero.  The two
  loops of the heap allocator over a ring of free blocks need not end when the ring is broken, so they are
  partial functions, and a theorem shows that they return in every well-formed region.

  \<^bold>\<open>Parameters.\<close>  The contents of I/O ports, the addresses of assembly stubs, the strings and GUIDs behind
  pointers given to the formatter, variable hooks, continuation lines, the success of allocations, and what
  the heap allocator calls when it has no room (a function that adds regions, the disk cache); of these two the
  theorems assume that they keep the heap well-formed and the blocks in use.

  \<^bold>\<open>What is not modelled.\<close>  Assembly, linker and build scripts; the halt loop after the desktop is painted.  Of
  the boot loader: the debugging output of the allocator, the module loader, disks, partitions, file
  systems, network protocols, loaders, video, menus and the script language with its generated parser,
  platform code, the host utilities, and the copies of third-party libraries.  They depend on devices,
  firmware or on-disk formats, or are libraries the modelled code does not call.

  \<^bold>\<open>Where the code differs from what it says.\<close>  Some theorems state what the code does where a comment or a
  table suggests something else: \<open>kmalloc\<close> wraps, page 0 is not mapped, vectors 20 to 31 read past the
  message table, the keypad signs are on the wrong keys, the UUID comparison does not skip all dashes, the
  format check can be bypassed, a character after a broken UTF-8 sequence can be lost, \<open>grub_realloc\<close> takes a
  size near 4 GiB for a small one, and a few bytes added above a region make the allocator abort.
\<close>

section \<open>Interrupts, keyboard and terminal together\<close>



text \<open>In the other order the keyboard's handler is lost: \<open>interrupts_init\<close> clears the table, and a key is
  only acknowledged.\<close>

lemma keyboard_before_interrupts:
  assumes "kstate_ok s"
  shows "\<exists>s1 s2. keyboard_init h s = Some s1 \<and> interrupts_init isr irq a s1 = Some s2
    \<and> interrupt_handler code 33 e s2 = Returns (outb 0x20 0x20 s2)"
proof -
  obtain s1 where s1: "keyboard_init h s = Some s1" "kstate_ok s1"
    using keyboard_init_total[OF assms] by blast
  obtain s2 where s2: "interrupts_init isr irq a s1 = Some s2" "kstate_ok s2"
      "\<forall>k < 256. interrupt_handlers s2 ! k = 0"
    using interrupts_init_total[OF s1(2)] by blast
  have "interrupt_handler code 33 e s2 = Returns (outb 0x20 0x20 s2)"
    using s2(2,3) by (simp add: interrupt_handler_def kstate_ok_def pic_send_eoi_def word_le_nat_alt)
  then show ?thesis
    using s1 s2 by blast
qed

end
